(* ===== verification/Prelude.thy ===== *)
theory Prelude
  imports Main "HOL-Library.Multiset" "HOL-Library.Char_ord" "HOL-Library.List_Lexorder"
begin

text \<open>
  The prelude: what every component shares.
  \<^item> \<open>find_index\<close>, the shape of the Go loop \<open>for i := range xs { if p(xs[i]) {...; break} }\<close>;
  \<^item> \<open>itoa\<close>, the decimal rendering of a non-negative integer (\<open>strconv.Itoa\<close> and the verb
    \<open>%d\<close>), with its injectivity, on which the uniqueness of task ids and file names rests;
  \<^item> the generic notion of a transition system, its reachable states, and the locale that
    turns a one-step invariant into an invariant of every reachable state.
\<close>

named_theorems go_defs \<open>definitions that are unfolded when a handler is executed symbolically\<close>

text \<open>How a Go program ends before its time: \<open>log.Fatal\<close>, and a panic of the runtime or of the program.\<close>

datatype fatal = Fatal string | Panic string

section \<open>The first index that satisfies a predicate\<close>

fun find_index :: "('a \<Rightarrow> bool) \<Rightarrow> 'a list \<Rightarrow> nat option" where
  "find_index P [] = None"
| "find_index P (x # xs) = (if P x then Some 0 else map_option Suc (find_index P xs))"

lemma find_index_None_iff: "find_index P xs = None \<longleftrightarrow> (\<forall>x\<in>set xs. \<not> P x)"
  by (induction xs) auto

lemma find_index_Some_iff:
  "find_index P xs = Some i \<longleftrightarrow> i < length xs \<and> P (xs ! i) \<and> (\<forall>j<i. \<not> P (xs ! j))"
proof (induction xs arbitrary: i)
  case Nil
  then show ?case by simp
next
  case (Cons x xs)
  then show ?case
    by (cases i) (auto simp: less_Suc_eq_0_disj)
qed

lemma find_index_SomeD:
  assumes "find_index P xs = Some i"
  shows "i < length xs" and "P (xs ! i)"
  using assms by (simp_all add: find_index_Some_iff)

lemma find_index_exists: "x \<in> set xs \<Longrightarrow> P x \<Longrightarrow> \<exists>i. find_index P xs = Some i"
  using find_index_None_iff [of P xs] by (cases "find_index P xs") auto

lemma Bex_set_find_index: "(\<exists>x\<in>set xs. P x) \<longleftrightarrow> (\<exists>i. find_index P xs = Some i)"
  using find_index_None_iff [of P xs] by (cases "find_index P xs") auto

lemma find_index_unique:
  assumes "e \<in> set xs" and "P e" and "\<And>x. x \<in> set xs \<Longrightarrow> P x \<Longrightarrow> x = e"
  shows "\<exists>i. find_index P xs = Some i \<and> i < length xs \<and> xs ! i = e"
proof -
  obtain i where i: "find_index P xs = Some i" using find_index_exists [of e xs P] assms(1,2) by blast
  from find_index_SomeD [OF i] have "i < length xs" "P (xs ! i)" .
  with i assms(3) [of "xs ! i"] show ?thesis by simp
qed

section \<open>Lists\<close>

lemma list_all_update: "list_all P xs \<Longrightarrow> P x \<Longrightarrow> list_all P (xs[i := x])"
  by (auto simp: list_all_iff dest!: set_update_subset_insert [THEN subsetD])

lemma map_update_same:
  "(i < length xs \<Longrightarrow> f x = f (xs ! i)) \<Longrightarrow> map f (xs[i := x]) = map f xs"
  by (cases "i < length xs") (auto intro!: nth_equalityI simp: nth_list_update)

lemma list_all_update_other:
  "(\<And>j. j < length xs \<Longrightarrow> j \<noteq> i \<Longrightarrow> P (xs ! j)) \<Longrightarrow> P x \<Longrightarrow> list_all P (xs[i := x])"
  by (cases "i < length xs") (auto simp: list_all_length nth_list_update)

lemma distinct_map_nth_eq:
  "distinct (map f xs) \<Longrightarrow> i < length xs \<Longrightarrow> j < length xs \<Longrightarrow> f (xs ! i) = f (xs ! j) \<Longrightarrow> i = j"
  by (metis length_map nth_eq_iff_index_eq nth_map)

text \<open>The permutations of a list, by indices and by multisets.\<close>

lemma mset_permuted_nth:
  assumes "distinct ks" and "set ks = {..<length xs}"
  shows "mset (map ((!) xs) ks) = mset xs"
proof -
  have "set ks = set [0..<length xs]" using assms(2) by (simp add: lessThan_atLeast0)
  then have "mset ks = mset [0..<length xs]"
    using assms(1) set_eq_iff_mset_eq_distinct [OF _ distinct_upt] by blast
  then have "mset (map ((!) xs) ks) = mset (map ((!) xs) [0..<length xs])" by (metis mset_map)
  then show ?thesis by (simp only: map_nth)
qed

lemma mset_eq_permuted_nth:
  "mset vs = mset xs \<Longrightarrow> \<exists>ks. distinct ks \<and> set ks = {..<length xs} \<and> vs = map ((!) xs) ks"
proof (induction xs arbitrary: vs)
  case (Cons x xs)
  then have "x \<in> set vs" by (metis list.set_intros(1) mset_eq_setD)
  then obtain as bs where vs: "vs = as @ x # bs" by (meson split_list)
  with Cons.prems have "mset (as @ bs) = mset xs" by simp
  from Cons.IH [OF this] obtain ks where ks: "distinct ks" "set ks = {..<length xs}" "as @ bs = map ((!) xs) ks" by blast
  define n where "n = length as"
  have "as = take n (map ((!) xs) ks)" "bs = drop n (map ((!) xs) ks)"
    by (simp_all add: n_def flip: ks(3))
  then have ab: "as = map ((!) xs) (take n ks)" "bs = map ((!) xs) (drop n ks)"
    by (simp_all only: take_map drop_map)
  let ?ks = "map Suc (take n ks) @ 0 # map Suc (drop n ks)"
  have un: "set (take n ks) \<union> set (drop n ks) = {..<length xs}"
    using ks(2) by (metis append_take_drop_id set_append)
  have "set (take n ks) \<inter> set (drop n ks) = {}"
    by (rule set_take_disj_set_drop_if_distinct [OF ks(1)]) simp
  then have "Suc ` set (take n ks) \<inter> Suc ` set (drop n ks) = {}" by blast
  then have "distinct ?ks" using ks(1) by (simp add: distinct_map)
  moreover have "set ?ks = insert 0 (Suc ` (set (take n ks) \<union> set (drop n ks)))" by auto
  then have "set ?ks = {..<length (x # xs)}" unfolding un by (simp add: lessThan_Suc_eq_insert_0)
  moreover have "vs = map ((!) (x # xs)) ?ks" by (simp add: vs ab)
  ultimately show ?case by blast
qed simp

section \<open>Decimal numbers\<close>

definition digit_char :: "nat \<Rightarrow> char" where
  "digit_char d = char_of (48 + d)"

fun itoa :: "nat \<Rightarrow> string" where
  "itoa n = (if n < 10 then [digit_char n] else itoa (n div 10) @ [digit_char (n mod 10)])"

declare itoa.simps [simp del]

fun atoi_acc :: "nat \<Rightarrow> string \<Rightarrow> nat" where
  "atoi_acc a [] = a"
| "atoi_acc a (c # cs) = atoi_acc (10 * a + (of_char c - 48)) cs"

lemma atoi_acc_append: "atoi_acc a (xs @ ys) = atoi_acc (atoi_acc a xs) ys"
  by (induction xs arbitrary: a) simp_all

lemma of_digit_char: "d < 10 \<Longrightarrow> (of_char (digit_char d) :: nat) = 48 + d"
  by (simp add: digit_char_def)

lemma atoi_itoa: "atoi_acc 0 (itoa n) = n"
proof (induction n rule: itoa.induct)
  case (1 n)
  show ?case
  proof (cases "n < 10")
    case True
    then show ?thesis by (simp add: itoa.simps [of n] of_digit_char)
  next
    case False
    with 1 show ?thesis
      by (simp add: itoa.simps [of n] atoi_acc_append of_digit_char)
  qed
qed

lemma itoa_inject [simp]: "itoa m = itoa n \<longleftrightarrow> m = n"
  by (metis atoi_itoa)

lemma itoa_not_Nil [simp]: "itoa n \<noteq> []"
  by (subst itoa.simps) simp

lemma itoa_digits: "c \<in> set (itoa n) \<Longrightarrow> 48 \<le> (of_char c :: nat) \<and> (of_char c :: nat) < 58"
proof (induction n rule: itoa.induct)
  case (1 n)
  show ?case
  proof (cases "n < 10")
    case True
    with "1.prems" show ?thesis by (auto simp: itoa.simps [of n] of_digit_char)
  next
    case False
    with 1 show ?thesis by (auto simp: itoa.simps [of n] of_digit_char)
  qed
qed

lemma itoa_no_dash [simp]: "CHR ''-'' \<notin> set (itoa n)"
  using itoa_digits [of "CHR ''-''" n] by (auto simp: of_char_def)

section \<open>Transition systems\<close>

inductive reach :: "('s \<Rightarrow> bool) \<Rightarrow> ('s \<Rightarrow> 's \<Rightarrow> bool) \<Rightarrow> 's \<Rightarrow> bool"
  for start :: "'s \<Rightarrow> bool" and move :: "'s \<Rightarrow> 's \<Rightarrow> bool" where
  reach_start: "start s \<Longrightarrow> reach start move s"
| reach_move: "reach start move s \<Longrightarrow> move s t \<Longrightarrow> reach start move t"

text \<open>
  The interface of every protocol of the development: start states, steps and an invariant
  that each step keeps. What its clients use is \<open>reach_inv\<close> and, for a relation between an
  earlier and a later state, \<open>reach_from_rel\<close>.
\<close>

locale invariant_system =
  fixes start :: "'s \<Rightarrow> bool"
    and move :: "'s \<Rightarrow> 's \<Rightarrow> bool"
    and inv :: "'s \<Rightarrow> bool"
  assumes inv_start: "start s \<Longrightarrow> inv s"
    and inv_move: "inv s \<Longrightarrow> move s t \<Longrightarrow> inv t"
begin

lemma reach_inv: "reach start move s \<Longrightarrow> inv s"
  by (induction rule: reach.induct) (auto intro: inv_start inv_move)

lemma inv_run: "move\<^sup>*\<^sup>* s t \<Longrightarrow> inv s \<Longrightarrow> inv t"
  by (induction rule: rtranclp_induct) (auto intro: inv_move)

lemma run_rel:
  assumes "move\<^sup>*\<^sup>* s t" and "inv s"
    and refl: "\<And>u. R u u"
    and trans: "\<And>u v w. R u v \<Longrightarrow> R v w \<Longrightarrow> R u w"
    and one: "\<And>u v. inv u \<Longrightarrow> move u v \<Longrightarrow> R u v"
  shows "R s t"
  using assms(1)
proof (induction rule: rtranclp_induct)
  case base
  show ?case by (rule refl)
next
  case (step u v)
  from step.hyps(1) assms(2) have "inv u" by (rule inv_run)
  then have "R u v" using step.hyps(2) by (rule one)
  with step.IH show ?case by (rule trans)
qed

end

lemma reach_run: "reach start move s \<Longrightarrow> move\<^sup>*\<^sup>* s t \<Longrightarrow> reach start move t"
  by (rotate_tac, induction rule: rtranclp_induct) (auto intro: reach_move)

end
