(* ===== verification/Coordinator.thy ===== *)
theory Coordinator
  imports Prelude
begin

text \<open>
  The MapReduce coordinator: \<open>mr/types.go\<close>, \<open>mr/rpc.go\<close>, \<open>mr/coordinator.go\<close> and the
  start-up code of \<open>main/mrcoordinator.go\<close>.

  The Go enumerations are string types. Each is a datatype whose constructors are the declared
  constants and, where the zero value \<open>""\<close> or a string from the network can occur, a constructor
  for it. A handler is a function from the coordinator and the request to the coordinator and the
  reply; the mutex \<open>mu\<close> makes each handler that takes it one atomic step. \<open>time.Now()\<close> is an
  argument. Counters are \<open>int\<close>: none of them can come near \<open>2^63\<close> in a run.
\<close>

section \<open>Types (types.go, rpc.go)\<close>

datatype WorkerStatus = NoWorkerStatus | StateIdle | StateConnected | StatusError | StateRetrying

datatype TaskStatus = NoTaskStatus | Waiting | Pending | DONE | Invalid

text \<open>\<open>NoTask\<close> is the empty string, \<open>UnknownTask s\<close> any string but the empty one, \<open>"MAP"\<close> and \<open>"REDUCE"\<close>.\<close>

datatype TaskType = NoTask | MapTask | ReduceTask | UnknownTask string

datatype CoordinatorPhase = NoPhase | MapPhase | ReducePhase | FinishedPhase

record WorkerType =
  workerId :: string
  wstatus :: WorkerStatus
  Address :: string
  Port :: string
  LastSeen :: int
  HeartBeatChecks :: int

record Job =
  taskId :: string
  filePath :: string
  status :: TaskStatus
  worker :: WorkerType
  assignedAt :: int
  nReduce :: int
  partition :: int

record Coordinator =
  noOfReduceTasks :: int
  mapTasks :: "Job list"
  reduceTasks :: "Job list"
  phase :: CoordinatorPhase
  workers :: "WorkerType list"

record WorkerRegistrationArgs =
  regWorkerID :: string
  regRpcAddr :: string
  regPort :: string

record WorkerTaskRequestArgs =
  reqWorkerID :: string
  reqRpcAddr :: string
  reqPort :: string

record WorkerTaskRequestReply =
  rTaskId :: string
  rType :: TaskType
  rStatus :: TaskStatus
  rFilePath :: string
  rTaskAvailable :: bool
  rNReduce :: int
  rPhase :: CoordinatorPhase
  rPartition :: int

record WorkerTaskUpdateArgs =
  updWorkerID :: string
  updTaskId :: string
  updType :: TaskType
  updStatus :: TaskStatus

record WorkerTaskUpdateReply =
  uStatus :: TaskStatus
  uMessage :: string
  uPhase :: CoordinatorPhase

definition zeroWorker :: WorkerType where
  "zeroWorker = \<lparr>workerId = [], wstatus = NoWorkerStatus, Address = [], Port = [],
     LastSeen = 0, HeartBeatChecks = 0\<rparr>"

definition zeroJob :: Job where
  "zeroJob = \<lparr>taskId = [], filePath = [], status = NoTaskStatus, worker = zeroWorker,
     assignedAt = 0, nReduce = 0, partition = 0\<rparr>"

definition zeroRequestReply :: WorkerTaskRequestReply where
  "zeroRequestReply = \<lparr>rTaskId = [], rType = NoTask, rStatus = NoTaskStatus, rFilePath = [],
     rTaskAvailable = False, rNReduce = 0, rPhase = NoPhase, rPartition = 0\<rparr>"

definition zeroUpdateReply :: WorkerTaskUpdateReply where
  "zeroUpdateReply = \<lparr>uStatus = NoTaskStatus, uMessage = [], uPhase = NoPhase\<rparr>"

section \<open>Registration\<close>

definition newWorker :: "WorkerRegistrationArgs \<Rightarrow> int \<Rightarrow> WorkerType" where
  "newWorker args now = \<lparr>workerId = regWorkerID args, wstatus = StateConnected,
     Address = regRpcAddr args, Port = regPort args, LastSeen = now, HeartBeatChecks = 0\<rparr>"

text \<open>The handler returns the \<open>RegistrationStatus\<close> of its reply.\<close>

definition RegisterWorker :: "Coordinator \<Rightarrow> WorkerRegistrationArgs \<Rightarrow> int \<Rightarrow> Coordinator \<times> bool" where
  "RegisterWorker c args now = (c\<lparr>workers := workers c @ [newWorker args now]\<rparr>, True)"

text \<open>
  \<open>RegisterWorker\<close> does not take the mutex. Its assignment \<open>c.workers = append(c.workers, worker)\<close>
  is a read of the slice and a later write of it, and another call can come between them. When the
  array has room and is still that of \<open>c.workers\<close> (\<open>shared\<close>), the elements before the new one are those
  that the array has by then; otherwise \<open>append\<close> has copied the ones it read.
\<close>

definition register_read :: "Coordinator \<Rightarrow> WorkerType list" where
  "register_read c = workers c"

definition register_write ::
  "bool \<Rightarrow> Coordinator \<Rightarrow> WorkerType list \<Rightarrow> WorkerRegistrationArgs \<Rightarrow> int \<Rightarrow> Coordinator" where
  "register_write shared c ws args now =
     c\<lparr>workers := (if shared then take (length ws) (workers c) else ws) @ [newWorker args now]\<rparr>"

section \<open>Phase transitions and task updates\<close>

definition task_name :: "nat \<Rightarrow> string" where
  "task_name i = ''task-'' @ itoa i"

definition newReduceTask :: "nat \<Rightarrow> Job" where
  "newReduceTask i = zeroJob\<lparr>taskId := task_name i, status := Waiting, partition := int i\<rparr>"

definition hasPendingTask :: "Job list \<Rightarrow> bool" where
  "hasPendingTask jobs \<longleftrightarrow> list_ex (\<lambda>task. status task = Pending \<or> status task = Waiting) jobs"

definition doneCount :: "Job list \<Rightarrow> nat" where
  "doneCount jobs = length (filter (\<lambda>task. status task = DONE) jobs)"

definition TaskTransitionManager :: "TaskType \<Rightarrow> Coordinator \<Rightarrow> Coordinator" where
  "TaskTransitionManager t c = (case t of
     MapTask \<Rightarrow>
       if \<not> hasPendingTask (mapTasks c)
       then c\<lparr>reduceTasks := reduceTasks c @ map newReduceTask [0..<nat (noOfReduceTasks c)],
              phase := ReducePhase\<rparr>
       else c
   | ReduceTask \<Rightarrow>
       if doneCount (reduceTasks c) = length (reduceTasks c)
       then c\<lparr>phase := FinishedPhase\<rparr>
       else c
   | _ \<Rightarrow> c)"

text \<open>
  The jobs slice \<open>jobs\<close> of the handler shares its elements with the coordinator's field, so
  \<open>job.status = DONE\<close> is seen by \<open>TaskTransitionManager\<close>.
\<close>

definition jobs_of :: "TaskType \<Rightarrow> Coordinator \<Rightarrow> Job list" where
  "jobs_of t c = (case t of MapTask \<Rightarrow> mapTasks c | ReduceTask \<Rightarrow> reduceTasks c | _ \<Rightarrow> [])"

definition set_jobs :: "TaskType \<Rightarrow> Job list \<Rightarrow> Coordinator \<Rightarrow> Coordinator" where
  "set_jobs t js c = (case t of
     MapTask \<Rightarrow> c\<lparr>mapTasks := js\<rparr> | ReduceTask \<Rightarrow> c\<lparr>reduceTasks := js\<rparr> | _ \<Rightarrow> c)"

definition TaskUpdateByWorker ::
  "Coordinator \<Rightarrow> WorkerTaskUpdateArgs \<Rightarrow> WorkerTaskUpdateReply \<Rightarrow> Coordinator \<times> WorkerTaskUpdateReply" where
  "TaskUpdateByWorker c args reply0 = (let reply = reply0\<lparr>uStatus := Invalid\<rparr> in
     if updTaskId args = [] then (c, reply\<lparr>uMessage := ''Task ID is required''\<rparr>)
     else if updWorkerID args = [] then (c, reply\<lparr>uMessage := ''Worker ID is required''\<rparr>)
     else if updType args = NoTask
       then (c, reply\<lparr>uMessage := ''Provide task type ( MAP | REDUCE )''\<rparr>)
     else if updType args \<noteq> MapTask \<and> updType args \<noteq> ReduceTask
       then (c, reply\<lparr>uMessage := ''Task type must be either MAP or REDUCE''\<rparr>)
     else (let jobs = jobs_of (updType args) c in
       case find_index (\<lambda>job. taskId job = updTaskId args) jobs of
         None \<Rightarrow> (c, reply\<lparr>uMessage := ''Task not found''\<rparr>)
       | Some i \<Rightarrow>
           if workerId (worker (jobs ! i)) \<noteq> updWorkerID args
           then (c, reply\<lparr>uMessage := ''Task not assigned to worker '' @ updWorkerID args,
                          uStatus := Invalid\<rparr>)
           else if status (jobs ! i) = DONE
           then (c, reply\<lparr>uMessage := ''Task already completed'', uStatus := DONE\<rparr>)
           else (TaskTransitionManager (updType args)
                   (set_jobs (updType args) (jobs[i := (jobs ! i)\<lparr>status := DONE\<rparr>]) c),
                 reply\<lparr>uStatus := DONE, uMessage := ''Task update received successfully'',
                        uPhase := phase c\<rparr>)))"

section \<open>Task assignment\<close>

definition assignMapTask ::
  "Coordinator \<Rightarrow> WorkerType \<Rightarrow> WorkerTaskRequestReply \<Rightarrow> Coordinator \<times> WorkerTaskRequestReply" where
  "assignMapTask c w reply =
     (case find_index (\<lambda>task. status task = Waiting) (mapTasks c) of
        None \<Rightarrow> (c, reply)
      | Some i \<Rightarrow> (let task = (mapTasks c ! i)\<lparr>status := Pending, worker := w\<rparr> in
          (c\<lparr>mapTasks := (mapTasks c)[i := task]\<rparr>,
           reply\<lparr>rTaskAvailable := True, rTaskId := taskId task, rFilePath := filePath task,
                  rStatus := status task, rNReduce := nReduce task, rType := MapTask,
                  rPhase := phase c\<rparr>)))"

definition assignReduceTask ::
  "Coordinator \<Rightarrow> WorkerType \<Rightarrow> WorkerTaskRequestReply \<Rightarrow> Coordinator \<times> WorkerTaskRequestReply" where
  "assignReduceTask c w reply =
     (case find_index (\<lambda>task. status task = Waiting) (reduceTasks c) of
        None \<Rightarrow> (c, reply\<lparr>rPhase := phase c, rTaskAvailable := False\<rparr>)
      | Some i \<Rightarrow> (let task = (reduceTasks c ! i)\<lparr>status := Pending, worker := w\<rparr> in
          (c\<lparr>reduceTasks := (reduceTasks c)[i := task]\<rparr>,
           reply\<lparr>rTaskAvailable := True, rTaskId := taskId task, rStatus := status task,
                  rType := ReduceTask, rPhase := phase c, rPartition := partition task\<rparr>)))"

definition TaskRequestByWorker ::
  "Coordinator \<Rightarrow> WorkerTaskRequestArgs \<Rightarrow> WorkerTaskRequestReply \<Rightarrow> Coordinator \<times> WorkerTaskRequestReply" where
  "TaskRequestByWorker c args reply0 = (let reply = reply0\<lparr>rTaskAvailable := False\<rparr> in
     case find_index (\<lambda>w. workerId w = reqWorkerID args) (workers c) of
       None \<Rightarrow> (c, reply)
     | Some i \<Rightarrow> (case phase c of
           MapPhase \<Rightarrow> assignMapTask c (workers c ! i) reply
         | ReducePhase \<Rightarrow> assignReduceTask c (workers c ! i) reply
         | FinishedPhase \<Rightarrow> (c, reply\<lparr>rTaskAvailable := False, rPhase := phase c\<rparr>)
         | NoPhase \<Rightarrow> (c, reply)))"

section \<open>Health checks\<close>

definition Done :: "Coordinator \<Rightarrow> CoordinatorPhase" where
  "Done c = phase c"

definition ActiveWorkers :: "Coordinator \<Rightarrow> nat" where
  "ActiveWorkers c = length (filter (\<lambda>w. wstatus w = StateConnected) (workers c))"

text \<open>
  One tick of the health check: \<open>None\<close> when it returns, otherwise the arguments of the
  \<open>WorkerSync\<close> calls it starts (worker id, port, index).
\<close>

definition Healthcheck :: "Coordinator \<Rightarrow> (string \<times> string \<times> nat) list option" where
  "Healthcheck c = (if Done c = FinishedPhase then None
     else Some (map (\<lambda>(idx, w). (workerId w, Port w, idx)) (enumerate 0 (workers c))))"

text \<open>
  \<open>fmt.Sprintf("localhost:%d", port)\<close> with \<open>port\<close> a string: the verb does not fit the argument,
  and \<open>fmt\<close> renders it as \<open>%!d(string=...)\<close>.
\<close>

definition workerAddress :: "string \<Rightarrow> string" where
  "workerAddress port = ''localhost:'' @ ''%!d(string='' @ port @ '')''"

text \<open>
  \<open>dial\<close> stands for \<open>rpc.Dial("tcp", _)\<close> (whether it connects) and \<open>ping\<close> for the remote call
  (whether it returns without an error). \<open>None\<close> is the index panic.
\<close>

definition WorkerSync ::
  "(string \<Rightarrow> bool) \<Rightarrow> (string \<Rightarrow> bool) \<Rightarrow> Coordinator \<Rightarrow> string \<Rightarrow> string \<Rightarrow> nat \<Rightarrow> int \<Rightarrow> Coordinator option" where
  "WorkerSync dial ping c wid port idx now =
     (if idx \<ge> length (workers c) then None
      else let w = workers c ! idx; put = (\<lambda>w'. Some (c\<lparr>workers := (workers c)[idx := w']\<rparr>)) in
        if \<not> dial (workerAddress port) then put (w\<lparr>wstatus := StateRetrying\<rparr>)
        else if \<not> ping wid then
          (if HeartBeatChecks w = 3 then put (w\<lparr>wstatus := StatusError\<rparr>)
           else put (w\<lparr>HeartBeatChecks := HeartBeatChecks w + 1, LastSeen := now,
                       wstatus := StateRetrying\<rparr>))
        else put (w\<lparr>HeartBeatChecks := HeartBeatChecks w + 1, LastSeen := now,
                    wstatus := StateConnected\<rparr>))"

section \<open>Creation and the main program\<close>

definition newMapTask :: "int \<Rightarrow> nat \<times> string \<Rightarrow> Job" where
  "newMapTask n = (\<lambda>(idx, file). zeroJob\<lparr>taskId := task_name idx, status := Waiting,
     filePath := file, nReduce := n\<rparr>)"

definition MakeCoordinator :: "string list \<Rightarrow> int \<Rightarrow> Coordinator" where
  "MakeCoordinator files n = \<lparr>noOfReduceTasks = n,
     mapTasks = map (newMapTask n) (enumerate 0 files),
     reduceTasks = [], phase = MapPhase, workers = []\<rparr>"

text \<open>
  The loop of \<open>main\<close> in \<open>mrcoordinator.go\<close>. \<open>cs t\<close> is the coordinator as the loop finds it in
  its iteration \<open>t\<close>; the loop prints \<open>ActiveWorkers\<close>, sleeps and tests its own variable.
\<close>

partial_function (option) main_loop ::
  "(nat \<Rightarrow> Coordinator) \<Rightarrow> CoordinatorPhase \<Rightarrow> nat \<Rightarrow> nat list \<Rightarrow> nat list option" where
  "main_loop cs currentPhase t printed =
     (if currentPhase \<noteq> FinishedPhase
      then main_loop cs currentPhase (Suc t) (printed @ [ActiveWorkers (cs t)])
      else Some printed)"

text \<open>
  \<open>main\<close>: \<open>Inl\<close> is an exit with status 1 and the message printed before it; \<open>mkdirAll\<close> tells whether
  \<open>os.MkdirAll\<close> succeeds on a path, and \<open>evolve\<close> gives the coordinator at each iteration.
\<close>

definition coordinator_main ::
  "(string \<Rightarrow> bool) \<Rightarrow> (Coordinator \<Rightarrow> nat \<Rightarrow> Coordinator) \<Rightarrow> string list \<Rightarrow> (string + nat list) option" where
  "coordinator_main mkdirAll evolve args =
     (if length args < 2 then Some (Inl ''Usage: coordinator input-files...'')
      else if \<not> mkdirAll ''mr-data/intermediate'' then Some (Inl ''Error creating intermediate directory'')
      else if \<not> mkdirAll ''mr-data/output'' then Some (Inl ''Error creating output directory'')
      else let m = MakeCoordinator (tl args) 2 in
        map_option Inr (main_loop (evolve m) (Done m) 0 []))"

section \<open>The coordinator as a transition system\<close>

datatype coord_event =
    Register WorkerRegistrationArgs int
  | Request WorkerTaskRequestArgs
  | Update WorkerTaskUpdateArgs
  | Sync "string \<Rightarrow> bool" "string \<Rightarrow> bool" string string nat int

fun coord_exec :: "Coordinator \<Rightarrow> coord_event \<Rightarrow> Coordinator option" where
  "coord_exec c (Register args now) = Some (fst (RegisterWorker c args now))"
| "coord_exec c (Request args) = Some (fst (TaskRequestByWorker c args zeroRequestReply))"
| "coord_exec c (Update args) = Some (fst (TaskUpdateByWorker c args zeroUpdateReply))"
| "coord_exec c (Sync dial ping wid port idx now) = WorkerSync dial ping c wid port idx now"

inductive coord_step :: "Coordinator \<Rightarrow> Coordinator \<Rightarrow> bool" where
  coord_step_exec: "coord_exec c e = Some c' \<Longrightarrow> coord_step c c'"

definition coord_start :: "string list \<Rightarrow> int \<Rightarrow> Coordinator \<Rightarrow> bool" where
  "coord_start files n c \<longleftrightarrow> c = MakeCoordinator files n"

end
