(* ===== verification/CoordinatorInv.thy ===== *)
theory CoordinatorInv
  imports Coordinator
begin

text \<open>
  The invariant of the coordinator and the lemmas that every handler keeps it. The invariant ties
  the phase to the task tables: which tables are filled, and which tasks may still be open.
\<close>

section \<open>The invariant\<close>

definition job_ok :: "Job \<Rightarrow> bool" where
  "job_ok j \<longleftrightarrow> status j \<in> {Waiting, Pending, DONE} \<and> (status j = Waiting \<longrightarrow> workerId (worker j) = [])"

definition table_ok :: "Job list \<Rightarrow> bool" where
  "table_ok js \<longleftrightarrow> map taskId js = map task_name [0..<length js] \<and> list_all job_ok js"

definition all_done :: "Job list \<Rightarrow> bool" where
  "all_done js \<longleftrightarrow> list_all (\<lambda>j. status j = DONE) js"

definition phase_ok :: "string list \<Rightarrow> int \<Rightarrow> Coordinator \<Rightarrow> bool" where
  "phase_ok files n c = (case phase c of
     NoPhase \<Rightarrow> False
   | MapPhase \<Rightarrow> reduceTasks c = [] \<and> (files \<noteq> [] \<longrightarrow> \<not> all_done (mapTasks c))
   | ReducePhase \<Rightarrow> files \<noteq> [] \<and> all_done (mapTasks c) \<and> length (reduceTasks c) = nat n
       \<and> (0 < n \<longrightarrow> \<not> all_done (reduceTasks c))
   | FinishedPhase \<Rightarrow> files \<noteq> [] \<and> all_done (mapTasks c) \<and> length (reduceTasks c) = nat n
       \<and> 0 < n \<and> all_done (reduceTasks c))"

definition coord_inv :: "string list \<Rightarrow> int \<Rightarrow> Coordinator \<Rightarrow> bool" where
  "coord_inv files n c \<longleftrightarrow>
     noOfReduceTasks c = n
     \<and> map filePath (mapTasks c) = files
     \<and> list_all (\<lambda>j. nReduce j = n) (mapTasks c)
     \<and> table_ok (mapTasks c)
     \<and> table_ok (reduceTasks c)
     \<and> map partition (reduceTasks c) = map int [0..<length (reduceTasks c)]
     \<and> phase_ok files n c"

lemma coord_invD:
  assumes "coord_inv files n c"
  shows "noOfReduceTasks c = n" and "map filePath (mapTasks c) = files"
    and "list_all (\<lambda>j. nReduce j = n) (mapTasks c)"
    and "table_ok (mapTasks c)" and "table_ok (reduceTasks c)"
    and "map partition (reduceTasks c) = map int [0..<length (reduceTasks c)]"
    and "phase_ok files n c"
  using assms by (simp_all add: coord_inv_def)

section \<open>Task tables\<close>

lemma task_name_inject [simp]: "task_name i = task_name j \<longleftrightarrow> i = j"
  by (simp add: task_name_def)

lemma task_name_not_Nil [simp]: "task_name i \<noteq> []"
  by (simp add: task_name_def)

lemma table_ok_Nil [simp]: "table_ok []"
  by (simp add: table_ok_def)

lemma table_ok_length_distinct: "table_ok js \<Longrightarrow> distinct (map taskId js)"
  by (auto simp: table_ok_def distinct_map inj_on_def)

lemma table_ok_nth: "table_ok js \<Longrightarrow> i < length js \<Longrightarrow> taskId (js ! i) = task_name i \<and> job_ok (js ! i)"
  unfolding table_ok_def list_all_length by (metis add.left_neutral length_map nth_map nth_upt)

lemma table_ok_find_task:
  assumes "table_ok js"
  shows "find_index (\<lambda>job. taskId job = x) js = Some i \<longleftrightarrow> i < length js \<and> x = task_name i"
  using assms by (auto simp: find_index_Some_iff table_ok_nth)

lemma table_ok_update:
  assumes "table_ok js" and "i < length js" and "taskId j = taskId (js ! i)" and "job_ok j"
  shows "table_ok (js[i := j])"
  using assms by (simp add: table_ok_def list_all_update map_update_same)

lemma all_done_Nil [simp]: "all_done []"
  by (simp add: all_done_def)

lemma all_done_iff_not_pending: "table_ok js \<Longrightarrow> hasPendingTask js \<longleftrightarrow> \<not> all_done js"
proof -
  assume "table_ok js"
  then have "\<forall>j\<in>set js. (status j = Pending \<or> status j = Waiting) = (status j \<noteq> DONE)"
    by (auto simp: table_ok_def list_all_iff job_ok_def)
  then show ?thesis
    by (auto simp: hasPendingTask_def all_done_def list_ex_iff list_all_iff)
qed

lemma all_done_iff_doneCount: "doneCount js = length js \<longleftrightarrow> all_done js"
proof (induction js)
  case (Cons j js)
  then show ?case
    by (auto simp: doneCount_def all_done_def) (metis Suc_n_not_le_n length_filter_le)+
qed (simp add: doneCount_def)

lemma all_done_update_not:
  "i < length js \<Longrightarrow> status j \<noteq> DONE \<Longrightarrow> \<not> all_done (js[i := j])"
  by (auto simp: all_done_def list_all_length intro!: exI [of _ i])

lemma all_done_nth: "all_done js \<Longrightarrow> i < length js \<Longrightarrow> status (js ! i) = DONE"
  by (simp add: all_done_def list_all_length)

section \<open>Every handler keeps the invariant\<close>

lemma phase_ok_workers [simp]: "phase_ok files n (c\<lparr>workers := ws\<rparr>) = phase_ok files n c"
  by (simp add: phase_ok_def split: CoordinatorPhase.splits)

lemma RegisterWorker_inv: "coord_inv files n c \<Longrightarrow> coord_inv files n (fst (RegisterWorker c args now))"
  by (simp add: RegisterWorker_def coord_inv_def)

lemma WorkerSync_tables:
  assumes "WorkerSync dial ping c wid port idx now = Some c'"
  shows "\<exists>ws. c' = c\<lparr>workers := ws\<rparr> \<and> length ws = length (workers c) \<and> map workerId ws = map workerId (workers c)"
  using assms by (auto simp: WorkerSync_def Let_def map_update_same split: if_splits)

lemma WorkerSync_inv:
  "coord_inv files n c \<Longrightarrow> WorkerSync dial ping c wid port idx now = Some c' \<Longrightarrow> coord_inv files n c'"
  by (drule WorkerSync_tables) (auto simp: coord_inv_def)

text \<open>Handing out a map task, in the map phase, and a reduce task, in the reduce phase.\<close>

lemma assign_job_ok: "job_ok (j\<lparr>status := Pending, worker := w\<rparr>)"
  by (simp add: job_ok_def)

lemma assignMapTask_inv:
  assumes inv: "coord_inv files n c" and ph: "phase c = MapPhase"
  shows "coord_inv files n (fst (assignMapTask c w reply))"
proof (cases "find_index (\<lambda>task. status task = Waiting) (mapTasks c)")
  case None
  with inv show ?thesis by (simp add: assignMapTask_def)
next
  case (Some i)
  note i = find_index_SomeD [OF Some]
  let ?task = "(mapTasks c ! i)\<lparr>status := Pending, worker := w\<rparr>"
  have "table_ok ((mapTasks c)[i := ?task])"
    using coord_invD(4) [OF inv] i(1) by (simp add: table_ok_update assign_job_ok)
  moreover have "\<not> all_done ((mapTasks c)[i := ?task])"
    using i(1) by (simp add: all_done_update_not)
  moreover have "list_all (\<lambda>j. nReduce j = n) ((mapTasks c)[i := ?task])"
    using coord_invD(3) [OF inv] i(1) by (auto simp: list_all_length nth_list_update)
  ultimately show ?thesis
    using inv i(1) Some ph
    by (simp add: assignMapTask_def coord_inv_def phase_ok_def map_update_same Let_def)
qed

lemma assignReduceTask_inv:
  assumes inv: "coord_inv files n c" and ph: "phase c = ReducePhase"
  shows "coord_inv files n (fst (assignReduceTask c w reply))"
proof (cases "find_index (\<lambda>task. status task = Waiting) (reduceTasks c)")
  case None
  with inv show ?thesis by (simp add: assignReduceTask_def)
next
  case (Some i)
  note i = find_index_SomeD [OF Some]
  let ?task = "(reduceTasks c ! i)\<lparr>status := Pending, worker := w\<rparr>"
  have "table_ok ((reduceTasks c)[i := ?task])"
    using coord_invD(5) [OF inv] i(1) by (simp add: table_ok_update assign_job_ok)
  moreover have "\<not> all_done ((reduceTasks c)[i := ?task])"
    using i(1) by (simp add: all_done_update_not)
  ultimately show ?thesis
    using inv i(1) Some ph
    by (simp add: assignReduceTask_def coord_inv_def phase_ok_def map_update_same Let_def)
qed

lemma TaskRequestByWorker_inv:
  "coord_inv files n c \<Longrightarrow> coord_inv files n (fst (TaskRequestByWorker c args reply))"
  by (auto simp: TaskRequestByWorker_def Let_def intro: assignMapTask_inv assignReduceTask_inv
      split: option.splits CoordinatorPhase.splits)

text \<open>
  A task update. The accepted case is reached with a task that is \<open>Pending\<close>: a waiting task has
  the zero worker, whose id is empty, and an empty worker id has been refused before.
\<close>

lemma accepted_update_pending:
  assumes "table_ok js" and "i < length js" and "workerId (worker (js ! i)) = wid" and "wid \<noteq> []"
    and "status (js ! i) \<noteq> DONE"
  shows "status (js ! i) = Pending"
  using assms table_ok_nth [of js i] by (auto simp: job_ok_def)

lemma table_ok_done:
  "table_ok js \<Longrightarrow> i < length js \<Longrightarrow> table_ok (js[i := (js ! i)\<lparr>status := DONE\<rparr>])"
  by (rule table_ok_update) (simp_all add: job_ok_def)

lemma table_ok_newReduceTasks: "table_ok (map newReduceTask [0..<k])"
  by (simp add: table_ok_def newReduceTask_def zeroJob_def zeroWorker_def job_ok_def
      list_all_length)

lemma newReduceTasks_partition: "map partition (map newReduceTask [0..<k]) = map int [0..<k]"
  by (simp add: newReduceTask_def)

lemma newReduceTasks_not_done: "0 < k \<Longrightarrow> \<not> all_done (map newReduceTask [0..<k])"
  by (auto simp: all_done_def list_all_iff newReduceTask_def intro!: bexI [of _ 0])

lemma map_update_inv:
  assumes inv: "coord_inv files n c" and i: "i < length (mapTasks c)"
    and p: "status (mapTasks c ! i) = Pending"
  shows "coord_inv files n (TaskTransitionManager MapTask
           (c\<lparr>mapTasks := (mapTasks c)[i := (mapTasks c ! i)\<lparr>status := DONE\<rparr>]\<rparr>))"
    (is "coord_inv files n (TaskTransitionManager MapTask (c\<lparr>mapTasks := ?js\<rparr>))")
proof -
  have "\<not> all_done (mapTasks c)" using i p by (auto dest: all_done_nth)
  then have ph: "phase c = MapPhase" and red: "reduceTasks c = []"
    using coord_invD(7) [OF inv] by (auto simp: phase_ok_def split: CoordinatorPhase.splits)
  have ne: "files \<noteq> []" using coord_invD(2) [OF inv] i by auto
  have tab: "table_ok ?js" using coord_invD(4) [OF inv] i by (rule table_ok_done)
  have rest: "list_all (\<lambda>j. nReduce j = n) ?js" "map filePath ?js = files"
    using coord_invD(2,3) [OF inv] i by (auto simp: list_all_length nth_list_update map_update_same)
  show ?thesis
  proof (cases "all_done ?js")
    case True
    then show ?thesis
      using tab rest ne red ph coord_invD(1) [OF inv] newReduceTasks_not_done [of "nat n"]
      by (simp add: TaskTransitionManager_def all_done_iff_not_pending coord_inv_def phase_ok_def
          table_ok_newReduceTasks newReduceTasks_partition del: map_map)
  next
    case False
    then show ?thesis
      using tab rest ne red ph coord_invD(1) [OF inv]
      by (simp add: TaskTransitionManager_def all_done_iff_not_pending coord_inv_def phase_ok_def)
  qed
qed

lemma reduce_update_inv:
  assumes inv: "coord_inv files n c" and i: "i < length (reduceTasks c)"
    and p: "status (reduceTasks c ! i) = Pending"
  shows "coord_inv files n (TaskTransitionManager ReduceTask
           (c\<lparr>reduceTasks := (reduceTasks c)[i := (reduceTasks c ! i)\<lparr>status := DONE\<rparr>]\<rparr>))"
    (is "coord_inv files n (TaskTransitionManager ReduceTask (c\<lparr>reduceTasks := ?js\<rparr>))")
proof -
  have "\<not> all_done (reduceTasks c)" using i p by (auto dest: all_done_nth)
  then have ph: "phase c = ReducePhase"
    using coord_invD(7) [OF inv] i by (auto simp: phase_ok_def split: CoordinatorPhase.splits)
  have tab: "table_ok ?js" using coord_invD(5) [OF inv] i by (rule table_ok_done)
  have "map partition ?js = map partition (reduceTasks c)"
    by (simp add: map_update_same)
  moreover have "doneCount ?js = length (reduceTasks c) \<longleftrightarrow> all_done ?js"
    using all_done_iff_doneCount [of ?js] by simp
  ultimately show ?thesis
    using inv tab ph i
    by (cases "all_done ?js") (simp_all add: TaskTransitionManager_def coord_inv_def phase_ok_def)
qed

lemma TaskUpdateByWorker_fst:
  "fst (TaskUpdateByWorker c args reply) =
     (if updTaskId args = [] \<or> updWorkerID args = [] \<or> updType args \<notin> {MapTask, ReduceTask} then c
      else case find_index (\<lambda>job. taskId job = updTaskId args) (jobs_of (updType args) c) of
        None \<Rightarrow> c
      | Some i \<Rightarrow>
          let job = jobs_of (updType args) c ! i in
          if workerId (worker job) \<noteq> updWorkerID args \<or> status job = DONE then c
          else TaskTransitionManager (updType args)
                 (set_jobs (updType args) ((jobs_of (updType args) c)[i := job\<lparr>status := DONE\<rparr>]) c))"
  by (simp add: TaskUpdateByWorker_def Let_def split: option.split)

lemma TaskUpdateByWorker_cases:
  obtains (refused) "fst (TaskUpdateByWorker c args reply) = c"
  | (accepted) i where "updType args \<in> {MapTask, ReduceTask}"
      "find_index (\<lambda>job. taskId job = updTaskId args) (jobs_of (updType args) c) = Some i"
      "workerId (worker (jobs_of (updType args) c ! i)) = updWorkerID args" "updWorkerID args \<noteq> []"
      "status (jobs_of (updType args) c ! i) \<noteq> DONE"
      "fst (TaskUpdateByWorker c args reply) = TaskTransitionManager (updType args)
         (set_jobs (updType args)
            ((jobs_of (updType args) c)[i := (jobs_of (updType args) c ! i)\<lparr>status := DONE\<rparr>]) c)"
proof (cases "fst (TaskUpdateByWorker c args reply) = c")
  case True
  then show ?thesis by (rule refused)
next
  case False
  then obtain i where "find_index (\<lambda>job. taskId job = updTaskId args) (jobs_of (updType args) c) = Some i"
    by (auto simp: TaskUpdateByWorker_fst split: if_splits option.splits)
  with False accepted [of i] show ?thesis
    by (simp add: TaskUpdateByWorker_fst Let_def split: if_splits)
qed

lemma TaskUpdateByWorker_inv:
  assumes inv: "coord_inv files n c"
  shows "coord_inv files n (fst (TaskUpdateByWorker c args reply))"
proof (cases rule: TaskUpdateByWorker_cases [of c args reply])
  case refused
  with inv show ?thesis by simp
next
  case (accepted i)
  note i = find_index_SomeD(1) [OF accepted(2)]
  from accepted(1) consider "updType args = MapTask" | "updType args = ReduceTask" by auto
  then show ?thesis
  proof cases
    case 1
    with accepted i have "status (mapTasks c ! i) = Pending"
      by (intro accepted_update_pending [OF coord_invD(4) [OF inv]]) (auto simp: jobs_of_def)
    with 1 accepted i show ?thesis
      by (simp add: jobs_of_def set_jobs_def map_update_inv [OF inv])
  next
    case 2
    with accepted i have "status (reduceTasks c ! i) = Pending"
      by (intro accepted_update_pending [OF coord_invD(5) [OF inv]]) (auto simp: jobs_of_def)
    with 2 accepted i show ?thesis
      by (simp add: jobs_of_def set_jobs_def reduce_update_inv [OF inv])
  qed
qed

lemma newMapTasks_nth:
  assumes "i < length files"
  shows "map (newMapTask n) (enumerate 0 files) ! i
       = zeroJob\<lparr>taskId := task_name i, status := Waiting, filePath := files ! i, nReduce := n\<rparr>"
  using assms by (simp add: nth_enumerate_eq newMapTask_def)

lemma newMapTasks_table: "table_ok (map (newMapTask n) (enumerate 0 files))"
proof -
  have "map taskId (map (newMapTask n) (enumerate 0 files)) = map task_name [0..<length files]"
    by (rule nth_equalityI) (simp_all add: nth_enumerate_eq newMapTask_def)
  moreover have "list_all job_ok (map (newMapTask n) (enumerate 0 files))"
    unfolding list_all_length
    by (simp add: newMapTasks_nth job_ok_def zeroJob_def zeroWorker_def del: nth_map)
  ultimately show ?thesis by (simp add: table_ok_def)
qed

lemma newMapTasks_files: "map filePath (map (newMapTask n) (enumerate 0 files)) = files"
  by (rule nth_equalityI) (simp_all add: nth_enumerate_eq newMapTask_def)

lemma newMapTasks_nReduce: "list_all (\<lambda>j. nReduce j = n) (map (newMapTask n) (enumerate 0 files))"
  unfolding list_all_length by (simp add: newMapTasks_nth del: nth_map)

lemma newMapTasks_open: "files \<noteq> [] \<Longrightarrow> \<not> all_done (map (newMapTask n) (enumerate 0 files))"
  by (cases files) (simp_all add: all_done_def newMapTask_def)

lemma MakeCoordinator_inv: "coord_inv files n (MakeCoordinator files n)"
  by (simp add: coord_inv_def MakeCoordinator_def phase_ok_def newMapTasks_table newMapTasks_files
      newMapTasks_nReduce newMapTasks_open del: map_map)

lemma coord_exec_inv: "coord_inv files n c \<Longrightarrow> coord_exec c e = Some c' \<Longrightarrow> coord_inv files n c'"
  by (cases e) (auto simp: RegisterWorker_inv TaskRequestByWorker_inv TaskUpdateByWorker_inv WorkerSync_inv)

inductive_cases coord_stepE: "coord_step c c'"

interpretation coord: invariant_system "coord_start files n" coord_step "coord_inv files n"
  by unfold_locales (auto simp: coord_start_def MakeCoordinator_inv elim!: coord_stepE intro: coord_exec_inv)

end
