(* ===== verification/CoordinatorProps.thy ===== *)
theory CoordinatorProps
  imports CoordinatorInv
begin

text \<open>
  What the coordinator promises its workers: the phase barrier, exclusive assignment and stable
  ownership of tasks, and the reply of every branch of the two task handlers.
\<close>

section \<open>Monotone progress of a task\<close>

definition rank :: "TaskStatus \<Rightarrow> nat" where
  "rank s = (case s of Waiting \<Rightarrow> 0 | Pending \<Rightarrow> 1 | DONE \<Rightarrow> 2 | _ \<Rightarrow> 3)"

text \<open>A task table after some steps: the same tasks, further along, with the same owners.\<close>

definition job_le :: "Job \<Rightarrow> Job \<Rightarrow> bool" where
  "job_le j j' \<longleftrightarrow> taskId j' = taskId j \<and> filePath j' = filePath j \<and> partition j' = partition j
     \<and> rank (status j) \<le> rank (status j')
     \<and> (status j \<noteq> Waiting \<longrightarrow> worker j' = worker j)"

definition table_le :: "Job list \<Rightarrow> Job list \<Rightarrow> bool" where
  "table_le js js' \<longleftrightarrow> list_all2 job_le js js'"

definition coord_le :: "Coordinator \<Rightarrow> Coordinator \<Rightarrow> bool" where
  "coord_le c c' \<longleftrightarrow> table_le (mapTasks c) (mapTasks c')
     \<and> (table_le (reduceTasks c) (reduceTasks c') \<or> reduceTasks c = [])"

lemma job_le_refl [simp]: "job_le j j"
  by (simp add: job_le_def)

lemma rank_Waiting_iff: "rank s = 0 \<longleftrightarrow> s = Waiting"
  by (cases s) (simp_all add: rank_def)

lemma job_le_trans: "job_le i j \<Longrightarrow> job_le j k \<Longrightarrow> job_le i k"
  unfolding job_le_def by (metis le_0_eq order_trans rank_Waiting_iff)

lemma table_le_refl [simp]: "table_le js js"
  by (simp add: table_le_def list.rel_refl)

lemma table_le_trans: "table_le xs ys \<Longrightarrow> table_le ys zs \<Longrightarrow> table_le xs zs"
  unfolding table_le_def by (rule list_all2_trans [OF job_le_trans])

lemma table_le_update: "job_le (js ! i) j \<Longrightarrow> table_le js (js[i := j])"
  by (auto simp: table_le_def list_all2_conv_all_nth nth_list_update split: if_splits)
     (metis job_le_refl nth_list_update_eq nth_list_update_neq)

lemma table_le_nth:
  "table_le js js' \<Longrightarrow> i < length js \<Longrightarrow> i < length js' \<and> job_le (js ! i) (js' ! i)"
  by (simp add: table_le_def list_all2_conv_all_nth)

lemma table_le_Nil [simp]: "table_le [] js \<longleftrightarrow> js = []"
  by (simp add: table_le_def)

lemma table_le_Nil2 [simp]: "table_le js [] \<longleftrightarrow> js = []"
  by (simp add: table_le_def)

lemma coord_le_refl [simp]: "coord_le c c"
  by (simp add: coord_le_def)

lemma coord_le_trans: "coord_le a b \<Longrightarrow> coord_le b c \<Longrightarrow> coord_le a c"
  by (auto simp: coord_le_def intro: table_le_trans)

lemma job_le_assign: "status j = Waiting \<Longrightarrow> job_le j (j\<lparr>status := Pending, worker := w\<rparr>)"
  by (simp add: job_le_def rank_def)

lemma job_le_done: "job_ok j \<Longrightarrow> job_le j (j\<lparr>status := DONE\<rparr>)"
  by (auto simp: job_le_def rank_def job_ok_def)

lemma TaskTransitionManager_tables:
  "mapTasks (TaskTransitionManager t c) = mapTasks c"
  "\<exists>js. reduceTasks (TaskTransitionManager t c) = reduceTasks c @ js \<and> (t \<noteq> MapTask \<longrightarrow> js = [])"
  by (auto simp: TaskTransitionManager_def split: TaskType.splits)

lemma request_le: "coord_le c (fst (TaskRequestByWorker c args reply))"
  by (auto simp: TaskRequestByWorker_def assignMapTask_def assignReduceTask_def Let_def coord_le_def
      split: option.splits CoordinatorPhase.splits
      intro!: table_le_update job_le_assign dest: find_index_SomeD)

lemma register_le: "coord_le c (fst (RegisterWorker c args now))"
  by (simp add: RegisterWorker_def coord_le_def)

lemma update_le:
  assumes inv: "coord_inv files n c"
  shows "coord_le c (fst (TaskUpdateByWorker c args reply))"
proof (cases rule: TaskUpdateByWorker_cases [of c args reply])
  case refused
  then show ?thesis by simp
next
  case (accepted i)
  note i = find_index_SomeD(1) [OF accepted(2)]
  from accepted(1) consider "updType args = MapTask" | "updType args = ReduceTask" by auto
  then show ?thesis
  proof cases
    case 1
    with i have "job_le (mapTasks c ! i) ((mapTasks c ! i)\<lparr>status := DONE\<rparr>)" and "mapTasks c \<noteq> []"
      using table_ok_nth [OF coord_invD(4) [OF inv]] by (auto simp: jobs_of_def intro: job_le_done)
    moreover have "status (mapTasks c ! i) \<noteq> DONE"
      using accepted 1 by (simp add: jobs_of_def)
    then have "reduceTasks c = []"
      using i 1 coord_invD(7) [OF inv] all_done_nth [of "mapTasks c" i]
      by (auto simp: jobs_of_def phase_ok_def split: CoordinatorPhase.splits)
    ultimately show ?thesis
      using accepted 1
      by (simp add: coord_le_def jobs_of_def set_jobs_def TaskTransitionManager_tables table_le_update)
  next
    case 2
    with i have "job_le (reduceTasks c ! i) ((reduceTasks c ! i)\<lparr>status := DONE\<rparr>)"
      using table_ok_nth [OF coord_invD(5) [OF inv]] by (auto simp: jobs_of_def intro: job_le_done)
    with accepted 2 show ?thesis
      using TaskTransitionManager_tables(2) [of ReduceTask
          "c\<lparr>reduceTasks := (reduceTasks c)[i := (reduceTasks c ! i)\<lparr>status := DONE\<rparr>]\<rparr>"]
      by (simp add: coord_le_def jobs_of_def set_jobs_def TaskTransitionManager_tables table_le_update)
  qed
qed

lemma coord_step_le: "coord_inv files n c \<Longrightarrow> coord_step c c' \<Longrightarrow> coord_le c c'"
proof (erule coord_stepE)
  fix e assume "coord_inv files n c" and "coord_exec c e = Some c'"
  then show ?thesis
  proof (cases e)
    case (Sync dial ping wid port idx now)
    with \<open>coord_exec c e = Some c'\<close> obtain ws where "c' = c\<lparr>workers := ws\<rparr>"
      by (auto dest: WorkerSync_tables)
    then show ?thesis by (simp add: coord_le_def)
  qed (auto simp: request_le update_le register_le)
qed

lemma coord_run_le: "coord_inv files n c \<Longrightarrow> coord_step\<^sup>*\<^sup>* c c' \<Longrightarrow> coord_le c c'"
  by (rule coord.run_rel [of c c' files n coord_le]) (auto intro: coord_le_trans coord_step_le)

section \<open>Handing out tasks\<close>

text \<open>The task table a request is served from.\<close>

definition served_type :: "CoordinatorPhase \<Rightarrow> TaskType" where
  "served_type p = (case p of MapPhase \<Rightarrow> MapTask | ReducePhase \<Rightarrow> ReduceTask | _ \<Rightarrow> NoTask)"

lemma TaskRequestByWorker_served:
  assumes "TaskRequestByWorker c args zeroRequestReply = (c', r)"
  shows "rTaskAvailable r \<longleftrightarrow> (\<exists>w\<in>set (workers c). workerId w = reqWorkerID args)
       \<and> (\<exists>j\<in>set (jobs_of (served_type (phase c)) c). status j = Waiting)"
  using assms unfolding Bex_set_find_index
  by (cases "phase c")
     (auto simp: TaskRequestByWorker_def assignMapTask_def assignReduceTask_def Let_def
       served_type_def jobs_of_def zeroRequestReply_def split: option.splits)

lemma TaskRequestByWorker_available:
  assumes "TaskRequestByWorker c args zeroRequestReply = (c', r)" and "rTaskAvailable r"
  obtains i w where "rType r = served_type (phase c)" and "rType r \<in> {MapTask, ReduceTask}"
    and "rPhase r = phase c"
    and "i < length (jobs_of (rType r) c)" and "status (jobs_of (rType r) c ! i) = Waiting"
    and "rTaskId r = taskId (jobs_of (rType r) c ! i)"
    and "rType r = MapTask \<Longrightarrow> rFilePath r = filePath (mapTasks c ! i) \<and> rNReduce r = nReduce (mapTasks c ! i)"
    and "rType r = ReduceTask \<Longrightarrow> rPartition r = partition (reduceTasks c ! i)"
    and "w \<in> set (workers c)" and "workerId w = reqWorkerID args"
    and "c' = set_jobs (rType r) ((jobs_of (rType r) c)
               [i := (jobs_of (rType r) c ! i)\<lparr>status := Pending, worker := w\<rparr>]) c"
proof -
  from assms obtain k where k: "find_index (\<lambda>w. workerId w = reqWorkerID args) (workers c) = Some k"
    by (auto simp: TaskRequestByWorker_def zeroRequestReply_def Let_def split: option.splits)
  note w = find_index_SomeD [OF k]
  consider "phase c = MapPhase" | "phase c = ReducePhase"
    using assms k by (cases "phase c") (auto simp: TaskRequestByWorker_def zeroRequestReply_def Let_def)
  then show thesis
  proof cases
    case 1
    with assms k obtain i where i: "find_index (\<lambda>t. status t = Waiting) (mapTasks c) = Some i"
      by (auto simp: TaskRequestByWorker_def zeroRequestReply_def assignMapTask_def Let_def split: option.splits)
    show thesis
      by (rule that [of i "workers c ! k"])
         (use assms(1) k 1 i w find_index_SomeD [OF i] in
           \<open>auto simp: TaskRequestByWorker_def assignMapTask_def served_type_def jobs_of_def set_jobs_def Let_def\<close>)
  next
    case 2
    with assms k obtain i where i: "find_index (\<lambda>t. status t = Waiting) (reduceTasks c) = Some i"
      by (auto simp: TaskRequestByWorker_def zeroRequestReply_def assignReduceTask_def Let_def split: option.splits)
    show thesis
      by (rule that [of i "workers c ! k"])
         (use assms(1) k 2 i w find_index_SomeD [OF i] in
           \<open>auto simp: TaskRequestByWorker_def assignReduceTask_def served_type_def jobs_of_def set_jobs_def Let_def\<close>)
  qed
qed

text \<open>The tasks handed out in a run, in order: each reply with \<open>TaskAvailable\<close> set.\<close>

fun handed_out :: "Coordinator \<Rightarrow> coord_event list \<Rightarrow> (TaskType \<times> string) list" where
  "handed_out c [] = []"
| "handed_out c (Request args # es) =
     (let (c', r) = TaskRequestByWorker c args zeroRequestReply in
      (if rTaskAvailable r then [(rType r, rTaskId r)] else []) @ handed_out c' es)"
| "handed_out c (e # es) = (case coord_exec c e of None \<Rightarrow> [] | Some c' \<Rightarrow> handed_out c' es)"

definition owned :: "Coordinator \<Rightarrow> (TaskType \<times> string) set" where
  "owned c = {(t, taskId j) | t j. t \<in> {MapTask, ReduceTask} \<and> j \<in> set (jobs_of t c) \<and> status j \<noteq> Waiting}"

lemma table_le_owned:
  assumes "table_le js js'" and "j \<in> set js" and "status j \<noteq> Waiting"
  shows "\<exists>j'\<in>set js'. taskId j' = taskId j \<and> status j' \<noteq> Waiting"
proof -
  from assms(2) obtain i where i: "i < length js" "j = js ! i" by (auto simp: in_set_conv_nth)
  from table_le_nth [OF assms(1) i(1)] i assms(3) show ?thesis
    by (auto simp: job_le_def rank_Waiting_iff [symmetric] intro!: bexI [of _ "js' ! i"])
qed

lemma owned_mono: "coord_le c c' \<Longrightarrow> owned c \<subseteq> owned c'"
  unfolding owned_def coord_le_def jobs_of_def
  by (auto dest!: table_le_owned; metis)

lemma request_owned:
  assumes inv: "coord_inv files n c"
    and req: "TaskRequestByWorker c args zeroRequestReply = (c', r)" and av: "rTaskAvailable r"
  shows "(rType r, rTaskId r) \<notin> owned c \<and> (rType r, rTaskId r) \<in> owned c'"
proof (rule TaskRequestByWorker_available [OF req av])
  fix i w
  assume t: "rType r \<in> {MapTask, ReduceTask}" and i: "i < length (jobs_of (rType r) c)"
    and wait: "status (jobs_of (rType r) c ! i) = Waiting"
    and tid: "rTaskId r = taskId (jobs_of (rType r) c ! i)"
    and c': "c' = set_jobs (rType r) ((jobs_of (rType r) c)
               [i := (jobs_of (rType r) c ! i)\<lparr>status := Pending, worker := w\<rparr>]) c"
  have dist: "distinct (map taskId (jobs_of (rType r) c))"
    using t table_ok_length_distinct coord_invD(4,5) [OF inv] by (auto simp: jobs_of_def)
  have "status j = Waiting" if "j \<in> set (jobs_of (rType r) c)" "taskId j = rTaskId r" for j
    using that wait tid i distinct_map_nth_eq [OF dist] by (metis in_set_conv_nth)
  then have "(rType r, rTaskId r) \<notin> owned c" by (auto simp: owned_def)
  moreover have "jobs_of (rType r) c' ! i = (jobs_of (rType r) c ! i)\<lparr>status := Pending, worker := w\<rparr>"
    and "i < length (jobs_of (rType r) c')"
    using t i c' by (auto simp: jobs_of_def set_jobs_def)
  then have "(rType r, rTaskId r) \<in> owned c'"
    using t tid nth_mem [of i "jobs_of (rType r) c'"]
    unfolding owned_def by (auto intro!: exI [of _ "jobs_of (rType r) c' ! i"])
  ultimately show ?thesis by simp
qed

lemma handed_out_fresh:
  "coord_inv files n c \<Longrightarrow> distinct (handed_out c es) \<and> set (handed_out c es) \<inter> owned c = {}"
proof (induction es arbitrary: c)
  case Nil
  then show ?case by simp
next
  case (Cons e es)
  have later: "distinct (handed_out c' es) \<and> set (handed_out c' es) \<inter> owned c' = {} \<and> owned c \<subseteq> owned c'"
    if "coord_exec c e = Some c'" for c'
    using that Cons coord_exec_inv owned_mono coord_step_le coord_step_exec by metis
  show ?case
  proof (cases e)
    case (Request args)
    obtain c' r where req: "TaskRequestByWorker c args zeroRequestReply = (c', r)" by fastforce
    then have "coord_exec c e = Some c'" by (simp add: Request)
    from later [OF this] show ?thesis
      using Request req request_owned [OF Cons.prems req] by auto
  qed (use later in \<open>auto split: option.splits\<close>)
qed

section \<open>Properties\<close>

text \<open>A run over a list of events, to reach concrete states.\<close>

fun coord_run :: "Coordinator \<Rightarrow> coord_event list \<Rightarrow> Coordinator option" where
  "coord_run c [] = Some c"
| "coord_run c (e # es) = Option.bind (coord_exec c e) (\<lambda>c'. coord_run c' es)"

lemma coord_run_reach_from:
  "coord_run c es = Some c' \<Longrightarrow> reach start coord_step c \<Longrightarrow> reach start coord_step c'"
  by (induction es arbitrary: c)
     (auto split: bind_splits, metis reach_move coord_step_exec)

lemma coord_run_reach: "coord_run (MakeCoordinator files n) es = Some c \<Longrightarrow> reach (coord_start files n) coord_step c"
  by (rule coord_run_reach_from) (auto intro: reach_start simp: coord_start_def)

abbreviation reg :: "string \<Rightarrow> coord_event" where
  "reg w \<equiv> Register \<lparr>regWorkerID = w, regRpcAddr = [], regPort = []\<rparr> 0"

abbreviation ask :: "string \<Rightarrow> coord_event" where
  "ask w \<equiv> Request \<lparr>reqWorkerID = w, reqRpcAddr = [], reqPort = []\<rparr>"

abbreviation tell :: "string \<Rightarrow> TaskType \<Rightarrow> string \<Rightarrow> coord_event" where
  "tell w t tid \<equiv> Update \<lparr>updWorkerID = w, updTaskId = tid, updType = t, updStatus = DONE\<rparr>"

lemmas run_simps = MakeCoordinator_def newMapTask_def task_name_def newReduceTask_def zeroJob_def
  zeroWorker_def RegisterWorker_def newWorker_def TaskRequestByWorker_def TaskUpdateByWorker_def
  TaskTransitionManager_def assignMapTask_def assignReduceTask_def hasPendingTask_def doneCount_def
  jobs_of_def set_jobs_def zeroRequestReply_def zeroUpdateReply_def itoa.simps digit_char_def
  char_of_def bit_0 Let_def

lemma example_finished:
  "\<exists>c. coord_run (MakeCoordinator [''f''] 1)
     [reg ''w'', ask ''w'', tell ''w'' MapTask ''task-0'', ask ''w'', tell ''w'' ReduceTask ''task-0''] = Some c
     \<and> phase c = FinishedPhase"
  by (simp add: run_simps)

text \<open>
  (C3) The phase barrier. In every reachable state: no reduce task exists before the reduce
  phase; from then on every map task is done and there is exactly one reduce task per partition
  \<open>0..n-1\<close>, in order; in the finished phase every reduce task is done too. The map tasks are the
  input files throughout.
\<close>

theorem phase_barrier:
  assumes "reach (coord_start files n) coord_step c"
  shows "map filePath (mapTasks c) = files
    \<and> (case phase c of
         MapPhase \<Rightarrow> reduceTasks c = []
       | ReducePhase \<Rightarrow> (\<forall>j\<in>set (mapTasks c). status j = DONE)
           \<and> map partition (reduceTasks c) = map int [0..<nat n]
       | FinishedPhase \<Rightarrow> (\<forall>j\<in>set (mapTasks c). status j = DONE)
           \<and> map partition (reduceTasks c) = map int [0..<nat n]
           \<and> (\<forall>j\<in>set (reduceTasks c). status j = DONE)
       | NoPhase \<Rightarrow> False)"
  using coord.reach_inv [OF assms]
  by (auto simp: coord_inv_def phase_ok_def all_done_def list_all_iff split: CoordinatorPhase.splits)

theorem phase_barrier_witness:
  "\<exists>c. reach (coord_start [''f''] 1) coord_step c \<and> phase c = FinishedPhase
     \<and> (\<forall>j\<in>set (mapTasks c). status j = DONE) \<and> map partition (reduceTasks c) = map int [0..<nat 1]
     \<and> (\<forall>j\<in>set (reduceTasks c). status j = DONE)"
proof -
  obtain c where c: "coord_run (MakeCoordinator [''f''] 1)
      [reg ''w'', ask ''w'', tell ''w'' MapTask ''task-0'', ask ''w'', tell ''w'' ReduceTask ''task-0''] = Some c"
    and ph: "phase c = FinishedPhase"
    using example_finished by blast
  from phase_barrier [OF coord_run_reach [OF c]] ph coord_run_reach [OF c] show ?thesis by auto
qed

text \<open>
  (C4) Exclusive assignment. In every run of the coordinator, whatever requests, reports,
  registrations and health checks come in and in whatever order, no task is handed out twice.
\<close>

theorem exclusive_assignment: "distinct (handed_out (MakeCoordinator files n) es)"
  using handed_out_fresh [OF MakeCoordinator_inv] by blast

text \<open>
  (C10) Stable ownership. A task that has been handed out keeps its owner, its input and its
  partition in every later state, and its status never goes back.
\<close>

theorem ownership_stable:
  assumes "reach (coord_start files n) coord_step c" and "coord_step\<^sup>*\<^sup>* c c'"
    and "t \<in> {MapTask, ReduceTask}" and "i < length (jobs_of t c)"
    and "status (jobs_of t c ! i) \<noteq> Waiting"
  shows "i < length (jobs_of t c') \<and> worker (jobs_of t c' ! i) = worker (jobs_of t c ! i)
    \<and> filePath (jobs_of t c' ! i) = filePath (jobs_of t c ! i)
    \<and> partition (jobs_of t c' ! i) = partition (jobs_of t c ! i)
    \<and> (status (jobs_of t c' ! i) = status (jobs_of t c ! i) \<or> status (jobs_of t c' ! i) = DONE)"
proof -
  have inv: "coord_inv files n c" using assms(1) by (rule coord.reach_inv)
  have inv': "coord_inv files n c'" using coord.inv_run [OF assms(2) inv] .
  have "table_le (jobs_of t c) (jobs_of t c')"
    using coord_run_le [OF inv assms(2)] assms(3,4) by (auto simp: coord_le_def jobs_of_def)
  note le = table_le_nth [OF this assms(4)]
  have "job_ok (jobs_of t c ! i)" and "job_ok (jobs_of t c' ! i)"
    using assms(3,4) le inv inv' table_ok_nth by (auto simp: jobs_of_def coord_inv_def)
  then have "status (jobs_of t c' ! i) = status (jobs_of t c ! i) \<or> status (jobs_of t c' ! i) = DONE"
    using le assms(5) by (auto simp: job_le_def job_ok_def rank_def)
  with le assms(5) show ?thesis by (simp add: job_le_def)
qed

lemma example_owned:
  "\<exists>c. coord_run (MakeCoordinator [''f''] 1) [reg ''w'', ask ''w''] = Some c
     \<and> length (mapTasks c) = 1 \<and> status (mapTasks c ! 0) = Pending \<and> workerId (worker (mapTasks c ! 0)) = ''w''"
  by (simp add: run_simps)

theorem ownership_stable_witness:
  "\<exists>c. reach (coord_start [''f''] 1) coord_step c \<and> status (mapTasks c ! 0) = Pending
     \<and> (\<forall>c'. coord_step\<^sup>*\<^sup>* c c' \<longrightarrow> workerId (worker (mapTasks c' ! 0)) = ''w'')"
proof -
  obtain c where c: "coord_run (MakeCoordinator [''f''] 1) [reg ''w'', ask ''w''] = Some c"
    "length (mapTasks c) = 1" "status (mapTasks c ! 0) = Pending" "workerId (worker (mapTasks c ! 0)) = ''w''"
    using example_owned by blast
  note r = coord_run_reach [OF c(1)]
  have "workerId (worker (mapTasks c' ! 0)) = ''w''" if "coord_step\<^sup>*\<^sup>* c c'" for c'
    using ownership_stable [OF r that, of MapTask 0] c by (simp add: jobs_of_def)
  with r c show ?thesis by blast
qed

text \<open>
  (C11) A report is accepted exactly when the named task of the named type exists, is pending and
  belongs to the reporting worker, whose id is not empty. In every other case the coordinator is
  unchanged.
\<close>

theorem update_accepted_iff:
  assumes "reach (coord_start files n) coord_step c"
    and "TaskUpdateByWorker c args zeroUpdateReply = (c', r)"
  shows "(uMessage r = ''Task update received successfully'' \<longleftrightarrow>
      updType args \<in> {MapTask, ReduceTask} \<and> updWorkerID args \<noteq> [] \<and>
      (\<exists>j\<in>set (jobs_of (updType args) c). taskId j = updTaskId args \<and> status j = Pending
         \<and> workerId (worker j) = updWorkerID args))
    \<and> (uMessage r \<noteq> ''Task update received successfully'' \<longrightarrow> c' = c)"
proof -
  have inv: "coord_inv files n c" using assms(1) by (rule coord.reach_inv)
  let ?js = "jobs_of (updType args) c"
  have tab: "table_ok ?js"
    using coord_invD(4,5) [OF inv] by (simp add: jobs_of_def split: TaskType.splits)
  have found: "(\<exists>j\<in>set ?js. taskId j = updTaskId args \<and> P j) \<longleftrightarrow>
      (\<exists>i. find_index (\<lambda>job. taskId job = updTaskId args) ?js = Some i \<and> P (?js ! i))" for P
    using table_ok_nth [OF tab] by (fastforce simp: table_ok_find_task [OF tab] in_set_conv_nth)
  have pend: "status (?js ! i) = Pending"
    if "find_index (\<lambda>job. taskId job = updTaskId args) ?js = Some i"
      "workerId (worker (?js ! i)) = updWorkerID args" "updWorkerID args \<noteq> []" "status (?js ! i) \<noteq> DONE" for i
    using that accepted_update_pending [OF tab] find_index_SomeD by blast
  have nonempty: "updTaskId args \<noteq> []"
    if "find_index (\<lambda>job. taskId job = updTaskId args) ?js = Some i" for i
    using that table_ok_find_task [OF tab] by auto
  show ?thesis
    unfolding found
    using assms(2) pend nonempty
    by (auto simp: TaskUpdateByWorker_def zeroUpdateReply_def Let_def split: if_splits option.splits)
qed

theorem update_accepted_iff_witness:
  "\<exists>c c' r. reach (coord_start [''f''] 1) coord_step c
     \<and> TaskUpdateByWorker c \<lparr>updWorkerID = ''w'', updTaskId = ''task-0'', updType = MapTask, updStatus = DONE\<rparr>
         zeroUpdateReply = (c', r)
     \<and> (uMessage r = ''Task update received successfully'' \<longleftrightarrow>
         (\<exists>j\<in>set (mapTasks c). taskId j = ''task-0'' \<and> status j = Pending \<and> workerId (worker j) = ''w''))"
proof -
  obtain c where c: "coord_run (MakeCoordinator [''f''] 1) [reg ''w'', ask ''w''] = Some c"
    using example_owned by blast
  obtain c' r where u: "TaskUpdateByWorker c \<lparr>updWorkerID = ''w'', updTaskId = ''task-0'',
      updType = MapTask, updStatus = DONE\<rparr> zeroUpdateReply = (c', r)" by fastforce
  from update_accepted_iff [OF coord_run_reach [OF c] u] coord_run_reach [OF c] u show ?thesis
    by (auto simp: jobs_of_def)
qed

text \<open>
  (C12) A request is served exactly when the worker is registered and the table of the current
  phase holds a waiting task; a request that is not served changes nothing.
\<close>

theorem request_served_iff:
  assumes "TaskRequestByWorker c args zeroRequestReply = (c', r)"
  shows "(rTaskAvailable r \<longleftrightarrow> (\<exists>w\<in>set (workers c). workerId w = reqWorkerID args)
       \<and> (\<exists>j\<in>set (case phase c of MapPhase \<Rightarrow> mapTasks c | ReducePhase \<Rightarrow> reduceTasks c | _ \<Rightarrow> []).
            status j = Waiting))
    \<and> (\<not> rTaskAvailable r \<longrightarrow> c' = c)"
proof -
  have "jobs_of (served_type (phase c)) c =
      (case phase c of MapPhase \<Rightarrow> mapTasks c | ReducePhase \<Rightarrow> reduceTasks c | _ \<Rightarrow> [])"
    by (simp add: jobs_of_def served_type_def split: CoordinatorPhase.splits)
  moreover have "\<not> rTaskAvailable r \<longrightarrow> c' = c"
    using assms
    by (auto simp: TaskRequestByWorker_def assignMapTask_def assignReduceTask_def Let_def
        split: option.splits CoordinatorPhase.splits)
  ultimately show ?thesis using TaskRequestByWorker_served [OF assms] by simp
qed

theorem request_served_iff_witness:
  "rTaskAvailable (snd (TaskRequestByWorker (MakeCoordinator [''f''] 1)
     \<lparr>reqWorkerID = ''w'', reqRpcAddr = [], reqPort = []\<rparr> zeroRequestReply)) = False"
  using request_served_iff [of "MakeCoordinator [''f''] 1" "\<lparr>reqWorkerID = ''w'', reqRpcAddr = [], reqPort = []\<rparr>"]
  by (simp add: MakeCoordinator_def prod_eq_iff)

end
