(* ===== verification/GoSort.thy ===== *)
theory GoSort
  imports Prelude
begin

text \<open>
  Go's \<open>sort.Sort\<close>: it leaves the slice a permutation of what it was, in which no element is less
  than an earlier one; it is not stable. The locale \<open>sorter\<close> is that contract, and the code that
  sorts takes the sorting function as an argument. \<open>insertionSort\<close> is the loop of Go's sort
  package for short slices (at most 12 elements), and it meets the contract.
\<close>

definition strict_weak :: "('a \<Rightarrow> 'a \<Rightarrow> bool) \<Rightarrow> bool" where
  "strict_weak lt \<longleftrightarrow> (\<forall>x. \<not> lt x x) \<and> (\<forall>x y z. lt x y \<longrightarrow> lt y z \<longrightarrow> lt x z)
     \<and> (\<forall>x y z. \<not> lt x y \<longrightarrow> \<not> lt y z \<longrightarrow> \<not> lt x z)"

definition ordered_by :: "('a \<Rightarrow> 'a \<Rightarrow> bool) \<Rightarrow> 'a list \<Rightarrow> bool" where
  "ordered_by lt xs \<longleftrightarrow> sorted_wrt (\<lambda>x y. \<not> lt y x) xs"

locale sorter =
  fixes sort_slice :: "('a \<Rightarrow> 'a \<Rightarrow> bool) \<Rightarrow> 'a list \<Rightarrow> 'a list"
  assumes sort_mset: "mset (sort_slice lt xs) = mset xs"
    and sort_ordered: "strict_weak lt \<Longrightarrow> ordered_by lt (sort_slice lt xs)"
begin

lemma sort_set: "set (sort_slice lt xs) = set xs"
  by (metis sort_mset set_mset_mset)

lemma sort_length: "length (sort_slice lt xs) = length xs"
  by (metis sort_mset size_mset)

lemma sort_distinct: "distinct (sort_slice lt xs) \<longleftrightarrow> distinct xs"
  by (metis sort_mset mset_eq_imp_distinct_iff)

end

lemma ordered_less:
  assumes "ordered_by lt xs" and "strict_weak lt" and "lt (xs ! i) (xs ! j)" and "i < length xs" and "j < length xs"
  shows "i < j"
proof (rule ccontr)
  assume "\<not> i < j"
  with assms(2,3) have "j < i" unfolding strict_weak_def by (metis linorder_neqE_nat)
  with assms(1,3,4) show False unfolding ordered_by_def using sorted_wrt_nth_less by blast
qed

text \<open>
  The inner loop moves \<open>data[i]\<close> down while it is less than its left neighbour; the sorted prefix
  is kept reversed, so that its last element comes first.
\<close>

fun sift :: "('a \<Rightarrow> 'a \<Rightarrow> bool) \<Rightarrow> 'a \<Rightarrow> 'a list \<Rightarrow> 'a list" where
  "sift lt x [] = [x]"
| "sift lt x (y # ys) = (if lt x y then y # sift lt x ys else x # y # ys)"

definition insertionSort :: "('a \<Rightarrow> 'a \<Rightarrow> bool) \<Rightarrow> 'a list \<Rightarrow> 'a list" where
  "insertionSort lt xs = rev (fold (sift lt) xs [])"

lemma mset_sift [simp]: "mset (sift lt x ys) = add_mset x (mset ys)"
  by (induction ys) auto

lemma set_sift [simp]: "set (sift lt x ys) = insert x (set ys)"
  by (metis mset_sift set_mset_add_mset_insert set_mset_mset)

lemma strict_weak_asym: "strict_weak lt \<Longrightarrow> lt x y \<Longrightarrow> \<not> lt y x"
  unfolding strict_weak_def by blast

lemma sift_ordered:
  "strict_weak lt \<Longrightarrow> sorted_wrt (\<lambda>x y. \<not> lt x y) ys \<Longrightarrow> sorted_wrt (\<lambda>x y. \<not> lt x y) (sift lt x ys)"
proof (induction ys)
  case (Cons y ys)
  show ?case
  proof (cases "lt x y")
    case True
    with Cons show ?thesis by (auto dest: strict_weak_asym)
  next
    case False
    have "\<not> lt x z" if "z \<in> set ys" for z
    proof -
      from Cons.prems(2) that have "\<not> lt y z" by simp
      with False Cons.prems(1) show ?thesis unfolding strict_weak_def by blast
    qed
    with Cons.prems False show ?thesis by simp
  qed
qed simp

lemma mset_insertionSort: "mset (insertionSort lt xs) = mset xs"
proof -
  have "mset (fold (sift lt) xs acc) = mset xs + mset acc" for acc
    by (induction xs arbitrary: acc) simp_all
  then show ?thesis by (simp add: insertionSort_def)
qed

lemma ordered_insertionSort:
  assumes "strict_weak lt"
  shows "ordered_by lt (insertionSort lt xs)"
proof -
  have "sorted_wrt (\<lambda>x y. \<not> lt x y) acc \<Longrightarrow> sorted_wrt (\<lambda>x y. \<not> lt x y) (fold (sift lt) xs acc)" for acc
    by (induction xs arbitrary: acc) (simp_all add: sift_ordered assms)
  from this [of "[]"] show ?thesis
    by (simp add: insertionSort_def ordered_by_def sorted_wrt_rev)
qed

interpretation ins: sorter insertionSort
  by unfold_locales (simp_all add: mset_insertionSort ordered_insertionSort)

end
