(* ===== verification/Utf8.thy ===== *)
theory Utf8
  imports Prelude
begin

text \<open>
  The parts of Go's standard library that the MapReduce worker and its applications use on text:
  \<open>unicode/utf8\<close>, \<open>strings.FieldsFunc\<close>, \<open>strings.Join\<close>, and \<open>encoding/json\<close> on the struct
  \<open>KeyValue\<close>. A Go string is a list of bytes, here a \<open>string\<close>: its characters are 8-bit. The main
  fact is the round trip of the encoder and the decoder on strings that are valid UTF-8.
\<close>

section \<open>Runes\<close>

abbreviation byte :: "char \<Rightarrow> nat" where
  "byte c \<equiv> of_char c"

definition RuneError :: nat where
  "RuneError = 65533"

text \<open>The range of the second byte of a sequence, given the first one.\<close>

definition second_lo :: "nat \<Rightarrow> nat" where
  "second_lo b = (if b = 224 then 160 else if b = 240 then 144 else 128)"

definition second_hi :: "nat \<Rightarrow> nat" where
  "second_hi b = (if b = 237 then 159 else if b = 244 then 143 else 191)"

abbreviation cont :: "char \<Rightarrow> bool" where
  "cont c \<equiv> 128 \<le> byte c \<and> byte c \<le> 191"

fun DecodeRune :: "string \<Rightarrow> nat \<times> nat" where
  "DecodeRune [] = (RuneError, 0)"
| "DecodeRune (c0 # cs) = (let b0 = byte c0 in
     if b0 < 128 then (b0, 1)
     else if b0 < 194 \<or> 244 < b0 then (RuneError, 1)
     else case cs of [] \<Rightarrow> (RuneError, 1)
     | c1 # cs1 \<Rightarrow>
       if byte c1 < second_lo b0 \<or> second_hi b0 < byte c1 then (RuneError, 1)
       else if b0 < 224 then ((b0 - 192) * 64 + (byte c1 - 128), 2)
       else case cs1 of [] \<Rightarrow> (RuneError, 1)
       | c2 # cs2 \<Rightarrow>
         if \<not> cont c2 then (RuneError, 1)
         else if b0 < 240 then ((b0 - 224) * 4096 + (byte c1 - 128) * 64 + (byte c2 - 128), 3)
         else case cs2 of [] \<Rightarrow> (RuneError, 1)
         | c3 # cs3 \<Rightarrow>
           if \<not> cont c3 then (RuneError, 1)
           else ((b0 - 240) * 262144 + (byte c1 - 128) * 4096 + (byte c2 - 128) * 64 + (byte c3 - 128), 4))"

definition rune_bytes :: "nat \<Rightarrow> nat list" where
  "rune_bytes r = (if r < 128 then [r]
     else if r < 2048 then [192 + r div 64, 128 + r mod 64]
     else if r < 65536 \<and> \<not> (55296 \<le> r \<and> r < 57344)
       then [224 + r div 4096, 128 + r div 64 mod 64, 128 + r mod 64]
     else if 65536 \<le> r \<and> r < 1114112
       then [240 + r div 262144, 128 + r div 4096 mod 64, 128 + r div 64 mod 64, 128 + r mod 64]
     else [239, 191, 189])"

definition EncodeRune :: "nat \<Rightarrow> string" where
  "EncodeRune r = map char_of (rune_bytes r)"

text \<open>The first rune of the string is not an encoding error.\<close>

definition good_rune :: "string \<Rightarrow> bool" where
  "good_rune s \<longleftrightarrow> DecodeRune s \<noteq> (RuneError, 1) \<and> s \<noteq> []"

lemma DecodeRune_size: "s \<noteq> [] \<Longrightarrow> 1 \<le> snd (DecodeRune s) \<and> snd (DecodeRune s) \<le> length s"
  by (cases s) (auto simp: Let_def split: list.split)

lemma DecodeRune_drop: "s \<noteq> [] \<Longrightarrow> (r, n) = DecodeRune s \<Longrightarrow> length (drop n s) < length s"
  using DecodeRune_size [of s] by (cases "DecodeRune s") simp

function valid_utf8 :: "string \<Rightarrow> bool" where
  "valid_utf8 s = (if s = [] then True else good_rune s \<and> valid_utf8 (drop (snd (DecodeRune s)) s))"
  by auto

termination
  by (relation "measure length") (use DecodeRune_size in \<open>auto simp: Suc_le_eq\<close>)

declare valid_utf8.simps [simp del] DecodeRune.simps [simp del]

lemma good_rune_cases:
  assumes "good_rune s"
  obtains (one) c cs where "s = c # cs" and "byte c < 128" and "DecodeRune s = (byte c, 1)"
  | (two) c0 c1 cs where "s = c0 # c1 # cs" and "194 \<le> byte c0" and "byte c0 < 224" and "cont c1"
      and "DecodeRune s = ((byte c0 - 192) * 64 + (byte c1 - 128), 2)"
  | (three) c0 c1 c2 cs where "s = c0 # c1 # c2 # cs" and "224 \<le> byte c0" and "byte c0 < 240" and "cont c1" and "cont c2"
      and "second_lo (byte c0) \<le> byte c1" and "byte c1 \<le> second_hi (byte c0)"
      and "DecodeRune s = ((byte c0 - 224) * 4096 + (byte c1 - 128) * 64 + (byte c2 - 128), 3)"
  | (four) c0 c1 c2 c3 cs where "s = c0 # c1 # c2 # c3 # cs" and "240 \<le> byte c0" and "byte c0 \<le> 244" and "cont c1"
      and "cont c2" and "cont c3" and "second_lo (byte c0) \<le> byte c1" and "byte c1 \<le> second_hi (byte c0)"
      and "DecodeRune s = ((byte c0 - 240) * 262144 + (byte c1 - 128) * 4096 + (byte c2 - 128) * 64 + (byte c3 - 128), 4)"
proof -
  obtain c0 cs where s: "s = c0 # cs" using assms by (cases s) (auto simp: good_rune_def)
  have g: "DecodeRune (c0 # cs) \<noteq> (RuneError, 1)" using assms by (simp add: good_rune_def s)
  have lohi: "128 \<le> second_lo b" "second_hi b \<le> 191" for b by (simp_all add: second_lo_def second_hi_def)
  consider "byte c0 < 128" | c1 cs1 where "cs = c1 # cs1" "194 \<le> byte c0" "byte c0 < 224"
    | c1 c2 cs2 where "cs = c1 # c2 # cs2" "224 \<le> byte c0" "byte c0 < 240"
    | c1 c2 c3 cs3 where "cs = c1 # c2 # c3 # cs3" "240 \<le> byte c0" "byte c0 \<le> 244"
    using g by (auto simp: DecodeRune.simps Let_def not_less split: if_splits list.splits)
  then show thesis
  proof cases
    case 1
    then show ?thesis using one [of c0 cs] by (simp add: s DecodeRune.simps)
  next
    case (2 c1 cs1)
    then have "second_lo (byte c0) \<le> byte c1" "byte c1 \<le> second_hi (byte c0)"
      using g by (auto simp: DecodeRune.simps Let_def not_less split: if_splits)
    with 2 lohi [of "byte c0"] show ?thesis using two [of c0 c1 cs1] by (simp add: s DecodeRune.simps Let_def)
  next
    case (3 c1 c2 cs2)
    then have b: "second_lo (byte c0) \<le> byte c1" "byte c1 \<le> second_hi (byte c0)" "cont c2"
      using g by (auto simp: DecodeRune.simps Let_def not_less split: if_splits)
    moreover have "cont c1" using b lohi [of "byte c0"] by linarith
    ultimately show ?thesis using 3 three [of c0 c1 c2 cs2] by (simp add: s DecodeRune.simps Let_def)
  next
    case (4 c1 c2 c3 cs3)
    then have b: "second_lo (byte c0) \<le> byte c1" "byte c1 \<le> second_hi (byte c0)" "cont c2" "cont c3"
      using g by (auto simp: DecodeRune.simps Let_def not_less split: if_splits)
    moreover have "cont c1" using b lohi [of "byte c0"] by linarith
    ultimately show ?thesis using 4 four [of c0 c1 c2 c3 cs3] by (simp add: s DecodeRune.simps Let_def)
  qed
qed

text \<open>A good rune is decoded the same whatever follows it.\<close>

lemma DecodeRune_prefix:
  assumes "good_rune s"
  shows "DecodeRune (take (snd (DecodeRune s)) s @ t) = DecodeRune s"
  using assms by (cases rule: good_rune_cases) (auto simp: DecodeRune.simps Let_def)

section \<open>Splitting and joining\<close>

text \<open>\<open>strings.FieldsFunc\<close>: the maximal runs of runes that do not satisfy \<open>f\<close>; \<open>cur\<close> is the open run.\<close>

function fields_loop :: "(nat \<Rightarrow> bool) \<Rightarrow> string \<Rightarrow> string \<Rightarrow> string list" where
  "fields_loop f cur s = (if s = [] then (if cur = [] then [] else [cur])
     else let (r, n) = DecodeRune s in
       if f r then (if cur = [] then [] else [cur]) @ fields_loop f [] (drop n s)
       else fields_loop f (cur @ take n s) (drop n s))"
  by auto

termination
  by (relation "measure (\<lambda>(f, cur, s). length s)") (simp, simp_all only: in_measure prod.case, (erule DecodeRune_drop, assumption)+)

declare fields_loop.simps [simp del]

definition FieldsFunc :: "string \<Rightarrow> (nat \<Rightarrow> bool) \<Rightarrow> string list" where
  "FieldsFunc s f = fields_loop f [] s"

fun Join :: "string list \<Rightarrow> string \<Rightarrow> string" where
  "Join [] sep = []"
| "Join [x] sep = x"
| "Join (x # y # ys) sep = x @ sep @ Join (y # ys) sep"

text \<open>
  \<open>unicode.IsLetter\<close>: the ASCII letters, and beyond ASCII the letters of the Unicode tables, which
  are an argument.
\<close>

definition IsLetter :: "(nat \<Rightarrow> bool) \<Rightarrow> nat \<Rightarrow> bool" where
  "IsLetter tables r = (if r < 128 then 65 \<le> r \<and> r \<le> 90 \<or> 97 \<le> r \<and> r \<le> 122 else tables r)"

section \<open>JSON strings\<close>

definition hex :: "nat \<Rightarrow> char" where
  "hex d = char_of (if d < 10 then 48 + d else 87 + d)"

text \<open>The bytes below 128 that the encoder copies: \<open>htmlSafeSet\<close>.\<close>

definition html_safe :: "nat \<Rightarrow> bool" where
  "html_safe b \<longleftrightarrow> 32 \<le> b \<and> b \<noteq> 34 \<and> b \<noteq> 92 \<and> b \<noteq> 60 \<and> b \<noteq> 62 \<and> b \<noteq> 38"

definition escape_byte :: "nat \<Rightarrow> string" where
  "escape_byte b = (if html_safe b then [char_of b]
     else if b = 92 \<or> b = 34 then [CHR 92, char_of b]
     else if b = 10 then [CHR 92, CHR ''n'']
     else if b = 13 then [CHR 92, CHR ''r'']
     else if b = 9 then [CHR 92, CHR ''t'']
     else [CHR 92, CHR ''u'', CHR ''0'', CHR ''0'', hex (b div 16), hex (b mod 16)])"

function quote_body :: "string \<Rightarrow> string" where
  "quote_body s = (if s = [] then [] else let (r, n) = DecodeRune s in
     if byte (hd s) < 128 then escape_byte (byte (hd s)) @ quote_body (drop n s)
     else if r = RuneError \<and> n = 1 then [CHR 92] @ ''ufffd'' @ quote_body (drop n s)
     else if r = 8232 \<or> r = 8233 then [CHR 92] @ ''u202'' @ [hex (r mod 16)] @ quote_body (drop n s)
     else take n s @ quote_body (drop n s))"
  by auto

termination
  by (relation "measure length") (simp, simp_all only: in_measure, (erule DecodeRune_drop, assumption)+)

declare quote_body.simps [simp del]

definition quote :: "string \<Rightarrow> string" where
  "quote s = [CHR 34] @ quote_body s @ [CHR 34]"

text \<open>The value of a hexadecimal digit, in either case.\<close>

definition unhex :: "char \<Rightarrow> nat option" where
  "unhex c = (let b = byte c in
     if 48 \<le> b \<and> b \<le> 57 then Some (b - 48)
     else if 97 \<le> b \<and> b \<le> 102 then Some (b - 87)
     else if 65 \<le> b \<and> b \<le> 70 then Some (b - 55)
     else None)"

fun getu4 :: "string \<Rightarrow> nat option" where
  "getu4 (a # b # c # d # _) = (case (unhex a, unhex b, unhex c, unhex d) of
     (Some w, Some x, Some y, Some z) \<Rightarrow> Some (((w * 16 + x) * 16 + y) * 16 + z) | _ \<Rightarrow> None)"
| "getu4 _ = None"

definition surrogate :: "nat \<Rightarrow> bool" where
  "surrogate r \<longleftrightarrow> 55296 \<le> r \<and> r < 57344"

text \<open>\<open>utf16.DecodeRune\<close> of a pair, \<open>RuneError\<close> if it is none.\<close>

definition DecodePair :: "nat \<Rightarrow> nat \<Rightarrow> nat" where
  "DecodePair a b = (if 55296 \<le> a \<and> a < 56320 \<and> 56320 \<le> b \<and> b < 57344
     then (a - 55296) * 1024 + (b - 56320) + 65536 else RuneError)"

text \<open>
  Reading a string literal after its opening quote: the text and what follows the closing quote.
  Invalid bytes become the replacement character. A surrogate escape is combined with a following
  one.
\<close>

definition simple_escape :: "char \<Rightarrow> char option" where
  "simple_escape c = (if c = CHR 34 \<or> c = CHR 92 \<or> c = CHR ''/'' then Some c
     else if c = CHR ''b'' then Some (CHR 8) else if c = CHR ''f'' then Some (CHR 12)
     else if c = CHR ''n'' then Some (CHR 10) else if c = CHR ''r'' then Some (CHR 13)
     else if c = CHR ''t'' then Some (CHR 9) else None)"

function unquote :: "string \<Rightarrow> (string \<times> string) option" where
  "unquote s = (case s of [] \<Rightarrow> None
     | c # cs \<Rightarrow>
       if c = CHR 34 then Some ([], cs)
       else if byte c < 32 then None
       else if c = CHR 92 then
         (case cs of [] \<Rightarrow> None
          | e # es \<Rightarrow>
            if e = CHR ''u'' then
              (case getu4 es of None \<Rightarrow> None
               | Some r \<Rightarrow>
                 if surrogate r then
                   (let more = drop 4 es;
                        r2 = (if take 2 more = [CHR 92, CHR ''u''] then getu4 (drop 2 more) else None);
                        pair = (case r2 of None \<Rightarrow> RuneError | Some r' \<Rightarrow> DecodePair r r') in
                    if pair \<noteq> RuneError
                    then map_option (map_prod ((@) (EncodeRune pair)) id) (unquote (drop 10 es))
                    else map_option (map_prod ((@) (EncodeRune RuneError)) id) (unquote (drop 4 es)))
                 else map_option (map_prod ((@) (EncodeRune r)) id) (unquote (drop 4 es)))
            else (case simple_escape e of None \<Rightarrow> None
                  | Some x \<Rightarrow> map_option (map_prod ((#) x) id) (unquote es)))
       else if byte c < 128 then map_option (map_prod ((#) c) id) (unquote cs)
       else (let (r, n) = DecodeRune s in
             if r = RuneError \<and> n = 1 then map_option (map_prod ((@) (EncodeRune RuneError)) id) (unquote (drop n s))
             else map_option (map_prod ((@) (take n s)) id) (unquote (drop n s))))"
  by auto

termination
proof (relation "measure length", goal_cases)
  case (7 s c cs x r n)
  then show ?case by (simp only: in_measure) (rule DecodeRune_drop, simp_all)
next
  case (8 s c cs x r n)
  then show ?case by (simp only: in_measure) (rule DecodeRune_drop, simp_all)
qed auto

declare unquote.simps [simp del]

section \<open>The round trip of string literals\<close>

lemma byte_less [simp]: "byte c < 256"
  by (cases c) (simp add: of_char_def horner_sum_simps split: if_splits)

lemma unhex_hex [simp]: "d < 16 \<Longrightarrow> unhex (hex d) = Some d"
  by (auto simp: unhex_def hex_def Let_def)

lemma append_one: "(@) [x] = (#) x"
  by (rule ext) simp

lemma EncodeRune_ascii: "r < 128 \<Longrightarrow> EncodeRune r = [char_of r]"
  by (simp add: EncodeRune_def rune_bytes_def)

lemma unquote_escape_byte:
  assumes "b < 128"
  shows "unquote (escape_byte b @ t) = map_option (map_prod ((#) (char_of b)) id) (unquote t)"
proof -
  have u: "unquote ([CHR 92, CHR ''u'', CHR ''0'', CHR ''0'', hex (b div 16), hex (b mod 16)] @ t)
      = map_option (map_prod ((#) (char_of b)) id) (unquote t)"
  proof -
    have "b div 16 < 16" "b mod 16 < 16" using assms by auto
    moreover have "unhex (CHR ''0'') = Some 0" by (simp add: unhex_def Let_def)
    ultimately have "getu4 ([CHR ''0'', CHR ''0'', hex (b div 16), hex (b mod 16)] @ t) = Some b" by simp
    moreover have "\<not> surrogate b" using assms by (simp add: surrogate_def)
    ultimately show ?thesis using assms by (subst unquote.simps) (simp add: EncodeRune_ascii append_one)
  qed
  have safe: "unquote (char_of b # t) = map_option (map_prod ((#) (char_of b)) id) (unquote t)" if "html_safe b"
  proof -
    have bb: "byte (char_of b) = b" using assms by simp
    have "byte (CHR 34) = 34" "byte (CHR 92) = 92" "b \<noteq> 34" "b \<noteq> 92" using that by (simp_all add: html_safe_def)
    then have "char_of b \<noteq> CHR 34" "char_of b \<noteq> CHR 92" using bb by metis+
    then show ?thesis using that assms bb by (subst unquote.simps) (simp add: html_safe_def)
  qed
  have esc: "unquote ([CHR 92, e] @ t) = map_option (map_prod ((#) (char_of b)) id) (unquote t)"
    if "simple_escape e = Some (char_of b)" "e \<noteq> CHR ''u''" for e
    using that by (subst unquote.simps) simp
  have spec: "simple_escape (CHR 92) = Some (char_of (92::nat))" "simple_escape (CHR 34) = Some (char_of (34::nat))"
    "simple_escape (CHR ''n'') = Some (char_of (10::nat))" "simple_escape (CHR ''r'') = Some (char_of (13::nat))"
    "simple_escape (CHR ''t'') = Some (char_of (9::nat))" "char_of (92::nat) = CHR 92" "char_of (34::nat) = CHR 34"
    by (simp_all add: simple_escape_def char_of_def bit_Suc_0_iff)
  show ?thesis
    using u safe esc spec by (auto simp: escape_byte_def)
qed

text \<open>The line separators U+2028 and U+2029 have one encoding, which the encoder escapes.\<close>

lemma line_separator_arith:
  fixes x y z w :: nat
  assumes e: "4096 * x + 64 * y + z = 8232 + w" and b: "y < 64" "z < 64" "w < 2"
  shows "x = 2" and "y = 0" and "z = 40 + w"
proof -
  have "64 * y + z < 4096" using b by linarith
  then have "1 < x" "x < 3" using e b by linarith+
  then show x: "x = 2" by linarith
  show y: "y = 0" using e b x by linarith
  show "z = 40 + w" using e x y by linarith
qed

lemma DecodeRune_line_separator:
  assumes d: "DecodeRune s = (8232 + w, n)" and w: "w < 2"
  shows "n = 3" and "take n s = EncodeRune (8232 + w)"
proof -
  have g: "good_rune s" using d w by (cases s) (auto simp: good_rune_def RuneError_def DecodeRune.simps)
  have "n = 3 \<and> take n s = EncodeRune (8232 + w)"
    using g
  proof (cases rule: good_rune_cases)
    case (three c0 c1 c2 cs)
    have e: "4096 * (byte c0 - 224) + 64 * (byte c1 - 128) + (byte c2 - 128) = 8232 + w" "n = 3"
      using d three(8) by simp_all
    have "byte c1 - 128 < 64" "byte c2 - 128 < 64" using three(4,5) by linarith+
    from line_separator_arith [OF e(1) this w] three(2,4,5) have "byte c0 = 226" "byte c1 = 128" "byte c2 = 168 + w"
      by linarith+
    then have "c0 = char_of (226::nat)" "c1 = char_of (128::nat)" "c2 = char_of (168 + w)"
      by (metis char_of_char)+
    moreover have "EncodeRune (8232 + w) = [char_of (226::nat), char_of (128::nat), char_of (168 + w)]"
      using w by (cases w) (auto simp: EncodeRune_def rune_bytes_def less_Suc_eq numeral_2_eq_2)
    ultimately show ?thesis using three(1) e(2) by simp
  next
    case (four c0 c1 c2 c3 cs)
    have "(byte c0 - 240) * 262144 + (byte c1 - 128) * 4096 \<ge> 65536"
      using four(2,7) by (cases "byte c0 = 240") (auto simp: second_lo_def)
    then show ?thesis using d four(9) w by simp
  next
    case (two c0 c1 cs)
    have "(byte c0 - 192) * 64 + (byte c1 - 128) < 2048" using two(3,4) by linarith
    then show ?thesis using d two(5) w by simp
  qed (use d w in simp)
  then show "n = 3" "take n s = EncodeRune (8232 + w)" by blast+
qed

lemma unquote_multibyte:
  assumes "\<not> byte c < 128"
  shows "unquote (c # cs) = (let (r, n) = DecodeRune (c # cs) in
     if r = RuneError \<and> n = 1 then map_option (map_prod ((@) (EncodeRune RuneError)) id) (unquote (drop n (c # cs)))
     else map_option (map_prod ((@) (take n (c # cs))) id) (unquote (drop n (c # cs))))"
proof -
  have "c \<noteq> CHR 34" "c \<noteq> CHR 92" "\<not> byte c < 32" using assms by auto
  then show ?thesis using assms by (subst unquote.simps) simp
qed

lemma unquote_rune:
  assumes "good_rune s" and "\<not> byte (hd s) < 128"
  shows "unquote (take (snd (DecodeRune s)) s @ t) = map_option (map_prod ((@) (take (snd (DecodeRune s)) s)) id) (unquote t)"
proof -
  let ?n = "snd (DecodeRune s)"
  have ne: "s \<noteq> []" using assms(1) by (auto simp: good_rune_def)
  have n: "1 \<le> ?n" "?n \<le> length s" using DecodeRune_size [OF ne] by (auto simp: case_prod_beta)
  obtain c cs where s: "s = c # cs" using ne by (cases s) auto
  obtain m where m: "?n = Suc m" using n(1) by (cases ?n) auto
  have p: "DecodeRune (take ?n s @ t) = DecodeRune s" by (rule DecodeRune_prefix [OF assms(1)])
  have h: "take ?n s @ t = c # (take m cs @ t)" using m by (simp add: s)
  have d: "drop ?n (take ?n s @ t) = t" "take ?n (take ?n s @ t) = take ?n s" using n by simp_all
  have c: "\<not> byte c < 128" using assms(2) by (simp add: s)
  have g: "\<not> (fst (DecodeRune s) = RuneError \<and> ?n = 1)" using assms(1) by (auto simp: good_rune_def prod_eq_iff)
  show ?thesis
    unfolding h unquote_multibyte [OF c] unfolding h [symmetric] p
    using g by (simp only: d case_prod_beta Let_def if_False)
qed

lemma unquote_separator:
  assumes "w < 2"
  shows "unquote ([CHR 92] @ ''u202'' @ [hex ((8232 + w) mod 16)] @ t)
    = map_option (map_prod ((@) (EncodeRune (8232 + w))) id) (unquote t)"
proof -
  have "(8232 + w) mod 16 = 8 + w" using assms by (cases w) (auto simp: less_Suc_eq numeral_2_eq_2)
  moreover have "unhex (CHR ''2'') = Some 2" "unhex (CHR ''0'') = Some 0" by (simp_all add: unhex_def Let_def)
  ultimately have "getu4 (''202'' @ [hex ((8232 + w) mod 16)] @ t) = Some (8232 + w)" using assms by simp
  moreover have "\<not> surrogate (8232 + w)" using assms by (simp add: surrogate_def)
  ultimately show ?thesis by (subst unquote.simps) simp
qed

theorem unquote_quote_body:
  "valid_utf8 s \<Longrightarrow> unquote (quote_body s @ CHR 34 # rest) = Some (s, rest)"
proof (induction s rule: quote_body.induct)
  case step: (1 s)
  show ?case
  proof (cases "s = []")
    case True
    then show ?thesis by (simp add: quote_body.simps unquote.simps)
  next
    case ne: False
    obtain r n where d: "DecodeRune s = (r, n)" by (cases "DecodeRune s")
    have g: "good_rune s" and v: "valid_utf8 (drop n s)" using step(5) ne d by (simp_all add: valid_utf8.simps [of s])
    have bad: "\<not> (r = RuneError \<and> n = 1)" using g d by (auto simp: good_rune_def)
    note q = quote_body.simps [of s] and td = append_take_drop_id [of n s]
    consider (ascii) "byte (hd s) < 128" | (sep) "\<not> byte (hd s) < 128" "r = 8232 \<or> r = 8233"
      | (multi) "\<not> byte (hd s) < 128" "\<not> (r = 8232 \<or> r = 8233)" by blast
    then show ?thesis
    proof cases
      case ascii
      have "n = 1" using ascii d ne by (cases s) (auto simp: DecodeRune.simps)
      with ascii ne d step(1) [OF ne d [symmetric] refl ascii v] show ?thesis
        by (cases s) (simp_all add: quote_body.simps [of "_ # _"] unquote_escape_byte)
    next
      case sep
      obtain w where w: "r = 8232 + w" "w < 2" using sep(2) by (cases "r = 8232") auto
      have "take n s = EncodeRune r" using DecodeRune_line_separator(2) [of s w n] d w by simp
      moreover have "r \<noteq> RuneError" using sep(2) by (auto simp: RuneError_def)
      then have "quote_body s = [CHR 92] @ ''u202'' @ [hex ((8232 + w) mod 16)] @ quote_body (drop n s)"
        using sep ne d w(1) by (simp add: q)
      ultimately show ?thesis
        using step(3) [OF ne d [symmetric] refl sep(1) bad sep(2) v] w(1) td
          unquote_separator [OF w(2), of "quote_body (drop n s) @ CHR 34 # rest"] by simp
    next
      case multi
      then show ?thesis
        using step(4) [OF ne d [symmetric] refl multi(1) bad multi(2) v] bad ne d td
          unquote_rune [OF g multi(1), of "quote_body (drop n s) @ CHR 34 # rest"] by (auto simp: q)
    qed
  qed
qed

end
