(* ===== verification/KvCodec.thy ===== *)
theory KvCodec
  imports Utf8 "HOL-Library.Monad_Syntax"
begin

text \<open>
  The intermediate files of \<open>mr/worker.go\<close>: the type \<open>KeyValue\<close>, how \<open>json.Encoder\<close> writes one,
  and how a loop of \<open>decoder.Decode\<close> calls reads a file back. The decoder is Go's on the layout
  the encoder writes, with JSON white space allowed between any two tokens; on any other text it
  reports an error, which ends the loop of the worker.
\<close>

record KeyValue =
  Key :: string
  Value :: string

definition quote_char :: char where "quote_char = CHR 34"

definition Encode :: "KeyValue \<Rightarrow> string" where
  "Encode kv = ''{'' @ quote ''Key'' @ '':'' @ quote (Key kv) @ '','' @ quote ''Value'' @ '':'' @ quote (Value kv)
     @ ''}'' @ [CHR 10]"

definition white :: "char \<Rightarrow> bool" where
  "white c \<longleftrightarrow> c = CHR 32 \<or> c = CHR 9 \<or> c = CHR 10 \<or> c = CHR 13"

definition expect :: "char \<Rightarrow> string \<Rightarrow> string option" where
  "expect x s = (case dropWhile white s of [] \<Rightarrow> None | c # cs \<Rightarrow> if c = x then Some cs else None)"

definition json_string :: "string \<Rightarrow> (string \<times> string) option" where
  "json_string s = Option.bind (expect quote_char s) unquote"

definition Decode :: "string \<Rightarrow> (KeyValue \<times> string) option" where
  "Decode s = do {
     s \<leftarrow> expect (CHR ''{'') s;
     (k1, s) \<leftarrow> json_string s;
     s \<leftarrow> expect (CHR '':'') s;
     (v1, s) \<leftarrow> json_string s;
     s \<leftarrow> expect (CHR '','') s;
     (k2, s) \<leftarrow> json_string s;
     s \<leftarrow> expect (CHR '':'') s;
     (v2, s) \<leftarrow> json_string s;
     s \<leftarrow> expect (CHR ''}'') s;
     if k1 = ''Key'' \<and> k2 = ''Value'' then Some (\<lparr>Key = v1, Value = v2\<rparr>, s) else None }"

section \<open>Every value read shortens the input\<close>

lemma map_option_prod_Some: "map_option (map_prod f id) x = Some (y, r) \<longleftrightarrow> (\<exists>z. x = Some (z, r) \<and> y = f z)"
  by (cases x) (auto simp: map_prod_def)

lemma unquote_next:
  assumes "unquote s = Some (x, r)"
  shows "s \<noteq> [] \<and> (r = tl s \<or> (\<exists>k y. 0 < k \<and> unquote (drop k s) = Some (y, r)))"
proof -
  obtain c cs where s: "s = c # cs" using assms by (cases s) (auto simp: unquote.simps)
  have "r = cs \<or> (\<exists>k y. 0 < k \<and> unquote (drop k s) = Some (y, r))"
  proof (cases "byte c < 128")
    case True
    have "r = cs \<or> (\<exists>k y. unquote (drop k cs) = Some (y, r))"
    proof (cases "c = CHR 34 \<or> c \<noteq> CHR 92")
      case True
      with assms \<open>byte c < 128\<close> show ?thesis
        by (auto simp: s unquote.simps [of "_ # _"] map_option_prod_Some split: if_splits intro: exI [of _ 0])
    next
      case False
      then have "\<exists>es k y. cs = hd cs # es \<and> unquote (drop k es) = Some (y, r)"
        using assms by (auto simp: s unquote.simps [of "_ # _"] Let_def map_option_prod_Some
            split: if_splits option.splits list.splits intro: exI [of _ 0])
      then obtain es k y where "cs = hd cs # es" "unquote (drop k es) = Some (y, r)" by blast
      then have "unquote (drop (Suc k) cs) = Some (y, r)" by (metis drop_Suc_Cons)
      then show ?thesis by blast
    qed
    then show ?thesis by (metis s drop_Suc_Cons zero_less_Suc)
  next
    case False
    obtain a n where d: "DecodeRune s = (a, n)" by (cases "DecodeRune s")
    have "0 < n" using DecodeRune_size [of s] d by (auto simp: s)
    with assms False d show ?thesis
      by (auto simp: s unquote_multibyte map_option_prod_Some split: if_splits)
  qed
  then show ?thesis by (simp add: s)
qed

lemma unquote_shorter: "unquote s = Some (x, r) \<Longrightarrow> length r < length s"
proof (induction s arbitrary: x rule: length_induct)
  case (1 s)
  from unquote_next [OF "1.prems"] show ?case
  proof (elim conjE disjE exE)
    assume "s \<noteq> []" "r = tl s"
    then show ?thesis by simp
  next
    fix k y
    assume a: "s \<noteq> []" "0 < k" "unquote (drop k s) = Some (y, r)"
    then have "length (drop k s) < length s" by (cases s) auto
    with 1(1) a(3) have "length r < length (drop k s)" by blast
    then show ?thesis by simp
  qed
qed

lemma expect_shorter: "expect x s = Some r \<Longrightarrow> length r < length s"
  using length_dropWhile_le [of white s] by (auto simp: expect_def split: list.splits if_splits)

lemma json_string_shorter: "json_string s = Some (x, r) \<Longrightarrow> length r < length s"
  by (auto simp: json_string_def bind_eq_Some_conv dest!: expect_shorter unquote_shorter)

lemma Decode_shorter: "Decode s = Some (kv, r) \<Longrightarrow> length r < length s"
  by (auto simp: Decode_def bind_eq_Some_conv split: if_splits dest!: expect_shorter json_string_shorter)

text \<open>The reading loop of \<open>ReducerTask\<close>: it stops at the first error, the end of the file included.\<close>

function decode_loop :: "string \<Rightarrow> KeyValue list" where
  "decode_loop s = (case Decode s of None \<Rightarrow> [] | Some (kv, r) \<Rightarrow> kv # decode_loop r)"
  by auto

termination
  by (relation "measure length") (auto dest: Decode_shorter)

declare decode_loop.simps [simp del]

section \<open>The round trip\<close>

definition utf8_kv :: "KeyValue \<Rightarrow> bool" where
  "utf8_kv kv \<longleftrightarrow> valid_utf8 (Key kv) \<and> valid_utf8 (Value kv)"

lemma expect_here: "\<not> white x \<Longrightarrow> expect x (x # s) = Some s"
  by (simp add: expect_def)

lemma not_white [simp]: "\<not> white (CHR ''{'')" "\<not> white (CHR '':'')" "\<not> white (CHR '','')" "\<not> white (CHR ''}'')"
  "\<not> white quote_char"
  by (simp_all add: white_def quote_char_def)

lemma json_string_quote: "valid_utf8 s \<Longrightarrow> json_string (quote s @ t) = Some (s, t)"
  using unquote_quote_body [of s t] by (simp add: json_string_def quote_def quote_char_def expect_here white_def)

lemma expect_skip: "white c \<Longrightarrow> expect x (c # s) = expect x s"
  by (simp add: expect_def)

lemma Decode_skip: "white c \<Longrightarrow> Decode (c # s) = Decode s"
  by (simp add: Decode_def expect_skip)

lemma utf8_names: "valid_utf8 ''Key''" "valid_utf8 ''Value''"
  by (simp_all add: valid_utf8.simps good_rune_def DecodeRune.simps RuneError_def)

lemma Decode_Encode: "utf8_kv kv \<Longrightarrow> Decode (Encode kv @ t) = Some (kv, CHR 10 # t)"
  by (simp add: Decode_def Encode_def expect_here json_string_quote utf8_kv_def utf8_names)

lemma decode_newline: "decode_loop (CHR 10 # s) = decode_loop s"
  by (subst (1 2) decode_loop.simps) (simp add: Decode_skip white_def)

lemma decode_loop_encoded: "list_all utf8_kv kvs \<Longrightarrow> decode_loop (concat (map Encode kvs)) = kvs"
proof (induction kvs)
  case Nil
  show ?case by (simp add: decode_loop.simps Decode_def expect_def)
next
  case (Cons kv kvs)
  then have "decode_loop (concat (map Encode (kv # kvs))) = kv # decode_loop (CHR 10 # concat (map Encode kvs))"
    by (subst decode_loop.simps) (simp add: Decode_Encode)
  with Cons show ?case by (simp add: decode_newline)
qed

end
