(* ===== verification/Worker.thy ===== *)
theory Worker
  imports Coordinator GoSort KvCodec "HOL-Library.Word" "HOL-Library.AList" "HOL-Library.Signed_Division"
begin

text \<open>
  The MapReduce worker, \<open>mr/worker.go\<close>, the programs \<open>main/mrworker.go\<close> and
  \<open>main/mrsequential.go\<close>, and the part of a file system they use. \<open>sort.Sort\<close>, the plugin loader
  and the network are arguments. \<open>log.Fatal\<close> and panics are vals of the type \<open>fatal\<close>. Reads and
  writes of an open file succeed.
\<close>

unbundle bit_operations_syntax

section \<open>Files\<close>

text \<open>The directories that exist, and the contents of the files by path.\<close>

record FileSystem =
  dirs :: "string list"
  files :: "(string \<times> string) list"

definition slash :: char where "slash = CHR ''/''"

definition parent :: "string \<Rightarrow> string" where
  "parent p = (let r = dropWhile (\<lambda>c. c \<noteq> slash) (rev p) in if r = [] then ''.'' else rev (tl r))"

definition base :: "string \<Rightarrow> string" where
  "base p = rev (takeWhile (\<lambda>c. c \<noteq> slash) (rev p))"

definition ReadFile :: "FileSystem \<Rightarrow> string \<Rightarrow> string option" where
  "ReadFile fs p = map_of (files fs) p"

definition write_file :: "string \<Rightarrow> string \<Rightarrow> FileSystem \<Rightarrow> FileSystem" where
  "write_file p content fs = fs\<lparr>files := AList.update p content (files fs)\<rparr>"

text \<open>\<open>os.Create\<close> truncates the file; it fails if the directory does not exist.\<close>

definition Create :: "FileSystem \<Rightarrow> string \<Rightarrow> fatal + FileSystem" where
  "Create fs p = (if parent p \<in> set (dirs fs) then Inr (write_file p [] fs)
     else Inl (Fatal (''open '' @ p @ '': no such file or directory'')))"

text \<open>Writing through a file handle at offset 0: what lies beyond the text written stays.\<close>

definition write_at_start :: "string \<Rightarrow> string \<Rightarrow> FileSystem \<Rightarrow> FileSystem" where
  "write_at_start p content fs =
     write_file p (content @ drop (length content) (case ReadFile fs p of None \<Rightarrow> [] | Some old \<Rightarrow> old)) fs"

text \<open>\<open>filepath.Match\<close> for a pattern whose only special character is the star.\<close>

fun glob_match :: "string \<Rightarrow> string \<Rightarrow> bool" where
  "glob_match [] s = (s = [])"
| "glob_match (p # ps) [] = (p = CHR ''*'' \<and> glob_match ps [])"
| "glob_match (p # ps) (c # cs) =
     (if p = CHR ''*'' then glob_match ps (c # cs) \<or> c \<noteq> slash \<and> glob_match (p # ps) cs
      else p = c \<and> glob_match ps cs)"

text \<open>\<open>filepath.Glob\<close> of a pattern in one directory: the names are sorted.\<close>

definition Glob :: "FileSystem \<Rightarrow> string \<Rightarrow> string \<Rightarrow> string list" where
  "Glob fs dir pat = map (\<lambda>name. dir @ [slash] @ name)
     (sort (filter (glob_match pat) (remdups (map base (filter (\<lambda>p. parent p = dir) (map fst (files fs)))))))"

definition sprint_int :: "int \<Rightarrow> string" where
  "sprint_int i = (if i < 0 then ''-'' @ itoa (nat (- i)) else itoa (nat i))"

section \<open>Plugins\<close>

type_synonym mapf = "string \<Rightarrow> string \<Rightarrow> KeyValue list"
type_synonym reducef = "string \<Rightarrow> string list \<Rightarrow> string"

datatype symbol = MapSym mapf | ReduceSym reducef | OtherSym

text \<open>\<open>plugin.Open\<close> gives, if it succeeds, the function \<open>Lookup\<close>.\<close>

type_synonym plugins = "string \<Rightarrow> (string \<Rightarrow> symbol option) option"

definition loadPlugin :: "plugins \<Rightarrow> string \<Rightarrow> fatal + (mapf \<times> reducef)" where
  "loadPlugin open_plugin filename = (case open_plugin filename of
     None \<Rightarrow> Inl (Fatal (''cannot load plugin '' @ filename))
   | Some lookup \<Rightarrow> (case lookup ''Map'' of
       None \<Rightarrow> Inl (Fatal (''cannot find Map in '' @ filename))
     | Some (MapSym m) \<Rightarrow> (case lookup ''Reduce'' of
         None \<Rightarrow> Inl (Fatal (''cannot find Reduce in '' @ filename))
       | Some (ReduceSym r) \<Rightarrow> Inr (m, r)
       | Some _ \<Rightarrow> Inl (Panic ''interface conversion''))
     | Some _ \<Rightarrow> Inl (Panic ''interface conversion'')))"

section \<open>The worker's types and its Ping handler\<close>

record Workers =
  ID :: string
  RPCAddr :: string
  wPort :: string

definition Ping :: "Workers \<Rightarrow> string \<Rightarrow> bool" where
  "Ping w argWorkerId \<longleftrightarrow> argWorkerId = ID w"

definition Less :: "KeyValue \<Rightarrow> KeyValue \<Rightarrow> bool" where
  "Less a b \<longleftrightarrow> Key a < Key b"

section \<open>Partitioning\<close>

text \<open>\<open>fnv.New32a\<close>: the 32-bit FNV-1a hash.\<close>

definition fnv32a :: "string \<Rightarrow> 32 word" where
  "fnv32a key = fold (\<lambda>c h. (h XOR of_nat (of_char c)) * 16777619) key 2166136261"

definition ihash :: "string \<Rightarrow> int" where
  "ihash key = uint (fnv32a key AND 0x7fffffff)"

text \<open>The map \<open>partitions\<close>; reading a missing key gives the empty slice.\<close>

fun add_partitions :: "int \<Rightarrow> KeyValue list \<Rightarrow> (int \<Rightarrow> KeyValue list) \<Rightarrow> fatal + (int \<Rightarrow> KeyValue list)" where
  "add_partitions n [] ps = Inr ps"
| "add_partitions n (kv # kvs) ps =
     (if n = 0 then Inl (Panic ''integer divide by zero'')
      else let v = ihash (Key kv) smod n in add_partitions n kvs (ps(v := ps v @ [kv])))"

definition intermediate_dir :: string where "intermediate_dir = ''mr-data/intermediate''"

definition intermediate_name :: "string \<Rightarrow> int \<Rightarrow> string" where
  "intermediate_name task p = intermediate_dir @ [slash] @ ''mr-'' @ task @ ''-'' @ sprint_int p"

fun write_partitions :: "string \<Rightarrow> (int \<Rightarrow> KeyValue list) \<Rightarrow> int list \<Rightarrow> FileSystem \<Rightarrow> FileSystem \<times> fatal option" where
  "write_partitions task ps [] fs = (fs, None)"
| "write_partitions task ps (p # ids) fs = (case Create fs (intermediate_name task p) of
     Inl e \<Rightarrow> (fs, Some e)
   | Inr fs' \<Rightarrow> write_partitions task ps ids
       (write_file (intermediate_name task p) (concat (map Encode (ps p))) fs'))"

definition MapperTask :: "plugins \<Rightarrow> string \<Rightarrow> WorkerTaskRequestReply \<Rightarrow> FileSystem \<Rightarrow> FileSystem \<times> fatal option" where
  "MapperTask open_plugin arg1 result fs = (case loadPlugin open_plugin arg1 of
     Inl e \<Rightarrow> (fs, Some e)
   | Inr (m, _) \<Rightarrow> (case ReadFile fs (rFilePath result) of
       None \<Rightarrow> (fs, Some (Fatal (''cannot open '' @ rFilePath result)))
     | Some content \<Rightarrow> (case add_partitions (rNReduce result) (m (rFilePath result) content) (\<lambda>_. []) of
         Inl e \<Rightarrow> (fs, Some e)
       | Inr ps \<Rightarrow> write_partitions (rTaskId result) ps (map int [0..<nat (rNReduce result)]) fs)))"

section \<open>Reducing\<close>

fun read_intermediate :: "FileSystem \<Rightarrow> string list \<Rightarrow> fatal + KeyValue list" where
  "read_intermediate fs [] = Inr []"
| "read_intermediate fs (f # fl) = (case ReadFile fs f of
     None \<Rightarrow> Inl (Fatal (''cannot open intermediate file '' @ f))
   | Some content \<Rightarrow> (case read_intermediate fs fl of Inl e \<Rightarrow> Inl e | Inr kvs \<Rightarrow> Inr (decode_loop content @ kvs)))"

text \<open>The inner loop of \<open>ReducerTask\<close>: the values from \<open>j\<close> on whose key is that at \<open>i\<close>.\<close>

function collect :: "KeyValue list \<Rightarrow> nat \<Rightarrow> nat \<Rightarrow> string list \<Rightarrow> nat \<times> string list" where
  "collect kvs i j vals = (if j < length kvs \<and> Key (kvs ! j) = Key (kvs ! i)
     then collect kvs i (Suc j) (vals @ [Value (kvs ! j)]) else (j, vals))"
  by auto

termination
  by (relation "measure (\<lambda>(kvs, i, j, vals). length kvs - j)") auto

declare collect.simps [simp del]

lemma collect_ge: "j \<le> fst (collect kvs i j vals)"
  by (induction kvs i j vals rule: collect.induct) (subst collect.simps, auto)

text \<open>One line of output, \<open>"%v %v\n"\<close>.\<close>

definition output_line :: "string \<Rightarrow> string \<Rightarrow> string" where
  "output_line key res = key @ '' '' @ res @ [CHR 10]"

function reduce_loop :: "reducef \<Rightarrow> KeyValue list \<Rightarrow> nat \<Rightarrow> string list \<Rightarrow> string list" where
  "reduce_loop red kvs i out = (if i < length kvs
     then let (j, vals) = collect kvs i (i + 1) [Value (kvs ! i)] in
       reduce_loop red kvs j (out @ [output_line (Key (kvs ! i)) (red (Key (kvs ! i)) vals)])
     else out)"
  by auto

termination
proof (relation "measure (\<lambda>(red, kvs, i, out). length kvs - i)", goal_cases)
  case (2 red kvs i out x j vals)
  then have "collect kvs i (i + 1) [Value (kvs ! i)] = (j, vals)" by simp
  with 2(1) collect_ge [of "i + 1" kvs i "[Value (kvs ! i)]"] show ?case by simp
qed simp

declare reduce_loop.simps [simp del]

definition output_name :: "int \<Rightarrow> string" where
  "output_name p = ''mr-data/output/mr-out-'' @ sprint_int p"

text \<open>
  \<open>ReducerTask\<close> up to the creation of the output file, with the lines it is going to write; then
  the writes.
\<close>

definition reducer_open ::
  "plugins \<Rightarrow> string \<Rightarrow> ((KeyValue \<Rightarrow> KeyValue \<Rightarrow> bool) \<Rightarrow> KeyValue list \<Rightarrow> KeyValue list) \<Rightarrow> WorkerTaskRequestReply
    \<Rightarrow> FileSystem \<Rightarrow> FileSystem \<times> (fatal + string list)" where
  "reducer_open open_plugin arg1 sort_slice result fs = (case loadPlugin open_plugin arg1 of
     Inl e \<Rightarrow> (fs, Inl e)
   | Inr (_, red) \<Rightarrow> (case read_intermediate fs (Glob fs intermediate_dir (''mr-task-*-'' @ sprint_int (rPartition result))) of
       Inl e \<Rightarrow> (fs, Inl e)
     | Inr kvs \<Rightarrow> (case Create fs (output_name (rPartition result)) of
         Inl e \<Rightarrow> (fs, Inl e)
       | Inr fs' \<Rightarrow> (fs', Inr (reduce_loop red (sort_slice Less kvs) 0 [])))))"

definition reducer_write :: "WorkerTaskRequestReply \<Rightarrow> string list \<Rightarrow> FileSystem \<Rightarrow> FileSystem" where
  "reducer_write result out fs = write_at_start (output_name (rPartition result)) (concat out) fs"

definition ReducerTask ::
  "plugins \<Rightarrow> string \<Rightarrow> ((KeyValue \<Rightarrow> KeyValue \<Rightarrow> bool) \<Rightarrow> KeyValue list \<Rightarrow> KeyValue list) \<Rightarrow> WorkerTaskRequestReply
    \<Rightarrow> FileSystem \<Rightarrow> FileSystem \<times> fatal option" where
  "ReducerTask open_plugin arg1 sort_slice result fs =
     (case reducer_open open_plugin arg1 sort_slice result fs of
        (fs', Inl e) \<Rightarrow> (fs', Some e)
      | (fs', Inr out) \<Rightarrow> (reducer_write result out fs', None))"

section \<open>The calls to the coordinator\<close>

text \<open>What a worker does next; a worker's goroutines start each other one after the other.\<close>

datatype proc =
    Registering | Appending "WorkerType list" | Fetching | Mapping WorkerTaskRequestReply | Reducing WorkerTaskRequestReply
  | Writing WorkerTaskRequestReply "string list" | Reporting WorkerTaskRequestReply | Stopped | Exited fatal

text \<open>
  An RPC: the dial fails, the reply is lost (with or without the handler having run), or it is
  delivered.
\<close>

datatype delivery = DialFails | Lost bool | Delivered

definition handled :: "delivery \<Rightarrow> bool" where
  "handled d \<longleftrightarrow> d = Delivered \<or> d = Lost True"

definition call :: "delivery \<Rightarrow> 'r \<Rightarrow> fatal + 'r option" where
  "call d reply = (case d of DialFails \<Rightarrow> Inl (Fatal ''dialing:'') | Lost _ \<Rightarrow> Inr None | Delivered \<Rightarrow> Inr (Some reply))"

definition registration_args :: "Workers \<Rightarrow> WorkerRegistrationArgs" where
  "registration_args w = \<lparr>regWorkerID = ID w, regRpcAddr = RPCAddr w, regPort = wPort w\<rparr>"

definition WorkerRegistrationRequest :: "delivery \<Rightarrow> bool \<Rightarrow> proc" where
  "WorkerRegistrationRequest d reply = (case call d reply of
     Inl e \<Rightarrow> Exited e | Inr (Some result) \<Rightarrow> Fetching | Inr None \<Rightarrow> Stopped)"

definition request_args :: "Workers \<Rightarrow> WorkerTaskRequestArgs" where
  "request_args w = \<lparr>reqWorkerID = ID w, reqRpcAddr = RPCAddr w, reqPort = wPort w\<rparr>"

definition WorkerFetchTasks :: "delivery \<Rightarrow> WorkerTaskRequestReply \<Rightarrow> proc" where
  "WorkerFetchTasks d reply = (case call d reply of
     Inl e \<Rightarrow> Exited e
   | Inr (Some result) \<Rightarrow>
       if rPhase result = MapPhase then Mapping result
       else if rPhase result = ReducePhase then Reducing result
       else Stopped
   | Inr None \<Rightarrow> Stopped)"

definition update_args :: "Workers \<Rightarrow> WorkerTaskRequestReply \<Rightarrow> WorkerTaskUpdateArgs" where
  "update_args w result = \<lparr>updWorkerID = ID w, updTaskId = rTaskId result, updType = rType result, updStatus = DONE\<rparr>"

definition DoWorkerTaskUpdate :: "delivery \<Rightarrow> WorkerTaskUpdateReply \<Rightarrow> proc" where
  "DoWorkerTaskUpdate d reply = (case call d reply of
     Inl e \<Rightarrow> Exited e
   | Inr (Some result) \<Rightarrow> if uPhase result \<noteq> FinishedPhase then Fetching else Stopped
   | Inr None \<Rightarrow> Stopped)"

text \<open>
  \<open>Worker\<close> and \<open>main\<close> of \<open>mrworker.go\<close>: the worker that starts, with the address its listener has
  got. \<open>Inl\<close> is the exit status or the failed registration or listen.
\<close>

definition Worker :: "bool \<Rightarrow> (string \<times> nat) option \<Rightarrow> nat \<Rightarrow> fatal + Workers" where
  "Worker registered listen now = (if \<not> registered then Inl (Fatal ''RPC register error:'')
     else case listen of None \<Rightarrow> Inl (Fatal ''listen error:'')
     | Some (ip, port) \<Rightarrow> Inr \<lparr>ID = ''worker-'' @ itoa now, RPCAddr = ip, wPort = itoa port\<rparr>)"

definition mrworker_main :: "string list \<Rightarrow> bool \<Rightarrow> (string \<times> nat) option \<Rightarrow> nat \<Rightarrow> int + (fatal + Workers)" where
  "mrworker_main args registered listen now =
     (if length args \<noteq> 2 then Inl 1 else Inr (Worker registered listen now))"

definition coordinatorSock :: "nat \<Rightarrow> string" where
  "coordinatorSock uid = ''/var/tmp/5840-mr-'' @ itoa uid"

section \<open>The sequential program\<close>

fun map_inputs :: "mapf \<Rightarrow> FileSystem \<Rightarrow> string list \<Rightarrow> KeyValue list \<Rightarrow> fatal + KeyValue list" where
  "map_inputs m fs [] acc = Inr acc"
| "map_inputs m fs (f # fl) acc = (case ReadFile fs f of
     None \<Rightarrow> Inl (Fatal (''cannot open '' @ f))
   | Some content \<Rightarrow> map_inputs m fs fl (acc @ m f content))"

function group_end :: "KeyValue list \<Rightarrow> nat \<Rightarrow> nat \<Rightarrow> nat" where
  "group_end kvs i j = (if j < length kvs \<and> Key (kvs ! j) = Key (kvs ! i) then group_end kvs i (Suc j) else j)"
  by auto

termination
  by (relation "measure (\<lambda>(kvs, i, j). length kvs - j)") auto

declare group_end.simps [simp del]

lemma group_end_ge: "j \<le> group_end kvs i j"
  by (induction kvs i j rule: group_end.induct) (subst group_end.simps, auto)

function sequential_loop :: "reducef \<Rightarrow> KeyValue list \<Rightarrow> nat \<Rightarrow> string list \<Rightarrow> string list" where
  "sequential_loop red kvs i out = (if i < length kvs
     then let j = group_end kvs i (i + 1);
              vals = map (\<lambda>k. Value (kvs ! k)) [i..<j] in
       sequential_loop red kvs j (out @ [output_line (Key (kvs ! i)) (red (Key (kvs ! i)) vals)])
     else out)"
  by auto

termination
proof (relation "measure (\<lambda>(red, kvs, i, out). length kvs - i)", goal_cases)
  case (2 red kvs i out j vals)
  with group_end_ge [of "i + 1" kvs i] show ?case by simp
qed simp

declare sequential_loop.simps [simp del]

text \<open>
  \<open>main\<close> of \<open>mrsequential.go\<close>; \<open>args\<close> is \<open>os.Args\<close>. The error of \<open>os.Create\<close> is dropped: the
  writes to the nil file then fail, and their errors are dropped too.
\<close>

definition mrsequential ::
  "plugins \<Rightarrow> ((KeyValue \<Rightarrow> KeyValue \<Rightarrow> bool) \<Rightarrow> KeyValue list \<Rightarrow> KeyValue list) \<Rightarrow> string list \<Rightarrow> FileSystem
    \<Rightarrow> FileSystem \<times> (int + fatal) option" where
  "mrsequential open_plugin sort_slice args fs =
     (if length args < 3 then (fs, Some (Inl 1))
      else case loadPlugin open_plugin (args ! 1) of
        Inl e \<Rightarrow> (fs, Some (Inr e))
      | Inr (m, red) \<Rightarrow> (case map_inputs m fs (drop 2 args) [] of
          Inl e \<Rightarrow> (fs, Some (Inr e))
        | Inr kvs \<Rightarrow> (let out = sequential_loop red (sort_slice Less kvs) 0 [] in
            case Create fs ''mr-out-0'' of
              Inl _ \<Rightarrow> (fs, None)
            | Inr fs' \<Rightarrow> (write_at_start ''mr-out-0'' (concat out) fs', None))))"

end
