(* ===== verification/CoordinatorLive.thy ===== *)
theory CoordinatorLive
  imports CoordinatorProps Worker
begin

text \<open>
  Progress of the coordinator: a registered worker that asks for a task, executes it and reports
  it, again and again, takes the job through both phases. Also what the health check and the main
  program of the coordinator do.
\<close>

text \<open>
  One turn of a worker whose calls are delivered, between two fetches: \<open>WorkerFetchTasks\<close>, then, when
  the task has been executed, \<open>DoWorkerTaskUpdate\<close>; with what the worker does next.
\<close>

definition report_task :: "Workers \<Rightarrow> Coordinator \<Rightarrow> WorkerTaskRequestReply \<Rightarrow> Coordinator \<times> proc" where
  "report_task w c result = (let (c, reply) = TaskUpdateByWorker c (update_args w result) zeroUpdateReply
     in (c, DoWorkerTaskUpdate Delivered reply))"

definition work_round :: "Workers \<Rightarrow> Coordinator \<times> proc \<Rightarrow> Coordinator \<times> proc" where
  "work_round w r = (case r of
     (c, Fetching) \<Rightarrow> (let (c, reply) = TaskRequestByWorker c (request_args w) zeroRequestReply in
       case WorkerFetchTasks Delivered reply of
         Mapping result \<Rightarrow> report_task w c result
       | Reducing result \<Rightarrow> report_task w c result
       | p \<Rightarrow> (c, p))
   | r \<Rightarrow> r)"

section \<open>Open tasks\<close>

definition todo :: "Job list \<Rightarrow> nat" where
  "todo js = length (filter (\<lambda>j. status j \<noteq> DONE) js)"

definition open_tasks :: "int \<Rightarrow> Coordinator \<Rightarrow> nat" where
  "open_tasks n c = todo (mapTasks c) + (if phase c = MapPhase then nat n else todo (reduceTasks c))"

definition unassigned :: "Coordinator \<Rightarrow> bool" where
  "unassigned c \<longleftrightarrow> list_all (\<lambda>j. status j \<noteq> Pending) (mapTasks c @ reduceTasks c)"

lemma todo_0_iff: "todo js = 0 \<longleftrightarrow> all_done js"
  by (auto simp: todo_def all_done_def list_all_iff filter_empty_conv)

lemma todo_update:
  "i < length js \<Longrightarrow> status (js ! i) \<noteq> DONE \<Longrightarrow> status j = DONE \<Longrightarrow> Suc (todo (js[i := j])) = todo js"
  by (induction js arbitrary: i) (auto simp: todo_def nth_Cons split: nat.splits)

lemma todo_newReduceTasks: "todo (map newReduceTask [0..<k]) = k"
  by (simp add: todo_def newReduceTask_def comp_def)

section \<open>One round\<close>

lemma open_waiting:
  assumes "table_ok js" and "list_all (\<lambda>j. status j \<noteq> Pending) js" and "\<not> all_done js"
  shows "\<exists>j\<in>set js. status j = Waiting"
  using assms by (auto simp: table_ok_def all_done_def list_all_iff job_ok_def)

lemma work_round_served:
  assumes "TaskRequestByWorker c (request_args w) zeroRequestReply = (c1, r)" and "rPhase r \<in> {MapPhase, ReducePhase}"
  shows "work_round w (c, Fetching) = report_task w c1 r"
  using assms by (auto simp: work_round_def WorkerFetchTasks_def call_def)

lemma report_accepted:
  assumes "updTaskId (update_args w r) \<noteq> []" and "ID w \<noteq> []" and "rType r \<in> {MapTask, ReduceTask}"
    and "find_index (\<lambda>job. taskId job = rTaskId r) (jobs_of (rType r) c) = Some i"
    and "workerId (worker (jobs_of (rType r) c ! i)) = ID w" and "status (jobs_of (rType r) c ! i) \<noteq> DONE"
    and "phase c \<noteq> FinishedPhase"
  shows "report_task w c r = (TaskTransitionManager (rType r)
     (set_jobs (rType r) ((jobs_of (rType r) c)[i := (jobs_of (rType r) c ! i)\<lparr>status := DONE\<rparr>]) c), Fetching)"
  using assms
  by (auto simp: report_task_def TaskUpdateByWorker_def update_args_def Let_def DoWorkerTaskUpdate_def call_def)

lemma work_round_effect:
  assumes inv: "coord_inv inputs n c" and reg: "ID v \<in> workerId ` set (workers c)" and wid: "ID v \<noteq> []"
    and free: "unassigned c" and ph: "phase c = MapPhase \<and> inputs \<noteq> [] \<or> phase c = ReducePhase \<and> 0 < n"
  defines "t \<equiv> served_type (phase c)"
  obtains i w where "i < length (jobs_of t c)" and "status (jobs_of t c ! i) = Waiting"
    and "work_round v (c, Fetching) = (TaskTransitionManager t
      (set_jobs t ((jobs_of t c)[i := (jobs_of t c ! i)\<lparr>worker := w, status := DONE\<rparr>]) c), Fetching)"
proof -
  obtain c1 r where req: "TaskRequestByWorker c (request_args v) zeroRequestReply = (c1, r)" by fastforce
  have tab: "table_ok (jobs_of t c)" and "\<not> all_done (jobs_of t c)"
    using ph coord_invD(4,5,7) [OF inv]
    by (auto simp: t_def served_type_def jobs_of_def phase_ok_def)
  then have "\<exists>j\<in>set (jobs_of t c). status j = Waiting"
    using free ph by (intro open_waiting) (auto simp: t_def served_type_def jobs_of_def unassigned_def)
  then have "rTaskAvailable r"
    using reg TaskRequestByWorker_served [OF req] by (auto simp: t_def request_args_def)
  then show thesis
  proof (rule TaskRequestByWorker_available [OF req])
    fix i w
    assume t: "rType r = served_type (phase c)" "rType r \<in> {MapTask, ReduceTask}" and rp: "rPhase r = phase c"
      and i: "i < length (jobs_of (rType r) c)" "status (jobs_of (rType r) c ! i) = Waiting"
      and tid: "rTaskId r = taskId (jobs_of (rType r) c ! i)"
      and w: "workerId w = reqWorkerID (request_args v)"
      and c1: "c1 = set_jobs (rType r) ((jobs_of (rType r) c)
                 [i := (jobs_of (rType r) c ! i)\<lparr>status := Pending, worker := w\<rparr>]) c"
    let ?js = "(jobs_of t c)[i := (jobs_of t c ! i)\<lparr>status := Pending, worker := w\<rparr>]"
    have js: "jobs_of t c1 = ?js" and set_set: "\<And>js. set_jobs t js c1 = set_jobs t js c" and ph1: "phase c1 = phase c"
      using t c1 by (auto simp: t_def jobs_of_def set_jobs_def)
    have ok: "table_ok ?js"
      using tab i t by (intro table_ok_update) (auto simp: t_def assign_job_ok)
    have name: "rTaskId r = task_name i" using tid table_ok_nth [OF tab] i t by (simp add: t_def)
    moreover have "find_index (\<lambda>job. taskId job = task_name i) ?js = Some i"
      using table_ok_find_task [OF ok] i t by (simp add: t_def)
    ultimately have "report_task v c1 r = (TaskTransitionManager t (set_jobs t (?js[i := (?js ! i)\<lparr>status := DONE\<rparr>]) c), Fetching)"
      using report_accepted [of v r c1 i] t i w wid js set_set ph ph1
      by (auto simp: update_args_def request_args_def t_def task_name_def)
    moreover have "work_round v (c, Fetching) = report_task v c1 r" using work_round_served [OF req] rp ph by auto
    ultimately show thesis using that [of i w] i t by (simp add: t_def)
  qed
qed

lemma unassigned_update:
  "list_all (\<lambda>j. status j \<noteq> Pending) js \<Longrightarrow> list_all (\<lambda>j. status j \<noteq> Pending) (js[i := j\<lparr>worker := w, status := DONE\<rparr>])"
  by (rule list_all_update) simp_all

lemma work_round_progress:
  assumes inv: "coord_inv inputs n c" and reg: "ID v \<in> workerId ` set (workers c)" and wid: "ID v \<noteq> []"
    and free: "unassigned c" and ph: "phase c = MapPhase \<and> inputs \<noteq> [] \<or> phase c = ReducePhase \<and> 0 < n"
  obtains c' where "work_round v (c, Fetching) = (c', Fetching)" and "unassigned c'" and "workers c' = workers c"
    and "Suc (open_tasks n c') = open_tasks n c"
proof -
  obtain i w where i: "i < length (jobs_of (served_type (phase c)) c)"
      "status (jobs_of (served_type (phase c)) c ! i) = Waiting"
    and eff: "work_round v (c, Fetching) = (TaskTransitionManager (served_type (phase c))
      (set_jobs (served_type (phase c)) ((jobs_of (served_type (phase c)) c)
         [i := (jobs_of (served_type (phase c)) c ! i)\<lparr>worker := w, status := DONE\<rparr>]) c), Fetching)"
    using work_round_effect [OF assms] by metis
  note todo = todo_update [OF i(1), of "(jobs_of (served_type (phase c)) c ! i)\<lparr>worker := w, status := DONE\<rparr>"]
  note free' = free [unfolded unassigned_def] coord_invD(1,7) [OF inv]
  show thesis
  proof (rule that [OF eff])
    let ?c = "TaskTransitionManager (served_type (phase c)) (set_jobs (served_type (phase c)) ((jobs_of (served_type (phase c)) c)
         [i := (jobs_of (served_type (phase c)) c ! i)\<lparr>worker := w, status := DONE\<rparr>]) c)"
    have "unassigned ?c \<and> workers ?c = workers c \<and> Suc (open_tasks n ?c) = open_tasks n c"
    proof (cases "phase c = MapPhase")
      case True
      with i todo free' show ?thesis
        by (auto simp: served_type_def jobs_of_def set_jobs_def TaskTransitionManager_def unassigned_def
            open_tasks_def unassigned_update todo_newReduceTasks phase_ok_def)
           (simp_all add: list_all_iff newReduceTask_def)
    next
      case False
      with ph have "phase c = ReducePhase" by simp
      with i todo free' show ?thesis
        by (auto simp: served_type_def jobs_of_def set_jobs_def TaskTransitionManager_def unassigned_def
            open_tasks_def unassigned_update)
    qed
    then show "unassigned ?c" "workers ?c = workers c" "Suc (open_tasks n ?c) = open_tasks n c" by simp_all
  qed
qed

lemma report_task_inv: "coord_inv inputs n c \<Longrightarrow> coord_inv inputs n (fst (report_task v c r))"
  using TaskUpdateByWorker_inv [of inputs n c] by (simp add: report_task_def split_def Let_def)

lemma work_round_inv: "coord_inv inputs n c \<Longrightarrow> coord_inv inputs n (fst (work_round v (c, p)))"
  using TaskRequestByWorker_inv [of inputs n c]
  by (auto simp: work_round_def split_def Let_def report_task_inv split: proc.splits)

lemma open_tasks_0: "coord_inv inputs n c \<Longrightarrow> inputs \<noteq> [] \<Longrightarrow> 0 < n \<Longrightarrow> open_tasks n c = 0 \<longleftrightarrow> phase c = FinishedPhase"
  using coord_invD(7) [of inputs n c]
  by (auto simp: open_tasks_def todo_0_iff phase_ok_def split: CoordinatorPhase.splits)

lemma phase_open_tasks:
  assumes "coord_inv inputs n c" and "inputs \<noteq> []" and "0 < n"
  shows "phase c = (if nat n < open_tasks n c then MapPhase else if 0 < open_tasks n c then ReducePhase else FinishedPhase)"
proof -
  have le: "todo js \<le> length js" for js by (simp add: todo_def)
  have pos: "\<not> all_done js \<Longrightarrow> 0 < todo js" for js using todo_0_iff [of js] by simp
  show ?thesis using coord_invD(7) [OF assms(1)] assms(2,3) le [of "reduceTasks c"] pos [of "mapTasks c"] pos [of "reduceTasks c"]
    by (auto simp: open_tasks_def phase_ok_def todo_0_iff [symmetric] split: CoordinatorPhase.splits)
qed

lemma work_rounds_open:
  assumes "coord_inv inputs n c" and "ID v \<in> workerId ` set (workers c)" and "ID v \<noteq> []"
    and "unassigned c" and "inputs \<noteq> []" and "0 < n" and "k \<le> open_tasks n c"
  shows "\<exists>c'. (work_round v ^^ k) (c, Fetching) = (c', Fetching) \<and> coord_inv inputs n c'
    \<and> workers c' = workers c \<and> open_tasks n c' = open_tasks n c - k"
  using assms
proof (induction k arbitrary: c)
  case (Suc k)
  then have "phase c = MapPhase \<and> inputs \<noteq> [] \<or> phase c = ReducePhase \<and> 0 < n"
    using phase_open_tasks [OF Suc.prems(1,5,6)] by auto
  from work_round_progress [OF Suc.prems(1-4) this] obtain d where
    d: "work_round v (c, Fetching) = (d, Fetching)" "unassigned d" "workers d = workers c" "Suc (open_tasks n d) = open_tasks n c" .
  have "coord_inv inputs n d" using work_round_inv [OF Suc.prems(1), of v Fetching] d(1) by simp
  from Suc.IH [OF this] Suc.prems(2-7) d(2-4) obtain e where
    e: "(work_round v ^^ k) (d, Fetching) = (e, Fetching)" "coord_inv inputs n e" "workers e = workers d"
      "open_tasks n e = open_tasks n d - k" by auto
  moreover have "open_tasks n d - k = open_tasks n c - Suc k" using d(4) by linarith
  ultimately show ?case using d(1,3) by (simp add: funpow_swap1)
qed simp

lemma work_round_finished:
  assumes "phase c = FinishedPhase" and "ID v \<in> workerId ` set (workers c)"
  shows "work_round v (c, Fetching) = (c, Stopped)"
proof -
  obtain i where "find_index (\<lambda>w. workerId w = ID v) (workers c) = Some i"
    using assms(2) Bex_set_find_index [of "workers c" "\<lambda>w. workerId w = ID v"] by fastforce
  with assms(1) show ?thesis
    by (simp add: work_round_def TaskRequestByWorker_def request_args_def WorkerFetchTasks_def call_def Let_def)
qed

lemma start_open:
  "open_tasks n (fst (RegisterWorker (MakeCoordinator inputs n) args now)) = length inputs + nat n"
  by (simp add: open_tasks_def RegisterWorker_def MakeCoordinator_def todo_def newMapTask_def
      comp_def split_def)

lemma start_unassigned: "unassigned (fst (RegisterWorker (MakeCoordinator inputs n) args now))"
  by (auto simp: unassigned_def RegisterWorker_def MakeCoordinator_def newMapTask_def list_all_iff split_def)

section \<open>Health checks and the main program\<close>

text \<open>The \<open>WorkerSync\<close> calls of one tick, one after the other.\<close>

fun sync_all ::
  "(string \<Rightarrow> bool) \<Rightarrow> (string \<Rightarrow> bool) \<Rightarrow> int \<Rightarrow> (string \<times> string \<times> nat) list \<Rightarrow> Coordinator \<Rightarrow> Coordinator option" where
  "sync_all dial ping now [] c = Some c"
| "sync_all dial ping now ((wid, port, idx) # calls) c =
     Option.bind (WorkerSync dial ping c wid port idx now) (sync_all dial ping now calls)"

text \<open>
  What the code relies on of \<open>rpc.Dial\<close>: the part of an address after its last colon is a port
  number or a service name, so an address with a percent sign there is refused.
\<close>

definition dial_checks_port :: "(string \<Rightarrow> bool) \<Rightarrow> bool" where
  "dial_checks_port dial \<longleftrightarrow>
     (\<forall>host port. CHR ''%'' \<in> set port \<and> CHR '':'' \<notin> set port \<longrightarrow> \<not> dial (host @ '':'' @ port))"

lemma workerAddress_refused:
  assumes "dial_checks_port dial" and "CHR '':'' \<notin> set port"
  shows "\<not> dial (workerAddress port)"
  using assms(1) [unfolded dial_checks_port_def, rule_format, of "''%!d(string='' @ port @ '')''" "''localhost''"] assms(2)
  by (simp add: workerAddress_def)

lemma sync_all_refused:
  assumes "dial_checks_port dial"
    and "\<forall>(wid, port, idx)\<in>set calls. CHR '':'' \<notin> set port \<and> idx < length (workers c)"
  shows "sync_all dial ping now calls c = Some (c\<lparr>workers := map (\<lambda>(i, w).
           if i \<in> (snd \<circ> snd) ` set calls then w\<lparr>wstatus := StateRetrying\<rparr> else w) (enumerate 0 (workers c))\<rparr>)"
  using assms(2)
proof (induction calls arbitrary: c)
  case Nil
  have "map (\<lambda>(i, w). w) (enumerate 0 (workers c)) = workers c"
    by (simp add: nth_enumerate_eq list_eq_iff_nth_eq)
  then show ?case by (simp add: split_def)
next
  case (Cons call calls)
  obtain wid port idx where call: "call = (wid, port, idx)" by (cases call) auto
  let ?ws = "(workers c)[idx := (workers c ! idx)\<lparr>wstatus := StateRetrying\<rparr>]"
  have one: "WorkerSync dial ping c wid port idx now = Some (c\<lparr>workers := ?ws\<rparr>)"
    using Cons.prems workerAddress_refused [OF assms(1)] by (simp add: WorkerSync_def call Let_def)
  have "sync_all dial ping now calls (c\<lparr>workers := ?ws\<rparr>) = Some (c\<lparr>workers := map (\<lambda>(i, w).
           if i \<in> (snd \<circ> snd) ` set calls then w\<lparr>wstatus := StateRetrying\<rparr> else w) (enumerate 0 ?ws)\<rparr>)"
    using Cons.prems Cons.IH [of "c\<lparr>workers := ?ws\<rparr>"] by simp
  moreover have "map (\<lambda>(i, w). if i \<in> (snd \<circ> snd) ` set calls then w\<lparr>wstatus := StateRetrying\<rparr> else w) (enumerate 0 ?ws)
      = map (\<lambda>(i, w). if i \<in> (snd \<circ> snd) ` set (call # calls) then w\<lparr>wstatus := StateRetrying\<rparr> else w)
          (enumerate 0 (workers c))"
    using Cons.prems by (intro nth_equalityI) (auto simp: nth_enumerate_eq call nth_list_update)
  ultimately show ?case using one by (simp add: call)
qed


section \<open>Properties\<close>

text \<open>
  (C13) Liveness, with the exact number of rounds. With at least one input file and one reduce task,
  a worker with a non-empty id that has registered and whose calls are delivered, alone with the
  coordinator, makes one round per task (fetch, execution, report): the job is in the map phase for
  exactly as many rounds as there are files, then in the reduce phase for exactly as many as there are
  reduce tasks, and then finished. Until then the worker goes on fetching; one more round tells it
  that the job is finished, and it stops.
\<close>

theorem single_worker_finishes:
  assumes "inputs \<noteq> []" and "0 < n" and "ID v \<noteq> []" and "k \<le> length inputs + nat n"
  shows "\<exists>c. (work_round v ^^ k) (fst (RegisterWorker (MakeCoordinator inputs n) (registration_args v) now), Fetching) = (c, Fetching)
    \<and> phase c = (if k < length inputs then MapPhase else if k < length inputs + nat n then ReducePhase else FinishedPhase)
    \<and> snd (work_round v (c, Fetching)) = (if k < length inputs + nat n then Fetching else Stopped)"
proof -
  let ?c = "fst (RegisterWorker (MakeCoordinator inputs n) (registration_args v) now)"
  have inv: "coord_inv inputs n ?c" by (intro RegisterWorker_inv MakeCoordinator_inv)
  have reg: "ID v \<in> workerId ` set (workers ?c)" by (simp add: RegisterWorker_def newWorker_def registration_args_def)
  have rounds: "\<exists>c. (work_round v ^^ j) (?c, Fetching) = (c, Fetching) \<and> coord_inv inputs n c
      \<and> workers c = workers ?c \<and> open_tasks n c = length inputs + nat n - j" if "j \<le> length inputs + nat n" for j
    using work_rounds_open [OF inv reg assms(3) start_unassigned assms(1,2), of j] that by (simp add: start_open)
  from rounds [OF assms(4)] obtain c where c: "(work_round v ^^ k) (?c, Fetching) = (c, Fetching)" "coord_inv inputs n c"
    "workers c = workers ?c" "open_tasks n c = length inputs + nat n - k" by blast
  have ph: "phase c = (if k < length inputs then MapPhase else if k < length inputs + nat n then ReducePhase else FinishedPhase)"
    using phase_open_tasks [OF c(2) assms(1,2)] c(4) assms(2,4) by auto
  have "snd (work_round v (c, Fetching)) = (if k < length inputs + nat n then Fetching else Stopped)"
  proof (cases "k < length inputs + nat n")
    case True
    then show ?thesis using rounds [of "Suc k"] c(1) by auto
  next
    case False
    with ph have "phase c = FinishedPhase" by simp
    from work_round_finished [OF this] reg c(3) False show ?thesis by simp
  qed
  with c(1) ph show ?thesis by blast
qed

definition sample_worker :: Workers where
  "sample_worker = \<lparr>ID = ''worker-1'', RPCAddr = ''10.0.0.1'', wPort = ''4001''\<rparr>"

theorem single_worker_finishes_witness:
  "\<exists>c. (work_round sample_worker ^^ 4) (fst (RegisterWorker (MakeCoordinator [''pg-a.txt'', ''pg-b.txt''] 2)
      (registration_args sample_worker) 7), Fetching) = (c, Fetching)
    \<and> phase c = FinishedPhase \<and> snd (work_round sample_worker (c, Fetching)) = Stopped"
  using single_worker_finishes [of "[''pg-a.txt'', ''pg-b.txt'']" 2 sample_worker 4 7]
  by (simp add: sample_worker_def)

text \<open>
  (C14) The health check disconnects every worker. \<open>WorkerSync\<close> formats the port, a string, with
  the verb \<open>%d\<close>. With a \<open>Dial\<close> that checks ports, and workers whose port has no colon in it, one tick
  before the finished phase sets the status of every worker to \<open>StateRetrying\<close> and changes nothing else,
  whatever the workers would have answered, so that \<open>ActiveWorkers\<close> is 0.
\<close>

theorem healthcheck_disconnects:
  assumes "dial_checks_port dial" and "Done c \<noteq> FinishedPhase"
    and "\<forall>w\<in>set (workers c). CHR '':'' \<notin> set (Port w)"
  shows "\<exists>calls. Healthcheck c = Some calls
    \<and> sync_all dial ping now calls c = Some (c\<lparr>workers := map (\<lambda>w. w\<lparr>wstatus := StateRetrying\<rparr>) (workers c)\<rparr>)
    \<and> ActiveWorkers (c\<lparr>workers := map (\<lambda>w. w\<lparr>wstatus := StateRetrying\<rparr>) (workers c)\<rparr>) = 0"
proof -
  let ?calls = "map (\<lambda>(idx, w). (workerId w, Port w, idx)) (enumerate 0 (workers c))"
  have "map (snd \<circ> snd) ?calls = [0..<length (workers c)]"
    by (simp add: comp_def split_def)
  then have pos: "(snd \<circ> snd) ` set ?calls = {..<length (workers c)}"
    by (metis atLeast_upt set_map)
  have "\<forall>(wid, port, idx)\<in>set ?calls. CHR '':'' \<notin> set port \<and> idx < length (workers c)"
    using assms(3) by (auto simp: in_set_enumerate_eq)
  from sync_all_refused [OF assms(1) this, unfolded pos]
  have "sync_all dial ping now ?calls c = Some (c\<lparr>workers := map (\<lambda>(i, w).
      if i \<in> {..<length (workers c)} then w\<lparr>wstatus := StateRetrying\<rparr> else w) (enumerate 0 (workers c))\<rparr>)" .
  moreover have "map (\<lambda>(i, w). if i \<in> {..<length (workers c)} then w\<lparr>wstatus := StateRetrying\<rparr> else w) (enumerate 0 (workers c))
      = map (\<lambda>w. w\<lparr>wstatus := StateRetrying\<rparr>) (workers c)"
    by (intro nth_equalityI) (auto simp: nth_enumerate_eq)
  ultimately show ?thesis
    using assms(2) by (simp add: Healthcheck_def ActiveWorkers_def filter_map comp_def)
qed

theorem healthcheck_disconnects_witness:
  "\<exists>calls. Healthcheck (fst (RegisterWorker (MakeCoordinator [''a''] 1)
       \<lparr>regWorkerID = ''w'', regRpcAddr = [], regPort = ''4001''\<rparr> 0)) = Some calls
     \<and> map_option ActiveWorkers (sync_all (\<lambda>a. CHR ''%'' \<notin> set a) (\<lambda>_. True) 1 calls (fst (RegisterWorker (MakeCoordinator [''a''] 1)
       \<lparr>regWorkerID = ''w'', regRpcAddr = [], regPort = ''4001''\<rparr> 0))) = Some 0"
proof -
  let ?c = "fst (RegisterWorker (MakeCoordinator [''a''] 1) \<lparr>regWorkerID = ''w'', regRpcAddr = [], regPort = ''4001''\<rparr> 0)"
  have "dial_checks_port (\<lambda>a. CHR ''%'' \<notin> set a)" "Done ?c \<noteq> FinishedPhase" "\<forall>w\<in>set (workers ?c). CHR '':'' \<notin> set (Port w)"
    by (auto simp: dial_checks_port_def Done_def RegisterWorker_def MakeCoordinator_def newWorker_def)
  from healthcheck_disconnects [OF this, of "\<lambda>_. True" 1] show ?thesis by auto
qed


end
