(* ===== verification/History.thy ===== *)
theory History
  imports GoSort
begin

text \<open>
  \<open>porcupine/model.go\<close> and the first part of \<open>porcupine/checker.go\<close>: operations, events, models,
  and how a history becomes the list of entries that the checker searches. A value of type
  \<open>interface{}\<close> is an element of \<open>'v option\<close>, with \<open>None\<close> for \<open>nil\<close>. The states of a model are
  the type \<open>'s\<close>. A function of a model returns \<open>None\<close> where the Go function panics (a failed type
  assertion); a function that is \<open>nil\<close> in the struct is a field with the value \<open>None\<close>.
\<close>

section \<open>Models and histories (model.go)\<close>

record 'v Operation =
  opClientId :: int
  opInput :: "'v option"
  opCall :: int
  opOutput :: "'v option"
  opReturn :: int

datatype EventKind = CallEvent | ReturnEvent

record 'v Event =
  evClientId :: int
  evKind :: EventKind
  evValue :: "'v option"
  evId :: int

record ('v, 's) Model =
  Partition :: "('v Operation list \<Rightarrow> 'v Operation list list option) option"
  PartitionEvent :: "('v Event list \<Rightarrow> 'v Event list list option) option"
  Init :: 's
  Step :: "'s \<Rightarrow> 'v option \<Rightarrow> 'v option \<Rightarrow> (bool \<times> 's) option"
  Equal :: "('s \<Rightarrow> 's \<Rightarrow> bool) option"
  DescribeOperation :: "('v option \<Rightarrow> 'v option \<Rightarrow> string option) option"
  DescribeState :: "('s \<Rightarrow> string) option"

definition NoPartition :: "'v Operation list \<Rightarrow> 'v Operation list list option" where
  "NoPartition history = Some [history]"

definition NoPartitionEvent :: "'v Event list \<Rightarrow> 'v Event list list option" where
  "NoPartitionEvent history = Some [history]"

definition ShallowEqual :: "'s \<Rightarrow> 's \<Rightarrow> bool" where
  "ShallowEqual state1 state2 \<longleftrightarrow> state1 = state2"

text \<open>
  \<open>fillDefault\<close>. The two describing functions default to \<open>fmt.Sprintf("%v")\<close> renderings, which
  are arguments here.
\<close>

definition fillDefault ::
  "('v option \<Rightarrow> 'v option \<Rightarrow> string option) \<Rightarrow> ('s \<Rightarrow> string) \<Rightarrow> ('v, 's) Model \<Rightarrow> ('v, 's) Model" where
  "fillDefault descOp descState model =
     (let model = (if Partition model = None then model\<lparr>Partition := Some NoPartition\<rparr> else model);
          model = (if PartitionEvent model = None then model\<lparr>PartitionEvent := Some NoPartitionEvent\<rparr> else model);
          model = (if Equal model = None then model\<lparr>Equal := Some ShallowEqual\<rparr> else model);
          model = (if DescribeOperation model = None then model\<lparr>DescribeOperation := Some descOp\<rparr> else model);
          model = (if DescribeState model = None then model\<lparr>DescribeState := Some descState\<rparr> else model)
      in model)"

section \<open>Entries (checker.go)\<close>

datatype entryKind = callEntry | returnEntry

record 'v entry =
  kind :: entryKind
  evalue :: "'v option"
  eid :: int
  etime :: int
  eclientId :: int

definition byTime_Less :: "'v entry \<Rightarrow> 'v entry \<Rightarrow> bool" where
  "byTime_Less a b = (if etime a \<noteq> etime b then etime a < etime b
     else kind a = callEntry \<and> kind b = returnEntry)"

fun collectEntries :: "int \<Rightarrow> 'v Operation list \<Rightarrow> 'v entry list" where
  "collectEntries i [] = []"
| "collectEntries i (elem # history) =
     \<lparr>kind = callEntry, evalue = opInput elem, eid = i, etime = opCall elem, eclientId = opClientId elem\<rparr>
     # \<lparr>kind = returnEntry, evalue = opOutput elem, eid = i, etime = opReturn elem, eclientId = opClientId elem\<rparr>
     # collectEntries (i + 1) history"

definition makeEntries ::
  "(('v entry \<Rightarrow> 'v entry \<Rightarrow> bool) \<Rightarrow> 'v entry list \<Rightarrow> 'v entry list) \<Rightarrow> 'v Operation list \<Rightarrow> 'v entry list" where
  "makeEntries sort_slice history = sort_slice byTime_Less (collectEntries 0 history)"

text \<open>\<open>renumber\<close>: the loop keeps the result, the map and the next id.\<close>

fun renumber_loop :: "(int \<rightharpoonup> int) \<Rightarrow> int \<Rightarrow> 'v Event list \<Rightarrow> 'v Event list" where
  "renumber_loop m i [] = []"
| "renumber_loop m i (v # events) = (case m (evId v) of
     Some r \<Rightarrow> \<lparr>evClientId = evClientId v, evKind = evKind v, evValue = evValue v, evId = r\<rparr>
               # renumber_loop m i events
   | None \<Rightarrow> \<lparr>evClientId = evClientId v, evKind = evKind v, evValue = evValue v, evId = i\<rparr>
             # renumber_loop (m(evId v \<mapsto> i)) (i + 1) events)"

definition renumber :: "'v Event list \<Rightarrow> 'v Event list" where
  "renumber events = renumber_loop Map.empty 0 events"

definition convertEntries :: "'v Event list \<Rightarrow> 'v entry list" where
  "convertEntries events = map (\<lambda>(i, elem).
     \<lparr>kind = (if evKind elem = ReturnEvent then returnEntry else callEntry), evalue = evValue elem,
      eid = evId elem, etime = int i, eclientId = evClientId elem\<rparr>) (enumerate 0 events)"

end
