(* ===== verification/LinkedNodes.thy ===== *)
theory LinkedNodes
  imports History "HOL-Library.Monad_Syntax"
begin

text \<open>
  The doubly linked list of \<open>porcupine/checker.go\<close>. Nodes live on an explicit heap, because
  \<open>lift\<close> and \<open>unlift\<close> work by aliasing: a lifted node keeps its own links, and \<open>unlift\<close> reads
  them to splice it back. A heap is the list of the allocated nodes, an address an index in it,
  a pointer an address or \<open>nil\<close> (\<open>None\<close>). Dereferencing \<open>nil\<close> is a panic, the value \<open>None\<close> of
  an operation. The main facts: \<open>lift\<close> removes a call and its return from the list, and
  \<open>unlift\<close> after it restores the heap exactly.
\<close>

section \<open>The code\<close>

type_synonym ptr = "nat option"

record 'v node =
  nvalue :: "'v option"
  nmatch :: ptr
  nid :: int
  nnext :: ptr
  nprev :: ptr

type_synonym 'v heap = "'v node list"

definition deref :: "'v heap \<Rightarrow> ptr \<Rightarrow> 'v node option" where
  "deref h p = (case p of None \<Rightarrow> None | Some a \<Rightarrow> if a < length h then Some (h ! a) else None)"

definition set_next :: "'v heap \<Rightarrow> ptr \<Rightarrow> ptr \<Rightarrow> 'v heap option" where
  "set_next h p q = (case p of None \<Rightarrow> None
     | Some a \<Rightarrow> if a < length h then Some (h[a := (h ! a)\<lparr>nnext := q\<rparr>]) else None)"

definition set_prev :: "'v heap \<Rightarrow> ptr \<Rightarrow> ptr \<Rightarrow> 'v heap option" where
  "set_prev h p q = (case p of None \<Rightarrow> None
     | Some a \<Rightarrow> if a < length h then Some (h[a := (h ! a)\<lparr>nprev := q\<rparr>]) else None)"

definition insertBefore :: "'v heap \<Rightarrow> ptr \<Rightarrow> ptr \<Rightarrow> ('v heap \<times> ptr) option" where
  "insertBefore h n mark = (if mark \<noteq> None then do {
       m \<leftarrow> deref h mark;
       let beforeMark = nprev m;
       h \<leftarrow> set_prev h mark n;
       h \<leftarrow> set_next h n mark;
       if beforeMark \<noteq> None then do {
         h \<leftarrow> set_prev h n beforeMark;
         h \<leftarrow> set_next h beforeMark n;
         Some (h, n)
       } else Some (h, n)
     } else Some (h, n))"

partial_function (option) length_loop :: "'v heap \<Rightarrow> ptr \<Rightarrow> nat \<Rightarrow> nat option" where
  "length_loop h n l = (if n \<noteq> None then do { nd \<leftarrow> deref h n; length_loop h (nnext nd) (l + 1) } else Some l)"

definition length_nodes :: "'v heap \<Rightarrow> ptr \<Rightarrow> nat option" where
  "length_nodes h n = length_loop h n 0"

text \<open>
  \<open>makeLinkedEntries\<close>: the loop runs from the last entry to the first and keeps the root and the
  map from ids to return nodes; a missing key of the map reads as \<open>nil\<close>.
\<close>

fun makeLinked_loop :: "'v heap \<Rightarrow> ptr \<Rightarrow> (int \<Rightarrow> ptr) \<Rightarrow> 'v entry list \<Rightarrow> ('v heap \<times> ptr) option" where
  "makeLinked_loop h root match [] = Some (h, root)"
| "makeLinked_loop h root match (elem # elems) =
     (if kind elem = returnEntry then do {
        let entry = Some (length h);
        let h = h @ [\<lparr>nvalue = evalue elem, nmatch = None, nid = eid elem, nnext = None, nprev = None\<rparr>];
        let match = match(eid elem := entry);
        (h, _) \<leftarrow> insertBefore h entry root;
        makeLinked_loop h entry match elems
      } else do {
        let entry = Some (length h);
        let h = h @ [\<lparr>nvalue = evalue elem, nmatch = match (eid elem), nid = eid elem, nnext = None, nprev = None\<rparr>];
        (h, _) \<leftarrow> insertBefore h entry root;
        makeLinked_loop h entry match elems
      })"

definition makeLinkedEntries :: "'v entry list \<Rightarrow> ('v heap \<times> ptr) option" where
  "makeLinkedEntries entries = makeLinked_loop [] None (\<lambda>_. None) (rev entries)"

definition lift :: "'v heap \<Rightarrow> ptr \<Rightarrow> 'v heap option" where
  "lift h entry = do {
     e \<leftarrow> deref h entry;
     h \<leftarrow> set_next h (nprev e) (nnext e);
     e \<leftarrow> deref h entry;
     h \<leftarrow> set_prev h (nnext e) (nprev e);
     e \<leftarrow> deref h entry;
     let match = nmatch e;
     m \<leftarrow> deref h match;
     h \<leftarrow> set_next h (nprev m) (nnext m);
     m \<leftarrow> deref h match;
     if nnext m \<noteq> None then set_prev h (nnext m) (nprev m) else Some h
   }"

definition unlift :: "'v heap \<Rightarrow> ptr \<Rightarrow> 'v heap option" where
  "unlift h entry = do {
     e \<leftarrow> deref h entry;
     let match = nmatch e;
     m \<leftarrow> deref h match;
     h \<leftarrow> set_next h (nprev m) match;
     m \<leftarrow> deref h match;
     h \<leftarrow> (if nnext m \<noteq> None then set_prev h (nnext m) match else Some h);
     e \<leftarrow> deref h entry;
     h \<leftarrow> set_next h (nprev e) entry;
     e \<leftarrow> deref h entry;
     set_prev h (nnext e) entry
   }"

section \<open>Doubly linked lists\<close>

fun links :: "'v heap \<Rightarrow> nat \<Rightarrow> nat list \<Rightarrow> bool" where
  "links h p [] \<longleftrightarrow> True"
| "links h p (q # qs) \<longleftrightarrow> nnext (h ! p) = Some q \<and> nprev (h ! q) = Some p \<and> links h q qs"

text \<open>\<open>linked h p qs\<close>: the list that starts at \<open>p\<close> and continues with \<open>qs\<close>.\<close>

definition linked :: "'v heap \<Rightarrow> nat \<Rightarrow> nat list \<Rightarrow> bool" where
  "linked h p qs \<longleftrightarrow> links h p qs \<and> nnext (h ! last (p # qs)) = None \<and> distinct (p # qs)
     \<and> (\<forall>q\<in>set (p # qs). q < length h)"

definition same_data :: "'v heap \<Rightarrow> 'v heap \<Rightarrow> bool" where
  "same_data h h' \<longleftrightarrow> length h' = length h \<and> (\<forall>a<length h. nvalue (h' ! a) = nvalue (h ! a)
     \<and> nmatch (h' ! a) = nmatch (h ! a) \<and> nid (h' ! a) = nid (h ! a))"

lemma same_data_refl [simp]: "same_data h h"
  by (simp add: same_data_def)

lemma same_data_trans: "same_data h h' \<Longrightarrow> same_data h' h'' \<Longrightarrow> same_data h h''"
  by (simp add: same_data_def)

lemma deref_Some [simp]: "a < length h \<Longrightarrow> deref h (Some a) = Some (h ! a)"
  by (simp add: deref_def)

lemma set_next_Some [simp]: "a < length h \<Longrightarrow> set_next h (Some a) q = Some (h[a := (h ! a)\<lparr>nnext := q\<rparr>])"
  by (simp add: set_next_def)

lemma set_prev_Some [simp]: "a < length h \<Longrightarrow> set_prev h (Some a) q = Some (h[a := (h ! a)\<lparr>nprev := q\<rparr>])"
  by (simp add: set_prev_def)

lemma links_append: "links h p (qs @ rs) \<longleftrightarrow> links h p qs \<and> links h (last (p # qs)) rs"
  by (induction qs arbitrary: p) auto

lemma links_frame:
  assumes "links h p qs"
    and "\<And>a. a \<in> set (butlast (p # qs)) \<Longrightarrow> nnext (h' ! a) = nnext (h ! a)"
    and "\<And>a. a \<in> set qs \<Longrightarrow> nprev (h' ! a) = nprev (h ! a)"
  shows "links h' p qs"
  using assms by (induction qs arbitrary: p) (auto split: if_splits)

section \<open>Unlinking and relinking one node\<close>

text \<open>The two halves of \<open>lift\<close> and of \<open>unlift\<close> are the same code, up to the test for the end.\<close>

definition unlink :: "'v heap \<Rightarrow> nat \<Rightarrow> 'v heap option" where
  "unlink h x = do {
     e \<leftarrow> deref h (Some x);
     h \<leftarrow> set_next h (nprev e) (nnext e);
     e \<leftarrow> deref h (Some x);
     if nnext e \<noteq> None then set_prev h (nnext e) (nprev e) else Some h
   }"

definition relink :: "'v heap \<Rightarrow> nat \<Rightarrow> 'v heap option" where
  "relink h x = do {
     e \<leftarrow> deref h (Some x);
     h \<leftarrow> set_next h (nprev e) (Some x);
     e \<leftarrow> deref h (Some x);
     if nnext e \<noteq> None then set_prev h (nnext e) (Some x) else Some h
   }"

lemma linkedD:
  assumes "linked h p (as @ x # bs)"
  shows "x < length h" and "last (p # as) < length h" and "last (p # as) \<noteq> x"
    and "nprev (h ! x) = Some (last (p # as))" and "nnext (h ! last (p # as)) = Some x"
    and "nnext (h ! x) = (case bs of [] \<Rightarrow> None | b # _ \<Rightarrow> Some b)"
    and "b \<in> set bs \<Longrightarrow> b < length h \<and> b \<noteq> x \<and> b \<noteq> last (p # as)"
    and "bs = b # bs' \<Longrightarrow> nprev (h ! b) = Some x"
  using assms by (auto simp: linked_def links_append split: list.splits if_splits dest: last_in_set)

lemma last_butlast: "distinct xs \<Longrightarrow> xs \<noteq> [] \<Longrightarrow> last xs \<notin> set (butlast xs)"
  by (metis append_butlast_last_id distinct_butlast not_distinct_conv_prefix)

lemma unlink_last:
  assumes l: "linked h p (as @ [x])"
  shows "\<exists>h'. unlink h x = Some h' \<and> linked h' p as \<and> same_data h h' \<and> relink h' x = Some h
    \<and> nnext (h' ! x) = nnext (h ! x) \<and> nprev (h' ! x) = nprev (h ! x)"
proof -
  define a where "a = last (p # as)"
  note d = linkedD [OF l, folded a_def]
  let ?h = "h[a := (h ! a)\<lparr>nnext := None\<rparr>]"
  have u: "unlink h x = Some ?h" using d by (simp add: unlink_def)
  have "relink ?h x = Some (?h[a := (?h ! a)\<lparr>nnext := Some x\<rparr>])" using d by (simp add: relink_def)
  moreover have "?h[a := (?h ! a)\<lparr>nnext := Some x\<rparr>] = h" using d by (simp add: list_update_same_conv)
  ultimately have r: "relink ?h x = Some h" by simp
  have a: "a \<notin> set (butlast (p # as))"
    unfolding a_def using l by (intro last_butlast) (auto simp: linked_def)
  have "links h p as" using l by (simp add: linked_def links_append)
  then have "links ?h p as"
  proof (rule links_frame)
    fix c assume "c \<in> set (butlast (p # as))"
    with a have "a \<noteq> c" by blast
    then show "nnext (?h ! c) = nnext (h ! c)" by simp
  next
    fix c show "nprev (?h ! c) = nprev (h ! c)" using d(2) by (cases "c = a") auto
  qed
  then have "linked ?h p as"
    using l d(2) by (simp add: linked_def flip: a_def) (simp add: a_def split: if_splits)
  with u r d show ?thesis by (auto simp: same_data_def nth_list_update)
qed

lemma unlink_inner:
  assumes l: "linked h p (as @ x # b # bs)"
  shows "\<exists>h'. unlink h x = Some h' \<and> linked h' p (as @ b # bs) \<and> same_data h h' \<and> relink h' x = Some h
    \<and> nnext (h' ! x) = nnext (h ! x) \<and> nprev (h' ! x) = nprev (h ! x)"
proof -
  define a where "a = last (p # as)"
  note d = linkedD [OF l, folded a_def]
  have b: "b < length h" "b \<noteq> x" "b \<noteq> a" "a \<noteq> b" "nprev (h ! b) = Some x" using d(7) [of b] d(8) by auto
  let ?h1 = "h[a := (h ! a)\<lparr>nnext := Some b\<rparr>]"
  let ?h = "?h1[b := (h ! b)\<lparr>nprev := Some a\<rparr>]"
  have u: "unlink h x = Some ?h" using d(1-6) b by (simp add: unlink_def)
  have fields: "nnext (?h ! c) = (if c = a then Some b else nnext (h ! c))"
    "nprev (?h ! c) = (if c = b then Some a else nprev (h ! c))" if "c < length h" for c
    using that b d(2) by (auto simp: nth_list_update)
  have "relink ?h x = Some (h[a := (h ! a)\<lparr>nnext := Some x\<rparr>, b := (h ! b)\<lparr>nprev := Some x\<rparr>])"
    using d(1-6) b by (simp add: relink_def list_update_swap)
  moreover have "(h ! a)\<lparr>nnext := Some x\<rparr> = h ! a" "(h ! b)\<lparr>nprev := Some x\<rparr> = h ! b"
    using d(5) b(5) by (cases "h ! a", simp, cases "h ! b", simp)
  ultimately have r: "relink ?h x = Some h" by simp
  have dist: "distinct (p # as @ b # bs)" and bound: "\<forall>q\<in>set (p # as @ b # bs). q < length h"
    using l by (auto simp: linked_def)
  have ab: "a \<notin> set (butlast (p # as))" "b \<notin> set as" "b \<notin> set bs" "a \<notin> set (b # bs)"
    using dist last_butlast [of "p # as"] by (auto simp: a_def dest: last_in_set)
  have "links h p as" and "links h b bs" using l by (simp_all add: linked_def links_append)
  have "c \<in> set (butlast (p # as)) \<Longrightarrow> c < length h \<and> c \<noteq> a" for c
    using ab(1) bound by (auto split: if_splits dest: in_set_butlastD)
  then have "links ?h p as"
    by (intro links_frame [OF \<open>links h p as\<close>]) (use ab bound fields in auto)
  moreover have "links ?h b bs"
    by (rule links_frame [OF \<open>links h b bs\<close>]) (use ab bound fields in \<open>auto dest!: in_set_butlastD split: if_splits\<close>)
  moreover have "nnext (?h ! last (b # bs)) = None"
  proof -
    have "last (b # bs) \<in> set (b # bs)" by (rule last_in_set) simp
    then have "last (b # bs) < length h" "last (b # bs) \<noteq> a" using bound ab by auto
    then show ?thesis using l fields by (simp add: linked_def)
  qed
  moreover have "last (p # as @ b # bs) = last (b # bs)" by simp
  moreover have "nnext (?h ! a) = Some b" "nprev (?h ! b) = Some a" using fields d(2) b by simp_all
  ultimately have "linked ?h p (as @ b # bs)"
    using dist bound unfolding linked_def links_append links.simps a_def [symmetric]
    by (metis length_list_update)
  with u r d(1-3) b fields show ?thesis by (auto simp: same_data_def nth_list_update)
qed

lemma unlink_linked:
  assumes "linked h p (as @ x # bs)"
  shows "\<exists>h'. unlink h x = Some h' \<and> linked h' p (as @ bs) \<and> same_data h h' \<and> relink h' x = Some h
    \<and> nnext (h' ! x) = nnext (h ! x) \<and> nprev (h' ! x) = nprev (h ! x)"
  using assms unlink_last [of h p as x] unlink_inner [of h p as x] by (cases bs) auto

section \<open>Lifting an operation out of the list\<close>

text \<open>
  \<open>lift\<close> takes a call and its return out, \<open>unlift\<close> puts them back, and the heap is then exactly
  what it was.
\<close>

lemma lift_linked:
  assumes l: "linked h p (as @ x # bs @ y # cs)" and m: "nmatch (h ! x) = Some y"
  shows "\<exists>h'. lift h (Some x) = Some h' \<and> linked h' p (as @ bs @ cs) \<and> same_data h h'
    \<and> unlift h' (Some x) = Some h"
proof -
  from unlink_linked [OF l] obtain h1 where h1: "unlink h x = Some h1" "linked h1 p (as @ bs @ y # cs)"
    "same_data h h1" "relink h1 x = Some h" "nnext (h1 ! x) = nnext (h ! x)" "nprev (h1 ! x) = nprev (h ! x)" by auto
  from unlink_linked [of h1 p "as @ bs" y cs] h1(2) obtain h2 where h2: "unlink h1 y = Some h2"
    "linked h2 p (as @ bs @ cs)" "same_data h1 h2" "relink h2 y = Some h1" by auto
  have len: "x < length h" "length h1 = length h" "length h2 = length h"
    using l h1(3) h2(3) by (auto simp: linked_def same_data_def)
  have y: "nmatch (h1 ! x) = Some y" "nmatch (h2 ! x) = Some y" "y < length h" "x \<noteq> y"
    using l m h1(3) h2(3) len by (auto simp: same_data_def linked_def)
  have nx: "\<exists>b. nnext (h ! x) = Some b \<and> b < length h \<and> b \<noteq> x"
    using linkedD(6,7) [OF l] by (cases bs) auto
  have px: "\<exists>a. nprev (h ! x) = Some a \<and> a < length h \<and> a \<noteq> x" using linkedD(2-4) [OF l] by blast
  have "lift h (Some x) = unlink h1 y"
    using h1(1) y len nx px by (auto simp: lift_def unlink_def)
  moreover have "unlift h2 (Some x) = relink h1 x"
    using h2(4) h1(5,6) y len nx px by (auto simp: unlift_def relink_def bind_eq_Some_conv)
  ultimately show ?thesis
    using h1 h2 same_data_trans by auto
qed

section \<open>Building the list\<close>

lemma insertBefore_linked:
  assumes l: "linked h r rs" and r: "nprev (h ! r) = None"
    and nd: "nprev nd = None"
  shows "\<exists>h'. insertBefore (h @ [nd]) (Some (length h)) (Some r) = Some (h', Some (length h))
    \<and> linked h' (length h) (r # rs) \<and> same_data (h @ [nd]) h' \<and> nprev (h' ! length h) = None"
proof -
  have rl: "r < length h" and bound: "\<forall>q\<in>set (r # rs). q < length h" using l by (auto simp: linked_def)
  let ?h = "h[r := (h ! r)\<lparr>nprev := Some (length h)\<rparr>] @ [nd\<lparr>nnext := Some r\<rparr>]"
  have i: "insertBefore (h @ [nd]) (Some (length h)) (Some r) = Some (?h, Some (length h))"
    using rl r by (simp add: insertBefore_def nth_append list_update_append)
  have eq: "?h ! c = (if c = r then (h ! r)\<lparr>nprev := Some (length h)\<rparr> else h ! c)" if "c < length h" for c
    using that rl by (auto simp: nth_append)
  have "links ?h r rs"
  proof (rule links_frame [where h = h])
    show "links h r rs" using l by (simp add: linked_def)
    fix c assume "c \<in> set (butlast (r # rs))"
    then have "c < length h" using bound by (metis in_set_butlastD)
    then show "nnext (?h ! c) = nnext (h ! c)" using eq by simp
  next
    fix c assume "c \<in> set rs"
    then have "c < length h" "c \<noteq> r" using l by (auto simp: linked_def)
    then show "nprev (?h ! c) = nprev (h ! c)" using eq by simp
  qed
  moreover have "nnext (?h ! last (r # rs)) = None"
  proof -
    have "last (r # rs) < length h" using bound by (metis last_in_set list.distinct(1))
    from eq [OF this] l show ?thesis by (auto simp: linked_def)
  qed
  moreover have "nnext (?h ! length h) = Some r" "nprev (?h ! r) = Some (length h)"
    using rl eq by (simp_all add: nth_append)
  ultimately have "linked ?h (length h) (r # rs)"
    using l bound unfolding linked_def by auto
  moreover have "same_data (h @ [nd]) ?h"
    using rl by (auto simp: same_data_def nth_append nth_list_update less_Suc_eq)
  ultimately show ?thesis using i nd by (simp add: nth_append)
qed

text \<open>
  The nodes of a list of entries, in the order of their allocation (the entries reversed): node
  \<open>a\<close> holds entry \<open>a\<close>, and a call points to a return with its id among the earlier nodes.
\<close>

definition match_ok :: "'v entry list \<Rightarrow> int \<Rightarrow> ptr \<Rightarrow> bool" where
  "match_ok es i p \<longleftrightarrow> (case p of
     None \<Rightarrow> \<forall>e\<in>set es. \<not> (kind e = returnEntry \<and> eid e = i)
   | Some a \<Rightarrow> a < length es \<and> kind (es ! a) = returnEntry \<and> eid (es ! a) = i)"

definition node_ok :: "'v entry list \<Rightarrow> 'v node \<Rightarrow> nat \<Rightarrow> bool" where
  "node_ok es nd a \<longleftrightarrow> nvalue nd = evalue (es ! a) \<and> nid nd = eid (es ! a)
     \<and> (if kind (es ! a) = returnEntry then nmatch nd = None else match_ok (take a es) (eid (es ! a)) (nmatch nd))"

definition heap_ok :: "'v entry list \<Rightarrow> 'v heap \<Rightarrow> bool" where
  "heap_ok es h \<longleftrightarrow> length h = length es \<and> (\<forall>a<length es. node_ok es (h ! a) a)"

definition list_ok :: "'v heap \<Rightarrow> ptr \<Rightarrow> bool" where
  "list_ok h root \<longleftrightarrow> (if h = [] then root = None
     else root = Some (length h - 1) \<and> linked h (length h - 1) (rev [0..<length h - 1]) \<and> nprev (h ! (length h - 1)) = None)"

lemma match_ok_snoc:
  assumes "\<And>i. match_ok es i (match i)"
  shows "match_ok (es @ [e]) i ((if kind e = returnEntry then match(eid e := Some (length es)) else match) i)"
proof -
  have "match_ok (es @ [e]) i (match i)" if "kind e = returnEntry \<longrightarrow> i \<noteq> eid e"
    using assms [of i] that by (auto simp: match_ok_def nth_append split: option.splits)
  moreover have "match_ok (es @ [e]) (eid e) (Some (length es))" if "kind e = returnEntry"
    using that by (simp add: match_ok_def)
  ultimately show ?thesis by (cases "kind e") auto
qed

lemma node_ok_snoc: "a < length es \<Longrightarrow> node_ok (es @ [e]) nd a \<longleftrightarrow> node_ok es nd a"
  by (simp add: node_ok_def nth_append)

lemma node_ok_same_data: "same_data h h' \<Longrightarrow> a < length h \<Longrightarrow> node_ok es (h' ! a) a \<longleftrightarrow> node_ok es (h ! a) a"
  by (simp add: node_ok_def same_data_def)

lemma heap_ok_same_data: "same_data h h' \<Longrightarrow> heap_ok es h \<Longrightarrow> heap_ok es h'"
  by (auto simp: heap_ok_def node_ok_same_data) (simp add: same_data_def)

lemma list_ok_snoc:
  assumes "list_ok h root" and "nprev nd = None" and "nnext nd = None"
  shows "\<exists>h'. insertBefore (h @ [nd]) (Some (length h)) root = Some (h', Some (length h))
    \<and> list_ok h' (Some (length h)) \<and> same_data (h @ [nd]) h'"
proof (cases "h = []")
  case True
  with assms show ?thesis by (simp add: list_ok_def insertBefore_def linked_def)
next
  case False
  with assms have l: "linked h (length h - 1) (rev [0..<length h - 1])" "nprev (h ! (length h - 1)) = None"
    and root: "root = Some (length h - 1)" by (simp_all add: list_ok_def)
  from False have "(length h - 1) # rev [0..<length h - 1] = rev [0..<length h]"
    by (cases "length h") simp_all
  with insertBefore_linked [OF l assms(2)] root obtain h' where
    h': "insertBefore (h @ [nd]) (Some (length h)) root = Some (h', Some (length h))"
      "linked h' (length h) (rev [0..<length h])" "same_data (h @ [nd]) h'" "nprev (h' ! length h) = None" by auto
  then have "length h' = Suc (length h)" by (simp add: same_data_def)
  then have "list_ok h' (Some (length h))" using h'(2,4) by (auto simp add: list_ok_def simp del: upt_Suc)
  with h' show ?thesis by blast
qed

lemma makeLinked_loop_ok:
  assumes "heap_ok es h" and "list_ok h root" and "\<And>i. match_ok es i (match i)"
  shows "\<exists>h' root'. makeLinked_loop h root match rest = Some (h', root') \<and> heap_ok (es @ rest) h' \<and> list_ok h' root'"
  using assms
proof (induction rest arbitrary: es h root match)
  case Nil
  then show ?case by simp
next
  case (Cons e rest)
  let ?m = "if kind e = returnEntry then None else match (eid e)"
  let ?nd = "\<lparr>nvalue = evalue e, nmatch = ?m, nid = eid e, nnext = None, nprev = None\<rparr>"
  from list_ok_snoc [OF Cons.prems(2), of ?nd] obtain h' where
    h': "insertBefore (h @ [?nd]) (Some (length h)) root = Some (h', Some (length h))"
      "list_ok h' (Some (length h))" "same_data (h @ [?nd]) h'" by auto
  have len: "length h = length es" using Cons.prems(1) by (simp add: heap_ok_def)
  have "heap_ok (es @ [e]) (h @ [?nd])"
    using Cons.prems(1,3) by (auto simp: heap_ok_def nth_append less_Suc_eq node_ok_snoc) (simp_all add: node_ok_def)
  from Cons.IH [OF heap_ok_same_data [OF h'(3) this] h'(2) match_ok_snoc [OF Cons.prems(3)]]
  show ?case using h'(1) len by (cases "kind e") (simp_all add: Let_def fun_upd_def)
qed

lemma makeLinkedEntries_ok:
  "\<exists>h root. makeLinkedEntries H = Some (h, root) \<and> heap_ok (rev H) h \<and> list_ok h root"
  using makeLinked_loop_ok [of "[]" "[]" None "\<lambda>_. None" "rev H"]
  by (simp add: makeLinkedEntries_def heap_ok_def list_ok_def match_ok_def)

lemma length_loop_linked:
  "linked h p qs \<Longrightarrow> length_loop h (Some p) l = Some (l + length (p # qs))"
proof (induction qs arbitrary: p l)
  case Nil
  then show ?case by (subst length_loop.simps) (simp add: linked_def length_loop.simps [of _ None])
next
  case (Cons q qs)
  then have "linked h q qs" "nnext (h ! p) = Some q" "p < length h" by (auto simp: linked_def)
  with Cons.IH [of q "l + 1"] show ?case by (subst length_loop.simps) simp
qed

lemma length_nodes_ok: "list_ok h root \<Longrightarrow> length_nodes h root = Some (length h)"
  by (auto simp: list_ok_def length_nodes_def length_loop_linked length_loop.simps [of _ None] split: if_splits)

section \<open>Property\<close>

text \<open>
  (C7) \<open>lift\<close> of a call removes the call and its return from the doubly linked list and panics
  nowhere, also when the return is the last entry; \<open>unlift\<close> then restores every node of the heap
  exactly as it was, so that the search can backtrack.
\<close>

theorem lift_unlift_roundtrip:
  assumes "linked h p (as @ x # bs @ y # cs)" and "nmatch (h ! x) = Some y"
  shows "\<exists>h'. lift h (Some x) = Some h' \<and> linked h' p (as @ bs @ cs) \<and> same_data h h' \<and> unlift h' (Some x) = Some h"
  using lift_linked [OF assms] .

definition sample_heap :: "nat heap" where
  "sample_heap = [\<lparr>nvalue = None, nmatch = None, nid = -1, nnext = Some 1, nprev = None\<rparr>,
     \<lparr>nvalue = Some 7, nmatch = Some 2, nid = 0, nnext = Some 2, nprev = Some 0\<rparr>,
     \<lparr>nvalue = Some 8, nmatch = None, nid = 0, nnext = None, nprev = Some 1\<rparr>]"

theorem lift_unlift_roundtrip_witness:
  "\<exists>h'. lift sample_heap (Some 1) = Some h' \<and> linked h' 0 [] \<and> unlift h' (Some 1) = Some sample_heap"
proof -
  have "linked sample_heap 0 ([] @ 1 # [] @ 2 # [])" "nmatch (sample_heap ! 1) = Some 2"
    by (simp_all add: sample_heap_def linked_def)
  from lift_unlift_roundtrip [OF this] show ?thesis by auto
qed

end
