(* ===== verification/Linearizability.thy ===== *)
theory Linearizability
  imports History
begin

text \<open>
  The specification of the checker: when a list of entries is linearizable with respect to a
  model. Operation \<open>k\<close> of a history is the call entry and the return entry with id \<open>k\<close>;
  \<open>precedes\<close> is the real-time order of the operations. A linearization is an order of all
  operations that the model can execute and that respects the real-time order.
\<close>

section \<open>Well-formed histories\<close>

definition is_call :: "nat \<Rightarrow> 'v entry \<Rightarrow> bool" where
  "is_call k e \<longleftrightarrow> kind e = callEntry \<and> eid e = int k"

definition is_return :: "nat \<Rightarrow> 'v entry \<Rightarrow> bool" where
  "is_return k e \<longleftrightarrow> kind e = returnEntry \<and> eid e = int k"

definition call_pos :: "'v entry list \<Rightarrow> nat \<Rightarrow> nat" where
  "call_pos H k = the (find_index (is_call k) H)"

definition return_pos :: "'v entry list \<Rightarrow> nat \<Rightarrow> nat" where
  "return_pos H k = the (find_index (is_return k) H)"

definition num_ops :: "'v entry list \<Rightarrow> nat" where
  "num_ops H = length H div 2"

text \<open>
  A complete history of \<open>n\<close> operations: \<open>2n\<close> entries, and for each id below \<open>n\<close> a call and, after
  it, a return.
\<close>

definition wf_history :: "'v entry list \<Rightarrow> bool" where
  "wf_history H \<longleftrightarrow> length H = 2 * num_ops H \<and>
     list_all (\<lambda>k. case (find_index (is_call k) H, find_index (is_return k) H) of
       (Some i, Some j) \<Rightarrow> i < j | _ \<Rightarrow> False) [0..<num_ops H]"

definition op_at :: "'v entry list \<Rightarrow> nat \<Rightarrow> nat" where
  "op_at H i = nat (eid (H ! i))"

definition op_in :: "'v entry list \<Rightarrow> nat \<Rightarrow> 'v option" where
  "op_in H k = evalue (H ! call_pos H k)"

definition op_out :: "'v entry list \<Rightarrow> nat \<Rightarrow> 'v option" where
  "op_out H k = evalue (H ! return_pos H k)"

definition precedes :: "'v entry list \<Rightarrow> nat \<Rightarrow> nat \<Rightarrow> bool" where
  "precedes H i j \<longleftrightarrow> return_pos H i < call_pos H j"

lemma wf_history_pos:
  assumes "wf_history H" and "k < num_ops H"
  shows "call_pos H k < return_pos H k" and "return_pos H k < 2 * num_ops H"
    and "is_call k (H ! call_pos H k)" and "is_return k (H ! return_pos H k)"
proof -
  from assms have "case (find_index (is_call k) H, find_index (is_return k) H) of
      (Some i, Some j) \<Rightarrow> i < j | _ \<Rightarrow> False" and len: "length H = 2 * num_ops H"
    unfolding wf_history_def list_all_iff by auto
  then obtain i j where ij: "find_index (is_call k) H = Some i" "find_index (is_return k) H = Some j" "i < j"
    by (auto split: option.splits)
  with len show "call_pos H k < return_pos H k" and "return_pos H k < 2 * num_ops H"
    and "is_call k (H ! call_pos H k)" and "is_return k (H ! return_pos H k)"
    using find_index_SomeD [OF ij(1)] find_index_SomeD [OF ij(2)] by (auto simp: call_pos_def return_pos_def)
qed

text \<open>Counting: the \<open>2n\<close> positions are the calls and the returns, so every entry is one of them.\<close>

lemma wf_history_entries:
  assumes wf: "wf_history H" and i: "i < 2 * num_ops H"
  obtains k where "k < num_ops H" and "i = call_pos H k \<or> i = return_pos H k"
proof -
  let ?n = "num_ops H"
  let ?f = "\<lambda>(k, r). if r then return_pos H k else call_pos H k"
  note pos = wf_history_pos [OF wf]
  have "inj_on ?f ({..<?n} \<times> UNIV)"
  proof (rule inj_onI, clarsimp)
    fix k r k' r' assume k: "k < ?n" "k' < ?n"
      and eq: "(if r then return_pos H k else call_pos H k) = (if r' then return_pos H k' else call_pos H k')"
    have "is_return k (H ! (if r then return_pos H k else call_pos H k)) \<longleftrightarrow> r"
      "is_call k (H ! (if r then return_pos H k else call_pos H k)) \<longleftrightarrow> \<not> r"
      "is_return k' (H ! (if r' then return_pos H k' else call_pos H k')) \<longleftrightarrow> r'"
      "is_call k' (H ! (if r' then return_pos H k' else call_pos H k')) \<longleftrightarrow> \<not> r'"
      using pos(3,4) [OF k(1)] pos(3,4) [OF k(2)] by (auto simp: is_call_def is_return_def)
    with eq show "k = k' \<and> r = r'" by (cases r; cases r') (auto simp: is_call_def is_return_def)
  qed
  then have "card (?f ` ({..<?n} \<times> UNIV)) = 2 * ?n"
    by (simp add: card_image card_cartesian_product)
  moreover have "?f ` ({..<?n} \<times> UNIV) \<subseteq> {..<2 * ?n}"
    using pos(1,2) by (force split: if_splits)
  ultimately have "?f ` ({..<?n} \<times> UNIV) = {..<2 * ?n}"
    by (intro card_subset_eq) simp_all
  with i have "i \<in> ?f ` ({..<?n} \<times> UNIV)" by blast
  then show thesis using that by (auto split: if_splits)
qed

lemma op_at_call: "wf_history H \<Longrightarrow> k < num_ops H \<Longrightarrow> op_at H (call_pos H k) = k"
  and op_at_return: "wf_history H \<Longrightarrow> k < num_ops H \<Longrightarrow> op_at H (return_pos H k) = k"
  by (simp_all add: op_at_def wf_history_pos(3) [unfolded is_call_def] wf_history_pos(4) [unfolded is_return_def])

lemma op_at_less:
  assumes "wf_history H" and "i < 2 * num_ops H"
  shows "op_at H i < num_ops H"
  using assms wf_history_entries [OF assms] op_at_call op_at_return by metis

lemma eid_op_at:
  assumes "wf_history H" and "i < 2 * num_ops H"
  shows "eid (H ! i) = int (op_at H i)"
  using wf_history_entries [OF assms] wf_history_pos(3,4) [OF assms(1)]
  by (metis is_call_def is_return_def nat_int op_at_def)

lemma call_pos_op_at:
  assumes "wf_history H" and "i < 2 * num_ops H" and "kind (H ! i) = callEntry"
  shows "call_pos H (op_at H i) = i"
proof -
  obtain k where k: "k < num_ops H" "i = call_pos H k \<or> i = return_pos H k"
    using wf_history_entries [OF assms(1,2)] .
  with wf_history_pos(4) [OF assms(1)] assms(3) have "i = call_pos H k" by (auto simp: is_return_def)
  with k op_at_call [OF assms(1)] show ?thesis by simp
qed

lemma return_pos_op_at:
  assumes "wf_history H" and "i < 2 * num_ops H" and "kind (H ! i) = returnEntry"
  shows "return_pos H (op_at H i) = i"
proof -
  obtain k where k: "k < num_ops H" "i = call_pos H k \<or> i = return_pos H k"
    using wf_history_entries [OF assms(1,2)] .
  with wf_history_pos(3) [OF assms(1)] assms(3) have "i = return_pos H k" by (auto simp: is_call_def)
  with k op_at_return [OF assms(1)] show ?thesis by simp
qed

section \<open>Linearizations\<close>

text \<open>The state after the model has executed the operations of the list one after the other.\<close>

fun exec :: "('v, 's) Model \<Rightarrow> 'v entry list \<Rightarrow> 's \<Rightarrow> nat list \<Rightarrow> 's option" where
  "exec m H s [] = Some s"
| "exec m H s (k # ks) = (case Step m s (op_in H k) (op_out H k) of
     Some (True, s') \<Rightarrow> exec m H s' ks | _ \<Rightarrow> None)"

definition legal :: "('v, 's) Model \<Rightarrow> 'v entry list \<Rightarrow> 's \<Rightarrow> nat list \<Rightarrow> bool" where
  "legal m H s ks \<longleftrightarrow> exec m H s ks \<noteq> None"

lemma exec_snoc: "exec m H s ks = Some t \<Longrightarrow> Step m t (op_in H k) (op_out H k) = Some (True, t')
    \<Longrightarrow> exec m H s (ks @ [k]) = Some t'"
  by (induction ks arbitrary: s) (auto split: option.splits bool.splits)

lemma legal_Nil [simp]: "legal m H s []"
  by (simp add: legal_def)

lemma legal_Cons [simp]: "legal m H s (k # ks) \<longleftrightarrow>
    (\<exists>s'. Step m s (op_in H k) (op_out H k) = Some (True, s') \<and> legal m H s' ks)"
  by (auto simp: legal_def split: option.splits bool.splits)

definition respects_real_time :: "'v entry list \<Rightarrow> nat list \<Rightarrow> bool" where
  "respects_real_time H ks \<longleftrightarrow> sorted_wrt (\<lambda>a b. \<not> precedes H b a) ks"

definition completes :: "('v, 's) Model \<Rightarrow> 'v entry list \<Rightarrow> nat set \<Rightarrow> 's \<Rightarrow> nat list \<Rightarrow> bool" where
  "completes m H S s ks \<longleftrightarrow> distinct ks \<and> set ks = {..<num_ops H} - S \<and> respects_real_time H ks
     \<and> legal m H s ks"

definition linearizable :: "('v, 's) Model \<Rightarrow> 'v entry list \<Rightarrow> bool" where
  "linearizable m H \<longleftrightarrow> (\<exists>ks. completes m H {} (Init m) ks)"

text \<open>
  A linearizable prefix: some of the operations, closed under the real-time order, in a legal
  order.
\<close>

definition linear_prefix :: "('v, 's) Model \<Rightarrow> 'v entry list \<Rightarrow> nat list \<Rightarrow> bool" where
  "linear_prefix m H ks \<longleftrightarrow> distinct ks \<and> set ks \<subseteq> {..<num_ops H} \<and> respects_real_time H ks
     \<and> legal m H (Init m) ks \<and> (\<forall>k\<in>set ks. \<forall>j<num_ops H. precedes H j k \<longrightarrow> j \<in> set ks)"

section \<open>Searching for a linearization step by step\<close>

definition completable :: "('v, 's) Model \<Rightarrow> 'v entry list \<Rightarrow> nat set \<Rightarrow> 's \<Rightarrow> bool" where
  "completable m H S s \<longleftrightarrow> (\<exists>ks. completes m H S s ks)"

text \<open>The operations that may come next: no other open operation has returned before their call.\<close>

definition candidate :: "'v entry list \<Rightarrow> nat set \<Rightarrow> nat \<Rightarrow> bool" where
  "candidate H S k \<longleftrightarrow> k < num_ops H \<and> k \<notin> S \<and> (\<forall>j<num_ops H. j \<notin> S \<longrightarrow> \<not> precedes H j k)"

lemma linearizable_iff_completable: "linearizable m H \<longleftrightarrow> completable m H {} (Init m)"
  by (simp add: linearizable_def completable_def)

lemma completable_all: "completable m H {..<num_ops H} s"
  unfolding completable_def completes_def by (rule exI [of _ "[]"]) (simp add: respects_real_time_def)

lemma completable_candidate:
  assumes "completable m H S s" and "k0 < num_ops H" and "k0 \<notin> S" and "\<And>k. k < num_ops H \<Longrightarrow> \<not> precedes H k k"
  obtains k s' where "candidate H S k" and "Step m s (op_in H k) (op_out H k) = Some (True, s')"
    and "completable m H (insert k S) s'"
proof -
  from assms(1) obtain ks where ks: "completes m H S s ks" by (auto simp: completable_def)
  with assms(2,3) obtain k ks' where eq: "ks = k # ks'" by (cases ks) (auto simp: completes_def)
  from ks eq obtain s' where s': "Step m s (op_in H k) (op_out H k) = Some (True, s')" "legal m H s' ks'"
    by (auto simp: completes_def)
  have mem: "j \<in> insert k (set ks') \<longleftrightarrow> j < num_ops H \<and> j \<notin> S" for j
    using ks eq by (auto simp: completes_def)
  have "\<not> precedes H j k" if "j \<in> insert k (set ks')" for j
    using that ks eq mem [of k] assms(4) by (auto simp: completes_def respects_real_time_def)
  then have "candidate H S k" using mem by (auto simp: candidate_def)
  moreover have "completes m H (insert k S) s' ks'"
    using ks eq s' by (auto simp: completes_def respects_real_time_def)
  ultimately show thesis using that s' by (auto simp: completable_def)
qed

lemma completable_step:
  assumes "candidate H S k" and "Step m s (op_in H k) (op_out H k) = Some (True, s')"
    and "completable m H (insert k S) s'"
  shows "completable m H S s"
proof -
  from assms(3) obtain ks where "completes m H (insert k S) s' ks" by (auto simp: completable_def)
  with assms(1,2) have "completes m H S s (k # ks)"
    by (auto simp: completes_def candidate_def respects_real_time_def)
  then show ?thesis by (auto simp: completable_def)
qed

section \<open>What the checker needs of a model\<close>

text \<open>
  \<open>Step\<close> does not panic on the values of the history, and \<open>Equal\<close>, which the cache uses to
  identify states, is an equivalence that \<open>Step\<close> cannot tell apart.
\<close>

definition step_total :: "('v, 's) Model \<Rightarrow> 'v entry list \<Rightarrow> bool" where
  "step_total m H \<longleftrightarrow> (\<forall>s. \<forall>k<num_ops H. Step m s (op_in H k) (op_out H k) \<noteq> None)"

locale checkable_model =
  fixes m :: "('v, 's) Model" and eq :: "'s \<Rightarrow> 's \<Rightarrow> bool"
  assumes equal: "Equal m = Some eq"
    and eq_equiv: "equivp eq"
    and eq_step: "eq s t \<Longrightarrow> Step m s i out = Some (b, s') \<Longrightarrow> \<exists>t'. Step m t i out = Some (b, t') \<and> (b \<longrightarrow> eq s' t')"
begin

lemma eq_legal: "eq s t \<Longrightarrow> legal m H s ks \<Longrightarrow> legal m H t ks"
proof (induction ks arbitrary: s t)
  case (Cons k ks)
  from Cons.prems(2) obtain s' where s': "Step m s (op_in H k) (op_out H k) = Some (True, s')" "legal m H s' ks"
    by auto
  with eq_step [OF Cons.prems(1) s'(1)] Cons.IH show ?case by auto
qed simp

lemma eq_completable: "eq s t \<Longrightarrow> completable m H S s \<Longrightarrow> completable m H S t"
  unfolding completable_def completes_def using eq_legal by blast

lemma eq_sym: "eq s t \<Longrightarrow> eq t s"
  using eq_equiv by (rule equivp_symp)

lemma eq_completable_iff: "eq s t \<Longrightarrow> completable m H S s \<longleftrightarrow> completable m H S t"
  using eq_completable eq_sym by blast

end

text \<open>Every model whose states are compared with \<open>ShallowEqual\<close> is one: \<open>fillDefault\<close> makes it so.\<close>

lemma ShallowEqual_checkable: "Equal m = Some ShallowEqual \<Longrightarrow> checkable_model m ShallowEqual"
  by unfold_locales (auto simp: ShallowEqual_def intro!: equivpI reflpI sympI transpI)

end
