(* ===== verification/WingGong.thy ===== *)
theory WingGong
  imports Linearizability
begin

text \<open>
  The search of \<open>checkSingle\<close> on an abstract state: a position in the history, the current model
  state, the stack of linearized operations (last one first) with the states they were applied
  to, and the set of configurations seen. Positions of linearized operations are skipped. It is
  proved here that the search keeps its invariant, that it fails only when there is no
  linearization, succeeds only when there is one, and that each step decreases a measure. The
  detailed code, with its heap, bitsets and hash table, is shown to follow it in another theory.
\<close>

section \<open>The abstract search\<close>

record 's wgl =
  wpos :: nat
  wstate :: 's
  wstack :: "(nat \<times> 's) list"
  wseen :: "(nat set \<times> 's) set"

definition ids :: "(nat \<times> 's) list \<Rightarrow> nat set" where
  "ids stk = set (map fst stk)"

definition live :: "'v entry list \<Rightarrow> nat set \<Rightarrow> nat \<Rightarrow> nat list" where
  "live H S i = filter (\<lambda>j. op_at H j \<notin> S) [i..<2 * num_ops H]"

definition first_live :: "'v entry list \<Rightarrow> nat set \<Rightarrow> nat \<Rightarrow> nat" where
  "first_live H S i = (case live H S i of [] \<Rightarrow> 2 * num_ops H | j # _ \<Rightarrow> j)"

definition seen_in :: "('s \<Rightarrow> 's \<Rightarrow> bool) \<Rightarrow> (nat set \<times> 's) set \<Rightarrow> nat set \<Rightarrow> 's \<Rightarrow> bool" where
  "seen_in eq seen S s \<longleftrightarrow> (\<exists>s'. (S, s') \<in> seen \<and> eq s s')"

definition wgl_advance :: "'v entry list \<Rightarrow> 's wgl \<Rightarrow> 's wgl" where
  "wgl_advance H w = w\<lparr>wpos := first_live H (ids (wstack w)) (Suc (wpos w))\<rparr>"

definition wgl_push :: "'v entry list \<Rightarrow> nat \<Rightarrow> 's \<Rightarrow> 's wgl \<Rightarrow> 's wgl" where
  "wgl_push H k s' w = \<lparr>wpos = first_live H (insert k (ids (wstack w))) 0, wstate = s',
     wstack = (k, wstate w) # wstack w, wseen = insert (insert k (ids (wstack w)), s') (wseen w)\<rparr>"

definition wgl_pop :: "'v entry list \<Rightarrow> nat \<Rightarrow> 's \<Rightarrow> (nat \<times> 's) list \<Rightarrow> 's wgl \<Rightarrow> 's wgl" where
  "wgl_pop H k s stk w = \<lparr>wpos = first_live H (ids stk) (Suc (call_pos H k)), wstate = s,
     wstack = stk, wseen = wseen w\<rparr>"

definition wgl_step :: "('v, 's) Model \<Rightarrow> ('s \<Rightarrow> 's \<Rightarrow> bool) \<Rightarrow> 'v entry list \<Rightarrow> 's wgl \<Rightarrow> 's wgl option" where
  "wgl_step m eq H w = (if kind (H ! wpos w) = callEntry then
       (let k = op_at H (wpos w) in
        case Step m (wstate w) (op_in H k) (op_out H k) of
          Some (True, s') \<Rightarrow> Some (if seen_in eq (wseen w) (insert k (ids (wstack w))) s' then wgl_advance H w
                                 else wgl_push H k s' w)
        | _ \<Rightarrow> Some (wgl_advance H w))
     else case wstack w of [] \<Rightarrow> None | (k, s) # stk \<Rightarrow> Some (wgl_pop H k s stk w))"

definition wgl_start :: "('v, 's) Model \<Rightarrow> 's wgl" where
  "wgl_start m = \<lparr>wpos = 0, wstate = Init m, wstack = [], wseen = {}\<rparr>"

section \<open>Live positions\<close>

lemma ids_simps [simp]: "ids [] = {}" "ids ((k, s) # stk) = insert k (ids stk)"
  by (simp_all add: ids_def)

lemma live_set: "set (live H S i) = {j. i \<le> j \<and> j < 2 * num_ops H \<and> op_at H j \<notin> S}"
  by (auto simp: live_def)

lemma live_Cons: "i < 2 * num_ops H \<Longrightarrow> op_at H i \<notin> S \<Longrightarrow> live H S i = i # live H S (Suc i)"
  by (simp add: live_def upt_conv_Cons)

lemma live_split: "i \<le> 2 * num_ops H \<Longrightarrow> live H S 0 = filter (\<lambda>j. op_at H j \<notin> S) [0..<i] @ live H S i"
  using upt_add_eq_append [of 0 i "2 * num_ops H - i"] by (simp add: live_def flip: filter_append)

lemma first_live_Cons: "live H S i = j # js \<Longrightarrow> first_live H S i = j \<and> js = live H S (Suc j)"
proof (induction "2 * num_ops H - i" arbitrary: i)
  case 0
  then show ?case by (simp add: live_def)
next
  case (Suc d)
  then have i: "i < 2 * num_ops H" by simp
  show ?case
  proof (cases "op_at H i \<in> S")
    case True
    with i have "live H S i = live H S (Suc i)" by (simp add: live_def upt_conv_Cons)
    with Suc.hyps(1) [of "Suc i"] Suc.hyps(2) Suc.prems show ?thesis by (simp add: first_live_def)
  next
    case False
    with i have "live H S i = i # live H S (Suc i)" by (simp add: live_Cons)
    with Suc.prems show ?thesis by (auto simp: first_live_def)
  qed
qed

lemma first_live:
  assumes "j \<in> set (live H S i)"
  shows "first_live H S i \<in> set (live H S i)" and "first_live H S i \<le> j"
proof -
  from assms obtain a as where l: "live H S i = a # as" by (cases "live H S i") auto
  have "sorted (live H S i)" unfolding live_def by (intro sorted_wrt_filter) simp
  with assms l show "first_live H S i \<in> set (live H S i)" "first_live H S i \<le> j"
    by (auto simp: first_live_def)
qed

lemma first_live_before: "i \<le> j \<Longrightarrow> j < first_live H S i \<Longrightarrow> j < 2 * num_ops H \<Longrightarrow> op_at H j \<in> S"
  using first_live(2) [of j H S i] by (force simp: live_set)

lemma first_live_le: "first_live H S i \<le> 2 * num_ops H"
proof (cases "live H S i")
  case (Cons j js)
  then have "j \<in> set (live H S i)" by simp
  then have "j < 2 * num_ops H" unfolding live_set by simp
  with Cons show ?thesis by (simp add: first_live_def)
qed (simp add: first_live_def)

section \<open>The invariant\<close>

definition refuted :: "('v, 's) Model \<Rightarrow> ('s \<Rightarrow> 's \<Rightarrow> bool) \<Rightarrow> 'v entry list \<Rightarrow> (nat set \<times> 's) set
    \<Rightarrow> nat set \<Rightarrow> 's \<Rightarrow> nat \<Rightarrow> bool" where
  "refuted m eq H seen S s k \<longleftrightarrow>
     (\<forall>s'. Step m s (op_in H k) (op_out H k) = Some (True, s') \<longrightarrow> seen_in eq seen (insert k S) s')"

definition explored :: "('v, 's) Model \<Rightarrow> ('s \<Rightarrow> 's \<Rightarrow> bool) \<Rightarrow> 'v entry list \<Rightarrow> (nat set \<times> 's) set
    \<Rightarrow> nat set \<Rightarrow> 's \<Rightarrow> nat \<Rightarrow> bool" where
  "explored m eq H seen S s p \<longleftrightarrow> (\<forall>i<p. op_at H i \<notin> S \<longrightarrow>
     kind (H ! i) = callEntry \<and> refuted m eq H seen S s (op_at H i))"

fun frames_ok :: "('v, 's) Model \<Rightarrow> ('s \<Rightarrow> 's \<Rightarrow> bool) \<Rightarrow> 'v entry list \<Rightarrow> (nat set \<times> 's) set
    \<Rightarrow> (nat \<times> 's) list \<Rightarrow> 's \<Rightarrow> bool" where
  "frames_ok m eq H seen [] s' \<longleftrightarrow> s' = Init m"
| "frames_ok m eq H seen ((k, s) # stk) s' \<longleftrightarrow> k < num_ops H \<and> k \<notin> ids stk
     \<and> Step m s (op_in H k) (op_out H k) = Some (True, s') \<and> (insert k (ids stk), s') \<in> seen
     \<and> explored m eq H seen (ids stk) s (call_pos H k) \<and> frames_ok m eq H seen stk s"

fun levels :: "(nat \<times> 's) list \<Rightarrow> 's \<Rightarrow> (nat set \<times> 's) set" where
  "levels [] s' = {({}, s')}"
| "levels ((k, s) # stk) s' = insert (insert k (ids stk), s') (levels stk s)"

definition dead_or_open :: "('v, 's) Model \<Rightarrow> 'v entry list \<Rightarrow> 's wgl \<Rightarrow> bool" where
  "dead_or_open m H w \<longleftrightarrow> (\<forall>(S, s)\<in>wseen w. \<not> completable m H S s \<or> (S, s) \<in> levels (wstack w) (wstate w))"

definition wgl_inv :: "('v, 's) Model \<Rightarrow> ('s \<Rightarrow> 's \<Rightarrow> bool) \<Rightarrow> 'v entry list \<Rightarrow> 's wgl \<Rightarrow> bool" where
  "wgl_inv m eq H w \<longleftrightarrow> frames_ok m eq H (wseen w) (wstack w) (wstate w)
     \<and> explored m eq H (wseen w) (ids (wstack w)) (wstate w) (wpos w)
     \<and> first_live H (ids (wstack w)) (wpos w) = wpos w
     \<and> dead_or_open m H w"

lemma seen_in_mono: "seen \<subseteq> seen' \<Longrightarrow> seen_in eq seen S s \<Longrightarrow> seen_in eq seen' S s"
  by (auto simp: seen_in_def)

lemma explored_mono: "seen \<subseteq> seen' \<Longrightarrow> explored m eq H seen S s p \<Longrightarrow> explored m eq H seen' S s p"
  using seen_in_mono [of seen seen' eq] by (auto simp: explored_def refuted_def)

lemma frames_ok_mono: "seen \<subseteq> seen' \<Longrightarrow> frames_ok m eq H seen stk s \<Longrightarrow> frames_ok m eq H seen' stk s"
  by (induction stk arbitrary: s) (auto dest: explored_mono)

lemma levels_ids: "(S, t) \<in> levels stk s \<Longrightarrow> S \<subseteq> ids stk"
proof (induction stk s rule: levels.induct)
  case (2 k s stk s')
  then show ?case by (cases "(S, t) \<in> levels stk s") auto
qed simp

lemma levels_top: "(ids stk, s) \<in> levels stk s"
  by (cases stk) auto

lemma frames_ids: "frames_ok m eq H seen stk s \<Longrightarrow> ids stk \<subseteq> {..<num_ops H} \<and> distinct (map fst stk)"
proof (induction m eq H seen stk s rule: frames_ok.induct)
  case (2 m eq H seen k s stk s')
  then show ?case by (simp add: ids_def)
qed simp

lemma frames_depth: "frames_ok m eq H seen stk s \<Longrightarrow> length stk \<le> num_ops H"
proof -
  assume "frames_ok m eq H seen stk s"
  from frames_ids [OF this] have "distinct (map fst stk)" "set (map fst stk) \<subseteq> {..<num_ops H}"
    by (simp_all add: ids_def)
  then show ?thesis using distinct_card [of "map fst stk"] card_mono [of "{..<num_ops H}" "set (map fst stk)"]
    by simp
qed

text \<open>Every explored position is of a call, so the next live call is a candidate.\<close>

lemma explored_candidate:
  assumes wf: "wf_history H" and k: "k < num_ops H" "k \<notin> S"
    and e: "explored m eq H seen S s (call_pos H k)"
  shows "candidate H S k"
proof -
  have "\<not> precedes H j k" if "j < num_ops H" "j \<notin> S" for j
  proof
    assume "precedes H j k"
    then have "return_pos H j < call_pos H k" by (simp add: precedes_def)
    with e that wf have "kind (H ! return_pos H j) = callEntry" by (auto simp: explored_def op_at_return)
    then show False using wf_history_pos(4) [OF wf that(1)] by (simp add: is_return_def)
  qed
  with k show ?thesis by (simp add: candidate_def)
qed

lemma explored_first_live:
  "explored m eq H seen S s p \<Longrightarrow> explored m eq H seen S s (first_live H S p)"
  unfolding explored_def using first_live_before [of p _ H S] first_live_le [of H S p]
  by (metis leI order.strict_trans2)

lemma explored_Suc:
  assumes "explored m eq H seen S s p" and "kind (H ! p) = callEntry" and "refuted m eq H seen S s (op_at H p)"
  shows "explored m eq H seen S s (first_live H S (Suc p))"
  using assms by (intro explored_first_live) (auto simp: explored_def less_Suc_eq)

lemma first_live_idem [simp]: "first_live H S (first_live H S i) = first_live H S i"
proof (cases "live H S i")
  case Nil
  then show ?thesis by (simp add: first_live_def live_def)
next
  case (Cons j js)
  then have "j \<in> set (live H S i)" by simp
  then have "live H S j = j # live H S (Suc j)" by (intro live_Cons) (auto simp: live_set)
  with Cons show ?thesis by (simp add: first_live_def)
qed

section \<open>Dead ends\<close>

text \<open>
  When the search stands at a return, no operation can come next: each candidate was tried, and
  its configuration is one that has no completion.
\<close>

lemma pos_live:
  assumes "first_live H S p = p" and "p < 2 * num_ops H"
  shows "op_at H p \<notin> S" and "live H S p = p # live H S (Suc p)"
proof -
  from assms have "p \<in> set (live H S p)"
    by (cases "live H S p") (auto simp: first_live_def)
  then show "op_at H p \<notin> S" by (simp add: live_set)
  with assms(2) show "live H S p = p # live H S (Suc p)" by (simp add: live_Cons)
qed

text \<open>After a live call there is its return.\<close>

lemma next_live:
  assumes wf: "wf_history H" and k: "k < num_ops H" "k \<notin> S"
  shows "first_live H S (Suc (call_pos H k)) < 2 * num_ops H"
    and "call_pos H k < first_live H S (Suc (call_pos H k))"
proof -
  note pos = wf_history_pos [OF wf k(1)]
  have "return_pos H k \<in> set (live H S (Suc (call_pos H k)))"
    using pos k op_at_return [OF wf k(1)] by (simp add: live_set)
  from first_live(1) [OF this] show "first_live H S (Suc (call_pos H k)) < 2 * num_ops H"
    and "call_pos H k < first_live H S (Suc (call_pos H k))" by (auto simp: live_set)
qed

context checkable_model
begin

lemma eq_refl: "eq s s"
  using eq_equiv by (rule equivp_reflp)

lemma explored_dead:
  assumes wf: "wf_history H" and inv: "wgl_inv m eq H w"
    and p: "wpos w < 2 * num_ops H" and ret: "kind (H ! wpos w) = returnEntry"
  shows "\<not> completable m H (ids (wstack w)) (wstate w)"
proof
  let ?S = "ids (wstack w)"
  assume c: "completable m H ?S (wstate w)"
  define j where "j = op_at H (wpos w)"
  have live: "wpos w \<in> set (live H ?S (wpos w))"
    using inv p by (cases "live H ?S (wpos w)") (auto simp: wgl_inv_def first_live_def)
  then have j: "j < num_ops H" "j \<notin> ?S" "return_pos H j = wpos w"
    using op_at_less [OF wf p] return_pos_op_at [OF wf p ret] by (auto simp: j_def live_set)
  have irrefl: "\<not> precedes H k k" if "k < num_ops H" for k
    using wf_history_pos(1) [OF wf that] by (simp add: precedes_def)
  obtain k s' where k: "candidate H ?S k" "Step m (wstate w) (op_in H k) (op_out H k) = Some (True, s')"
    "completable m H (insert k ?S) s'"
    using completable_candidate [OF c j(1,2) irrefl] .
  have kn: "k < num_ops H" "k \<notin> ?S" "\<not> precedes H j k" using k(1) j by (auto simp: candidate_def)
  have "call_pos H k \<noteq> wpos w"
    using wf_history_pos(3) [OF wf kn(1)] ret by (auto simp: is_call_def)
  with kn j(3) have "call_pos H k < wpos w" by (simp add: precedes_def)
  with inv kn wf have "refuted m eq H (wseen w) ?S (wstate w) k"
    by (auto simp: wgl_inv_def explored_def op_at_call)
  with k(2) have "seen_in eq (wseen w) (insert k ?S) s'" unfolding refuted_def by blast
  then obtain t where t: "(insert k ?S, t) \<in> wseen w" "eq s' t" unfolding seen_in_def by blast
  have "completable m H (insert k ?S) t" by (rule eq_completable [OF t(2) k(3)])
  moreover have "dead_or_open m H w" using inv by (simp only: wgl_inv_def)
  ultimately have "(insert k ?S, t) \<in> levels (wstack w) (wstate w)"
    using t(1) unfolding dead_or_open_def by blast
  from levels_ids [OF this] kn(2) show False by blast
qed

lemma wgl_start_inv: "wgl_inv m eq H (wgl_start m)"
proof -
  have "first_live H {} 0 = 0" by (cases "num_ops H = 0") (simp_all add: first_live_def live_def upt_conv_Cons)
  then show ?thesis by (simp add: wgl_inv_def wgl_start_def explored_def dead_or_open_def)
qed

lemma wgl_advance_inv:
  assumes "wgl_inv m eq H w" and "kind (H ! wpos w) = callEntry"
    and "refuted m eq H (wseen w) (ids (wstack w)) (wstate w) (op_at H (wpos w))"
  shows "wgl_inv m eq H (wgl_advance H w)"
proof -
  have "explored m eq H (wseen w) (ids (wstack w)) (wstate w) (wpos w)" using assms(1) by (simp add: wgl_inv_def)
  from explored_Suc [OF this assms(2,3)] assms(1) show ?thesis
    by (simp add: wgl_inv_def wgl_advance_def dead_or_open_def)
qed

lemma wgl_push_inv:
  assumes wf: "wf_history H" and inv: "wgl_inv m eq H w" and p: "wpos w < 2 * num_ops H"
    and call: "kind (H ! wpos w) = callEntry" and k: "k = op_at H (wpos w)"
    and s': "Step m (wstate w) (op_in H k) (op_out H k) = Some (True, s')"
  shows "wgl_inv m eq H (wgl_push H k s' w)"
proof -
  let ?S = "ids (wstack w)" and ?seen = "wseen (wgl_push H k s' w)"
  have mono: "wseen w \<subseteq> ?seen" by (auto simp: wgl_push_def)
  have kn: "k < num_ops H" "k \<notin> ?S" "call_pos H k = wpos w"
    using op_at_less [OF wf p] pos_live(1) [OF _ p] call_pos_op_at [OF wf p call] inv
    by (simp_all add: k wgl_inv_def)
  have "frames_ok m eq H (wseen w) (wstack w) (wstate w)"
    and "explored m eq H (wseen w) ?S (wstate w) (call_pos H k)"
    using inv by (simp_all add: wgl_inv_def kn)
  from frames_ok_mono [OF mono this(1)] explored_mono [OF mono this(2)]
  have "frames_ok m eq H ?seen ((k, wstate w) # wstack w) s'" using kn s' by (simp add: wgl_push_def)
  moreover have "explored m eq H ?seen (insert k ?S) s' (first_live H (insert k ?S) 0)"
    by (rule explored_first_live) (simp add: explored_def)
  moreover have "dead_or_open m H (wgl_push H k s' w)"
    using inv by (auto simp: wgl_inv_def dead_or_open_def wgl_push_def)
  ultimately show ?thesis by (simp add: wgl_inv_def wgl_push_def)
qed

lemma wgl_pop_inv:
  assumes wf: "wf_history H" and inv: "wgl_inv m eq H w" and p: "wpos w < 2 * num_ops H"
    and ret: "kind (H ! wpos w) = returnEntry" and stk: "wstack w = (k, s) # stk"
  shows "wgl_inv m eq H (wgl_pop H k s stk w)"
proof -
  let ?S = "ids stk"
  have fr: "k < num_ops H" "k \<notin> ?S" "Step m s (op_in H k) (op_out H k) = Some (True, wstate w)"
    "(insert k ?S, wstate w) \<in> wseen w" "explored m eq H (wseen w) ?S s (call_pos H k)"
    "frames_ok m eq H (wseen w) stk s"
    using inv by (simp_all add: wgl_inv_def stk)
  have call: "kind (H ! call_pos H k) = callEntry" "op_at H (call_pos H k) = k"
    using wf_history_pos(3) [OF wf fr(1)] op_at_call [OF wf fr(1)] by (simp_all add: is_call_def)
  have "refuted m eq H (wseen w) ?S s k"
    using fr(3,4) eq_refl by (auto simp: refuted_def seen_in_def)
  then have "explored m eq H (wseen w) ?S s (first_live H ?S (Suc (call_pos H k)))"
    using explored_Suc [OF fr(5)] call by simp
  moreover have "dead_or_open m H (wgl_pop H k s stk w)"
  proof -
    have "\<not> completable m H (insert k ?S) (wstate w)"
      using explored_dead [OF wf inv p ret] by (simp add: stk)
    then show ?thesis using inv by (auto simp: wgl_inv_def dead_or_open_def wgl_pop_def stk)
  qed
  ultimately show ?thesis using fr(6) by (simp add: wgl_inv_def wgl_pop_def)
qed

text \<open>One step of the search keeps the invariant; where there is none, there is no linearization.\<close>

lemma wgl_step_inv:
  assumes wf: "wf_history H" and inv: "wgl_inv m eq H w" and p: "wpos w < 2 * num_ops H"
    and step: "wgl_step m eq H w = Some w'"
  shows "wgl_inv m eq H w'"
proof (cases "kind (H ! wpos w)")
  case callEntry
  let ?k = "op_at H (wpos w)"
  show ?thesis
  proof (cases "refuted m eq H (wseen w) (ids (wstack w)) (wstate w) ?k")
    case True
    with callEntry step have "w' = wgl_advance H w"
      by (auto simp: wgl_step_def Let_def refuted_def split: option.splits prod.splits bool.splits if_splits)
    with wgl_advance_inv [OF inv callEntry True] show ?thesis by simp
  next
    case False
    then obtain s' where s': "Step m (wstate w) (op_in H ?k) (op_out H ?k) = Some (True, s')"
      "\<not> seen_in eq (wseen w) (insert ?k (ids (wstack w))) s'" by (auto simp: refuted_def)
    with callEntry step have "w' = wgl_push H ?k s' w" by (simp add: wgl_step_def)
    with wgl_push_inv [OF wf inv p callEntry refl s'(1)] show ?thesis by simp
  qed
next
  case returnEntry
  with step obtain k s stk where "wstack w = (k, s) # stk" "w' = wgl_pop H k s stk w"
    by (auto simp: wgl_step_def split: list.splits)
  with wgl_pop_inv [OF wf inv p returnEntry] show ?thesis by simp
qed

lemma wgl_fail:
  assumes wf: "wf_history H" and inv: "wgl_inv m eq H w" and p: "wpos w < 2 * num_ops H"
    and step: "wgl_step m eq H w = None"
  shows "\<not> linearizable m H"
proof -
  from step have ret: "kind (H ! wpos w) = returnEntry" "wstack w = []"
    by (auto simp: wgl_step_def Let_def split: list.splits if_splits option.splits prod.splits bool.splits intro: entryKind.exhaust)
  then have "wstate w = Init m" using inv by (simp add: wgl_inv_def)
  with explored_dead [OF wf inv p ret(1)] ret(2) show ?thesis by (simp add: linearizable_iff_completable)
qed

lemma frames_completable:
  assumes wf: "wf_history H"
  shows "frames_ok m eq H seen stk s \<Longrightarrow> completable m H (ids stk) s \<Longrightarrow> linearizable m H"
proof (induction stk arbitrary: s)
  case (Cons ks stk)
  obtain k t where ks: "ks = (k, t)" by (cases ks)
  with Cons.prems(1) have "candidate H (ids stk) k" using explored_candidate [OF wf] by auto
  from completable_step [OF this, of m t s] Cons.prems ks have "completable m H (ids stk) t" by simp
  with Cons.IH [of t] Cons.prems(1) ks show ?case by simp
qed (simp add: linearizable_iff_completable)

lemma wgl_done:
  assumes wf: "wf_history H" and inv: "wgl_inv m eq H w" and d: "live H (ids (wstack w)) 0 = []"
  shows "linearizable m H" and "ids (wstack w) = {..<num_ops H}"
proof -
  have fr: "frames_ok m eq H (wseen w) (wstack w) (wstate w)" using inv by (simp add: wgl_inv_def)
  have "k \<in> ids (wstack w)" if k: "k < num_ops H" for k
  proof -
    have "call_pos H k < 2 * num_ops H" using wf_history_pos(1,2) [OF wf k] by simp
    moreover have "call_pos H k \<notin> set (live H (ids (wstack w)) 0)" using d by simp
    ultimately show ?thesis unfolding live_set using op_at_call [OF wf k] by simp
  qed
  then show all: "ids (wstack w) = {..<num_ops H}" using frames_ids [OF fr] by auto
  show "linearizable m H" by (rule frames_completable [OF wf fr]) (simp add: all completable_all)
qed

text \<open>The stack is at any time a linearizable prefix that ends in the current state.\<close>

lemma frames_prefix:
  assumes wf: "wf_history H"
  shows "frames_ok m eq H seen stk s \<Longrightarrow>
    exec m H (Init m) (rev (map fst stk)) = Some s \<and> linear_prefix m H (rev (map fst stk))"
proof (induction stk arbitrary: s)
  case (Cons ks stk)
  obtain k t where ks: "ks = (k, t)" by (cases ks)
  with Cons.prems have c: "candidate H (ids stk) k" and fr: "frames_ok m eq H seen stk t"
    and k: "k < num_ops H" "k \<notin> ids stk" and st: "Step m t (op_in H k) (op_out H k) = Some (True, s)"
    using explored_candidate [OF wf] by auto
  note IH = Cons.IH [OF fr]
  then have "exec m H (Init m) (rev (map fst stk) @ [k]) = Some s" using exec_snoc [OF _ st] by blast
  moreover have "respects_real_time H (rev (map fst stk) @ [k])"
  proof -
    have "\<not> precedes H k a" if "a \<in> ids stk" for a
      using IH k that unfolding linear_prefix_def ids_def by auto
    then show ?thesis using IH by (auto simp: linear_prefix_def respects_real_time_def sorted_wrt_append ids_def)
  qed
  moreover have "j \<in> insert k (ids stk)" if "j < num_ops H" "precedes H j a" "a \<in> insert k (ids stk)" for j a
    using IH c that by (auto simp: linear_prefix_def candidate_def ids_def)
  ultimately show ?case
    using IH k by (auto simp: linear_prefix_def legal_def ks ids_def)
qed (simp add: linear_prefix_def respects_real_time_def)

end

section \<open>Termination\<close>

text \<open>
  A number in base \<open>2n + 2\<close> with one digit per level of the stack: how many positions of that
  level are left.
\<close>

fun wgl_weight :: "'v entry list \<Rightarrow> (nat \<times> 's) list \<Rightarrow> nat" where
  "wgl_weight H [] = 0"
| "wgl_weight H ((k, s) # stk) = wgl_weight H stk * (2 * num_ops H + 2) + (2 * num_ops H - call_pos H k)"

definition place :: "nat \<Rightarrow> nat \<Rightarrow> nat \<Rightarrow> nat \<Rightarrow> nat" where
  "place N x p d = (x * (N + 2) + (N + 1 - p)) * (N + 2) ^ d"

definition wgl_measure :: "'v entry list \<Rightarrow> 's wgl \<Rightarrow> nat" where
  "wgl_measure H w = place (2 * num_ops H) (wgl_weight H (wstack w)) (wpos w) (num_ops H - length (wstack w))"

lemma advance_measure: "p < q \<Longrightarrow> p \<le> N \<Longrightarrow> place N x q d < place N x p d"
  by (simp add: place_def)

lemma push_measure:
  assumes "p < N"
  shows "place N (x * (N + 2) + (N - p)) q d < place N x p (Suc d)"
proof -
  let ?y = "x * (N + 2)"
  have "(?y + (N - p)) * (N + 2) + (N + 1 - q) < (?y + (N - p)) * (N + 2) + (N + 2)" by simp
  also have "\<dots> = (?y + (N - p) + 1) * (N + 2)" by simp
  also have "?y + (N - p) + 1 = ?y + (N + 1 - p)" using assms by simp
  finally have "((?y + (N - p)) * (N + 2) + (N + 1 - q)) * (N + 2) ^ d < (?y + (N + 1 - p)) * (N + 2) * (N + 2) ^ d"
    by (rule mult_strict_right_mono) simp
  then show ?thesis by (simp only: place_def power_Suc mult.assoc)
qed

lemma pop_measure:
  assumes "p < q" and "r \<le> N"
  shows "place N x q (Suc d) < place N (x * (N + 2) + (N - p)) r d"
proof -
  let ?y = "x * (N + 2)"
  have "N + 1 - q \<le> N - p" using assms(1) by simp
  then have "(?y + (N + 1 - q)) * (N + 2) \<le> (?y + (N - p)) * (N + 2)" by (intro mult_le_mono1 add_left_mono)
  also have "\<dots> < (?y + (N - p)) * (N + 2) + (N + 1 - r)" using assms(2) by simp
  finally have "(?y + (N + 1 - q)) * (N + 2) * (N + 2) ^ d < ((?y + (N - p)) * (N + 2) + (N + 1 - r)) * (N + 2) ^ d"
    by (rule mult_strict_right_mono) simp
  then show ?thesis by (simp only: place_def power_Suc mult.assoc)
qed

lemma wgl_step_decreases:
  assumes wf: "wf_history H" and inv: "wgl_inv m eq H w" and p: "wpos w < 2 * num_ops H"
    and step: "wgl_step m eq H w = Some w'"
  shows "wgl_measure H w' < wgl_measure H w"
proof (cases "kind (H ! wpos w)")
  case callEntry
  define k where "k = op_at H (wpos w)"
  let ?S = "ids (wstack w)"
  have k: "k < num_ops H" "k \<notin> ?S" "call_pos H k = wpos w"
    using op_at_less [OF wf p] pos_live(1) [OF _ p] call_pos_op_at [OF wf p callEntry] inv
    by (simp_all add: k_def wgl_inv_def)
  from callEntry step consider "w' = wgl_advance H w" | s' where "w' = wgl_push H k s' w"
    by (auto simp: wgl_step_def Let_def k_def split: option.splits prod.splits bool.splits if_splits)
  then show ?thesis
  proof cases
    case 1
    have "wpos w < first_live H ?S (Suc (wpos w))" using next_live(2) [OF wf k(1,2)] k(3) by simp
    then show ?thesis unfolding 1 wgl_measure_def wgl_advance_def
      using p by (simp add: advance_measure)
  next
    case 2
    have "frames_ok m eq H (wseen w) (wstack w) (wstate w)" using inv by (simp add: wgl_inv_def)
    from frames_ids [OF this] k have "insert k (set (map fst (wstack w))) \<subseteq> {..<num_ops H}"
      "distinct (k # map fst (wstack w))" by (auto simp: ids_def)
    then have "length (wstack w) < num_ops H"
      using distinct_card [of "k # map fst (wstack w)"] card_mono [of "{..<num_ops H}" "insert k (set (map fst (wstack w)))"]
      by simp
    then obtain d where d: "num_ops H - length (wstack w) = Suc d" "num_ops H - Suc (length (wstack w)) = d"
      by (metis Suc_diff_Suc)
    show ?thesis unfolding 2 wgl_measure_def wgl_push_def
      using push_measure [OF p] by (simp only: k(3) d wgl.simps wgl_weight.simps length_Cons)
  qed
next
  case returnEntry
  with step obtain k s stk where stk: "wstack w = (k, s) # stk" "w' = wgl_pop H k s stk w"
    by (auto simp: wgl_step_def split: list.splits)
  have fr: "frames_ok m eq H (wseen w) ((k, s) # stk) (wstate w)" using inv by (simp add: wgl_inv_def stk)
  then have k: "k < num_ops H" "k \<notin> ids stk" by simp_all
  obtain d where d: "num_ops H - length stk = Suc d" "num_ops H - Suc (length stk) = d"
    using frames_depth [OF fr] by (metis Suc_diff_Suc length_Cons less_eq_Suc_le)
  show ?thesis unfolding stk wgl_measure_def wgl_pop_def
    using pop_measure [OF next_live(2) [OF wf k]] less_imp_le [OF p]
    by (simp only: d wgl.simps wgl_weight.simps length_Cons)
qed

end
