(* ===== verification/Bitset.thy ===== *)
theory Bitset
  imports Prelude "HOL-Library.Word"
begin

unbundle bit_operations_syntax

text \<open>
  \<open>porcupine/bitset.go\<close>: sets of operation ids as slices of \<open>uint64\<close> chunks. An index outside the
  slice is a Go panic, here \<open>None\<close>. \<open>set\<close> and \<open>clear\<close> mutate the slice in place and return it;
  the functions below return the mutated value. The locale \<open>id_set\<close> is the interface the
  linearizability checker uses, \<open>bs\<close> its interpretation on the chunks.
\<close>

section \<open>The code\<close>

type_synonym bitset = "64 word list"

definition newBitset :: "nat \<Rightarrow> bitset" where
  "newBitset bits = (let extra = (if bits mod 64 \<noteq> 0 then 1 else 0); chunks = bits div 64 + extra
     in replicate chunks 0)"

definition clone_bitset :: "bitset \<Rightarrow> bitset" where
  "clone_bitset b = map (\<lambda>i. b ! i) [0..<length b]"

definition bitsetIndex :: "nat \<Rightarrow> nat \<times> nat" where
  "bitsetIndex pos = (pos div 64, pos mod 64)"

definition set_bitset :: "bitset \<Rightarrow> nat \<Rightarrow> bitset option" where
  "set_bitset b pos = (let (major, minor) = bitsetIndex pos in
     if major < length b then Some (b[major := (b ! major) OR push_bit minor 1]) else None)"

definition clear_bitset :: "bitset \<Rightarrow> nat \<Rightarrow> bitset option" where
  "clear_bitset b pos = (let (major, minor) = bitsetIndex pos in
     if major < length b then Some (b[major := (b ! major) AND NOT (push_bit minor 1)]) else None)"

definition get_bitset :: "bitset \<Rightarrow> nat \<Rightarrow> bool option" where
  "get_bitset b pos = (let (major, minor) = bitsetIndex pos in
     if major < length b then Some ((b ! major) AND push_bit minor 1 \<noteq> 0) else None)"

text \<open>\<open>bits.OnesCount64\<close>: the number of set bits of a chunk.\<close>

definition OnesCount64 :: "64 word \<Rightarrow> nat" where
  "OnesCount64 v = length (filter (bit v) [0..<64])"

definition popcnt :: "bitset \<Rightarrow> nat" where
  "popcnt b = fold (\<lambda>v total. total + OnesCount64 v) b 0"

definition hash_bitset :: "bitset \<Rightarrow> 64 word" where
  "hash_bitset b = fold (\<lambda>v hash. hash XOR v) b (of_nat (popcnt b))"

definition equals_bitset :: "bitset \<Rightarrow> bitset \<Rightarrow> bool" where
  "equals_bitset b b2 = (if length b \<noteq> length b2 then False
     else list_all (\<lambda>i. b ! i = b2 ! i) [0..<length b])"

section \<open>The set a bitset stands for\<close>

definition bits_of :: "bitset \<Rightarrow> nat set" where
  "bits_of b = {p. p < 64 * length b \<and> bit (b ! (p div 64)) (p mod 64)}"

definition capacity :: "bitset \<Rightarrow> nat" where
  "capacity b = 64 * length b"

lemma major_less: "p < 64 * n \<longleftrightarrow> p div 64 < (n::nat)"
  by (simp add: div_less_iff_less_mult mult.commute)

lemma clone_bitset_id [simp]: "clone_bitset b = b"
  by (simp add: clone_bitset_def map_nth)

lemma equals_bitset_iff [simp]: "equals_bitset b c \<longleftrightarrow> b = c"
  by (auto simp: equals_bitset_def list_all_iff intro: nth_equalityI)

lemma newBitset_bits: "bits_of (newBitset n) = {}"
  by (simp add: bits_of_def newBitset_def Let_def major_less)

lemma newBitset_capacity: "n \<le> capacity (newBitset n)"
proof -
  have "64 * (n div 64) + n mod 64 = n" and "n mod 64 < 64" by simp_all
  then have "n mod 64 = 0 \<Longrightarrow> n \<le> 64 * (n div 64)" and "n \<le> 64 * (n div 64) + 64" by linarith+
  then show ?thesis by (simp add: capacity_def newBitset_def Let_def)
qed

lemma bit_chunk_set: "m < 64 \<Longrightarrow> k < 64 \<Longrightarrow> bit ((v :: 64 word) OR 2 ^ m) k \<longleftrightarrow> bit v k \<or> k = m"
  by (auto simp: bit_simps)

lemma bit_chunk_clear: "m < 64 \<Longrightarrow> k < 64 \<Longrightarrow> bit ((v :: 64 word) AND NOT (2 ^ m)) k \<longleftrightarrow> bit v k \<and> k \<noteq> m"
  by (auto simp: bit_simps)

lemma chunk_get: "(v :: 64 word) AND 2 ^ m \<noteq> 0 \<longleftrightarrow> bit v m"
  using bit_iff_and_push_bit_not_eq_0 [of v m] by simp

lemma same_pos: "p div 64 = q div 64 \<Longrightarrow> p mod 64 = q mod 64 \<Longrightarrow> p = (q::nat)"
  by (metis div_mult_mod_eq)

lemma set_bitset_spec:
  assumes "p < capacity b"
  shows "\<exists>b'. set_bitset b p = Some b' \<and> bits_of b' = insert p (bits_of b) \<and> length b' = length b"
  using assms
  by (auto simp: set_bitset_def bitsetIndex_def capacity_def bits_of_def major_less nth_list_update
      bit_chunk_set dest: same_pos split: if_splits)

lemma clear_bitset_spec:
  assumes "p < capacity b"
  shows "\<exists>b'. clear_bitset b p = Some b' \<and> bits_of b' = bits_of b - {p} \<and> length b' = length b"
  using assms
  by (auto simp: clear_bitset_def bitsetIndex_def capacity_def bits_of_def major_less nth_list_update
      bit_chunk_clear dest: same_pos split: if_splits)

lemma get_bitset_spec: "p < capacity b \<Longrightarrow> get_bitset b p = Some (p \<in> bits_of b)"
  by (simp add: get_bitset_def bitsetIndex_def capacity_def bits_of_def major_less chunk_get)

lemma bitset_ext:
  assumes "length b = length c" and "bits_of b = bits_of c"
  shows "b = c"
proof (rule nth_equalityI [OF assms(1)])
  fix i assume i: "i < length b"
  show "b ! i = c ! i"
  proof (rule bit_word_eqI)
    fix k assume "k < LENGTH(64)"
    then have k: "k < 64" by simp
    have "64 * i + k \<in> bits_of b \<longleftrightarrow> 64 * i + k \<in> bits_of c" using assms(2) by simp
    then show "bit (b ! i) k \<longleftrightarrow> bit (c ! i) k"
      using i k assms(1) by (simp add: bits_of_def major_less)
  qed
qed

section \<open>The interface of the checker\<close>

locale id_set =
  fixes new :: "nat \<Rightarrow> 'b"
    and ins :: "'b \<Rightarrow> nat \<Rightarrow> 'b option"
    and del :: "'b \<Rightarrow> nat \<Rightarrow> 'b option"
    and same :: "'b \<Rightarrow> 'b \<Rightarrow> bool"
    and key :: "'b \<Rightarrow> 'h"
    and ids :: "'b \<Rightarrow> nat set"
    and cap :: "'b \<Rightarrow> nat"
  assumes ids_new: "ids (new n) = {}"
    and cap_new: "n \<le> cap (new n)"
    and ins_spec: "p < cap b \<Longrightarrow> \<exists>b'. ins b p = Some b' \<and> ids b' = insert p (ids b) \<and> cap b' = cap b"
    and del_spec: "p < cap b \<Longrightarrow> \<exists>b'. del b p = Some b' \<and> ids b' = ids b - {p} \<and> cap b' = cap b"
    and ext: "cap b = cap c \<Longrightarrow> ids b = ids c \<Longrightarrow> b = c"
    and same_iff: "same b c \<longleftrightarrow> b = c"
begin

text \<open>Backtracking: removing what was just added gives the old value back.\<close>

lemma del_ins:
  assumes "p < cap b" and "p \<notin> ids b" and "ins b p = Some b'"
  shows "del b' p = Some b"
proof -
  from ins_spec [OF assms(1)] assms(3) have b': "ids b' = insert p (ids b)" "cap b' = cap b" by auto
  with del_spec [of p b'] assms(1) obtain b'' where
    "del b' p = Some b''" "ids b'' = ids b' - {p}" "cap b'' = cap b'" by auto
  with b' assms(2) show ?thesis using ext [of b'' b] by auto
qed

text \<open>A hash table keyed by \<open>key\<close> can be searched in the bucket of the wanted set only.\<close>

lemma same_key: "same b c \<Longrightarrow> key b = key c"
  by (simp add: same_iff)

end

interpretation bs: id_set newBitset set_bitset clear_bitset equals_bitset hash_bitset bits_of capacity
proof unfold_locales
  fix n show "bits_of (newBitset n) = {}" by (rule newBitset_bits)
  show "n \<le> capacity (newBitset n)" by (rule newBitset_capacity)
next
  fix p b assume p: "p < capacity b"
  show "\<exists>b'. set_bitset b p = Some b' \<and> bits_of b' = insert p (bits_of b) \<and> capacity b' = capacity b"
    using set_bitset_spec [OF p] by (auto simp: capacity_def)
  show "\<exists>b'. clear_bitset b p = Some b' \<and> bits_of b' = bits_of b - {p} \<and> capacity b' = capacity b"
    using clear_bitset_spec [OF p] by (auto simp: capacity_def)
next
  fix b c assume "capacity b = capacity c" and "bits_of b = bits_of c"
  then show "b = c" by (intro bitset_ext) (simp_all add: capacity_def)
qed simp

section \<open>Properties\<close>

text \<open>
  (C20) A bitset created for \<open>n\<close> ids is empty, and on it \<open>set\<close>, \<open>clear\<close> and \<open>get\<close> at an id below
  \<open>n\<close> never panic and are insertion, deletion and membership of the set of ids, on every chunk.
\<close>

theorem bitset_implements_set:
  assumes "length b = length (newBitset n)" and "p < n"
  shows "bits_of (newBitset n) = {}
    \<and> (\<exists>b'. set_bitset b p = Some b' \<and> length b' = length b \<and> bits_of b' = insert p (bits_of b))
    \<and> (\<exists>b'. clear_bitset b p = Some b' \<and> length b' = length b \<and> bits_of b' = bits_of b - {p})
    \<and> get_bitset b p = Some (p \<in> bits_of b)"
proof -
  have "p < capacity b"
    using assms newBitset_capacity [of n] by (simp add: capacity_def)
  from set_bitset_spec [OF this] clear_bitset_spec [OF this] get_bitset_spec [OF this] show ?thesis
    by (auto simp: newBitset_bits)
qed

theorem bitset_implements_set_witness:
  "get_bitset (newBitset 70) 69 = Some (69 \<in> bits_of (newBitset 70))"
  using bitset_implements_set [of "newBitset 70" 70 69] by simp

end
