(* ===== verification/CheckSingle.thy ===== *)
theory CheckSingle
  imports LinkedNodes WingGong Bitset
begin

text \<open>
  \<open>checkSingle\<close> of \<open>porcupine/checker.go\<close>: the search for a linearization of one partition, on the
  linked list of entries, with the bitset of linearized operations and the cache, a hash table
  from bitset hashes to configurations. A run ends in \<open>Panic\<close> or returns; that it may run
  forever is the value \<open>None\<close> of the loop, and it is proved that it does not. What other
  goroutines do to the flag \<open>kill\<close> is a function from the number of the loop iteration to what
  the atomic load sees. A pointer to a sequence (the elements of \<open>longest\<close>) is the sequence
  together with the iteration that allocated it.
\<close>

section \<open>The code\<close>

record 's cacheEntry =
  clinearized :: bitset
  cstate :: 's

type_synonym 's cache = "64 word \<Rightarrow> 's cacheEntry list"

record 's callsEntry =
  centry :: ptr
  cpstate :: 's

type_synonym longest = "(nat \<times> int list) option list"

datatype 'a result = Panic | Returned 'a

fun cacheContains_loop :: "('v, 's) Model \<Rightarrow> 's cacheEntry \<Rightarrow> 's cacheEntry list \<Rightarrow> bool option" where
  "cacheContains_loop model entry [] = Some False"
| "cacheContains_loop model entry (elem # elems) =
     (if equals_bitset (clinearized entry) (clinearized elem) then
        (case Equal model of None \<Rightarrow> None
         | Some eq \<Rightarrow> if eq (cstate entry) (cstate elem) then Some True
                    else cacheContains_loop model entry elems)
      else cacheContains_loop model entry elems)"

definition cacheContains :: "('v, 's) Model \<Rightarrow> 's cache \<Rightarrow> 's cacheEntry \<Rightarrow> bool option" where
  "cacheContains model cache entry =
     cacheContains_loop model entry (cache (hash_bitset (clinearized entry)))"

record ('v, 's) search =
  sheap :: "'v heap"
  sentry :: ptr
  sstate :: 's
  slinearized :: bitset
  scache :: "'s cache"
  scalls :: "'s callsEntry list"
  slongest :: longest

datatype ('v, 's) outcome = Continue "('v, 's) search" | Return bool longest

text \<open>The conversion \<open>uint(id)\<close> wraps a negative id around.\<close>

definition uint_of :: "int \<Rightarrow> nat" where
  "uint_of i = (if i < 0 then nat (i + 2 ^ 64) else nat i)"

fun callIds :: "'v heap \<Rightarrow> 's callsEntry list \<Rightarrow> int list option" where
  "callIds h [] = Some []"
| "callIds h (v # calls) = do { e \<leftarrow> deref h (centry v); is \<leftarrow> callIds h calls; Some (nid e # is) }"

text \<open>
  The loop that records the current sequence for every operation on the stack for which it is
  the first or a longer one; \<open>seq\<close> is created at the first assignment and shared by the others.
\<close>

fun updateLongest :: "nat \<times> int list \<Rightarrow> nat \<Rightarrow> int list \<Rightarrow> longest \<Rightarrow> longest option" where
  "updateLongest seq callsLen [] longest = Some longest"
| "updateLongest seq callsLen (i # is) longest =
     (if 0 \<le> i \<and> nat i < length longest then
        (case longest ! nat i of
           None \<Rightarrow> updateLongest seq callsLen is (longest[nat i := Some seq])
         | Some l \<Rightarrow> if length (snd l) < callsLen then updateLongest seq callsLen is (longest[nat i := Some seq])
                     else updateLongest seq callsLen is longest)
      else None)"

definition search_step :: "('v, 's) Model \<Rightarrow> bool \<Rightarrow> bool \<Rightarrow> ptr \<Rightarrow> nat \<Rightarrow> ('v, 's) search \<Rightarrow> ('v, 's) outcome option" where
  "search_step model computePartial killed headEntry t s =
     (if killed then Some (Return False (slongest s)) else do {
        entry \<leftarrow> deref (sheap s) (sentry s);
        if nmatch entry \<noteq> None then do {
          matching \<leftarrow> deref (sheap s) (nmatch entry);
          (ok, newState) \<leftarrow> Step model (sstate s) (nvalue entry) (nvalue matching);
          if ok then do {
            newLinearized \<leftarrow> set_bitset (clone_bitset (slinearized s)) (uint_of (nid entry));
            let newCacheEntry = \<lparr>clinearized = newLinearized, cstate = newState\<rparr>;
            found \<leftarrow> cacheContains model (scache s) newCacheEntry;
            if \<not> found then do {
              let hash = hash_bitset newLinearized;
              let cache = (scache s)(hash := scache s hash @ [newCacheEntry]);
              let calls = scalls s @ [\<lparr>centry = sentry s, cpstate = sstate s\<rparr>];
              linearized \<leftarrow> set_bitset (slinearized s) (uint_of (nid entry));
              h \<leftarrow> lift (sheap s) (sentry s);
              head \<leftarrow> deref h headEntry;
              Some (Continue \<lparr>sheap = h, sentry = nnext head, sstate = newState, slinearized = linearized,
                scache = cache, scalls = calls, slongest = slongest s\<rparr>)
            } else Some (Continue (s\<lparr>sentry := nnext entry\<rparr>))
          } else Some (Continue (s\<lparr>sentry := nnext entry\<rparr>))
        } else if scalls s = [] then Some (Return False (slongest s))
        else do {
          longest \<leftarrow> (if computePartial then do {
              seq \<leftarrow> callIds (sheap s) (scalls s);
              updateLongest (t, seq) (length (scalls s)) seq (slongest s)
            } else Some (slongest s));
          let callsTop = last (scalls s);
          entry \<leftarrow> deref (sheap s) (centry callsTop);
          linearized \<leftarrow> clear_bitset (slinearized s) (uint_of (nid entry));
          h \<leftarrow> unlift (sheap s) (centry callsTop);
          entry \<leftarrow> deref h (centry callsTop);
          Some (Continue (s\<lparr>sheap := h, sentry := nnext entry, sstate := cpstate callsTop,
            slinearized := linearized, scalls := butlast (scalls s), slongest := longest\<rparr>))
        }
      })"

partial_function (option) search_loop ::
  "('v, 's) Model \<Rightarrow> bool \<Rightarrow> (nat \<Rightarrow> bool) \<Rightarrow> ptr \<Rightarrow> nat \<Rightarrow> ('v, 's) search \<Rightarrow> (bool \<times> longest) result option" where
  "search_loop model computePartial kill headEntry t s =
     (case deref (sheap s) headEntry of None \<Rightarrow> Some Panic
      | Some head \<Rightarrow>
        if nnext head \<noteq> None then
          (case search_step model computePartial (kill t) headEntry t s of
             None \<Rightarrow> Some Panic
           | Some (Return b longest) \<Rightarrow> Some (Returned (b, longest))
           | Some (Continue s') \<Rightarrow> search_loop model computePartial kill headEntry (Suc t) s')
        else (case callIds (sheap s) (scalls s) of None \<Rightarrow> Some Panic
           | Some seq \<Rightarrow> Some (Returned (True, map (\<lambda>_. Some (t, seq)) (slongest s)))))"

definition checkSingle :: "('v, 's) Model \<Rightarrow> 'v entry list \<Rightarrow> bool \<Rightarrow> (nat \<Rightarrow> bool) \<Rightarrow> (bool \<times> longest) result option" where
  "checkSingle model history computePartial kill =
     (case makeLinkedEntries history of None \<Rightarrow> Some Panic
      | Some (h, entry) \<Rightarrow>
        (case length_nodes h entry of None \<Rightarrow> None
         | Some l \<Rightarrow>
           (let n = l div 2;
                linearized = newBitset n;
                longest = replicate n None;
                state = Init model in
            case insertBefore (h @ [\<lparr>nvalue = None, nmatch = None, nid = -1, nnext = None, nprev = None\<rparr>])
                   (Some (length h)) entry of
              None \<Rightarrow> Some Panic
            | Some (h, headEntry) \<Rightarrow> search_loop model computePartial kill headEntry 0
                \<lparr>sheap = h, sentry = entry, sstate = state, slinearized = linearized, scache = (\<lambda>_. []),
                 scalls = [], slongest = longest\<rparr>)))"

section \<open>The detailed state and the abstract search\<close>

definition addr :: "'v entry list \<Rightarrow> nat \<Rightarrow> nat" where
  "addr H i = 2 * num_ops H - 1 - i"

definition node_of :: "'v entry list \<Rightarrow> 'v heap \<Rightarrow> nat \<Rightarrow> bool" where
  "node_of H h i \<longleftrightarrow> nvalue (h ! addr H i) = evalue (H ! i) \<and> nid (h ! addr H i) = eid (H ! i)
     \<and> nmatch (h ! addr H i) = (if kind (H ! i) = returnEntry then None
          else Some (addr H (return_pos H (op_at H i))))"

text \<open>
  The heap at each level of the stack: the list of the live entries behind the head, all data in
  place, and \<open>unlift\<close> of the last linearized call leads back to the heap of the level below.
\<close>

fun heap_at :: "'v entry list \<Rightarrow> (nat \<times> 's) list \<Rightarrow> 'v heap \<Rightarrow> bool" where
  "heap_at H [] h \<longleftrightarrow> length h = 2 * num_ops H + 1 \<and> linked h (2 * num_ops H) (map (addr H) (live H {} 0))
     \<and> (\<forall>i<2 * num_ops H. node_of H h i)"
| "heap_at H ((k, s) # stk) h \<longleftrightarrow> length h = 2 * num_ops H + 1
     \<and> linked h (2 * num_ops H) (map (addr H) (live H (insert k (ids stk)) 0))
     \<and> (\<forall>i<2 * num_ops H. node_of H h i)
     \<and> (\<exists>h'. unlift h (Some (addr H (call_pos H k))) = Some h' \<and> heap_at H stk h')"

definition bits_ok :: "'v entry list \<Rightarrow> nat set \<Rightarrow> bitset \<Rightarrow> bool" where
  "bits_ok H S b \<longleftrightarrow> length b = length (newBitset (num_ops H)) \<and> bits_of b = S"

definition cache_ok :: "'v entry list \<Rightarrow> 's cache \<Rightarrow> (nat set \<times> 's) set \<Rightarrow> bool" where
  "cache_ok H cache seen \<longleftrightarrow>
     (\<forall>hash. \<forall>e\<in>set (cache hash). hash_bitset (clinearized e) = hash
        \<and> length (clinearized e) = length (newBitset (num_ops H)))
     \<and> seen = {(bits_of (clinearized e), cstate e) | e hash. e \<in> set (cache hash)}"

definition longest_ok :: "('v, 's) Model \<Rightarrow> 'v entry list \<Rightarrow> longest \<Rightarrow> bool" where
  "longest_ok m H longest \<longleftrightarrow> length longest = num_ops H
     \<and> (\<forall>i<num_ops H. \<forall>t seq. longest ! i = Some (t, seq) \<longrightarrow>
          (\<exists>ks. seq = map int ks \<and> i \<in> set ks \<and> linear_prefix m H ks))"

definition calls_of :: "'v entry list \<Rightarrow> (nat \<times> 's) list \<Rightarrow> 's callsEntry list" where
  "calls_of H stk = map (\<lambda>(k, s). \<lparr>centry = Some (addr H (call_pos H k)), cpstate = s\<rparr>) (rev stk)"

definition refines :: "('v, 's) Model \<Rightarrow> 'v entry list \<Rightarrow> ('v, 's) search \<Rightarrow> 's wgl \<Rightarrow> bool" where
  "refines m H s w \<longleftrightarrow> heap_at H (wstack w) (sheap s)
     \<and> sentry s = (if wpos w < 2 * num_ops H then Some (addr H (wpos w)) else None)
     \<and> sstate s = wstate w
     \<and> bits_ok H (ids (wstack w)) (slinearized s)
     \<and> cache_ok H (scache s) (wseen w)
     \<and> scalls s = calls_of H (wstack w)
     \<and> longest_ok m H (slongest s)"

text \<open>
  What a run of the search promises: it returns, every recorded sequence is a linearizable prefix
  that contains the operation it is recorded for, \<open>true\<close> means linearizable (and then the sequences
  have all operations), \<open>false\<close> means not linearizable unless the run was killed.
\<close>

definition search_spec :: "('v, 's) Model \<Rightarrow> 'v entry list \<Rightarrow> (nat \<Rightarrow> bool) \<Rightarrow> (bool \<times> longest) result option \<Rightarrow> bool" where
  "search_spec m H kill r \<longleftrightarrow> (\<exists>b l. r = Some (Returned (b, l)) \<and> longest_ok m H l
     \<and> (b \<longrightarrow> linearizable m H \<and> (\<forall>i<num_ops H. l ! i \<noteq> None \<and> length (snd (the (l ! i))) = num_ops H))
     \<and> (\<not> b \<longrightarrow> \<not> linearizable m H \<or> (\<exists>t. kill t)))"

section \<open>What the operations do to the related states\<close>

lemma heap_at_D:
  assumes "heap_at H stk h"
  shows "length h = 2 * num_ops H + 1" and "linked h (2 * num_ops H) (map (addr H) (live H (ids stk) 0))"
    and "i < 2 * num_ops H \<Longrightarrow> node_of H h i"
  using assms by (cases stk rule: remdups_adj.cases; auto)+

lemma addr_less: "i < 2 * num_ops H \<Longrightarrow> addr H i < 2 * num_ops H"
  by (simp add: addr_def)

lemma live_at: "i < 2 * num_ops H \<Longrightarrow> op_at H i \<notin> S \<Longrightarrow>
    live H S 0 = filter (\<lambda>j. op_at H j \<notin> S) [0..<i] @ i # live H S (Suc i)"
  using live_split [of i H S] live_Cons [of i H S] by simp

lemma first_live_ptr: "(case map (addr H) (live H S i) of [] \<Rightarrow> None | b # _ \<Rightarrow> Some b)
    = (if first_live H S i < 2 * num_ops H then Some (addr H (first_live H S i)) else None)"
proof (cases "live H S i")
  case (Cons j js)
  then have "j \<in> set (live H S i)" by simp
  then have "j < 2 * num_ops H" unfolding live_set by simp
  with Cons show ?thesis by (simp add: first_live_def)
qed (simp add: first_live_def)

lemma next_ptr:
  assumes "linked h (2 * num_ops H) (map (addr H) (live H S 0))" and "i < 2 * num_ops H" and "op_at H i \<notin> S"
  shows "nnext (h ! addr H i) = (if first_live H S (Suc i) < 2 * num_ops H
    then Some (addr H (first_live H S (Suc i))) else None)"
  using assms(1) live_at [OF assms(2,3)] linkedD(6) [of h "2 * num_ops H" _ "addr H i" "map (addr H) (live H S (Suc i))"]
  by (simp add: first_live_ptr)

lemma head_ptr:
  assumes "linked h (2 * num_ops H) (map (addr H) (live H S 0))"
  shows "nnext (h ! (2 * num_ops H)) = (if first_live H S 0 < 2 * num_ops H
    then Some (addr H (first_live H S 0)) else None)"
proof -
  have "nnext (h ! (2 * num_ops H)) = (case map (addr H) (live H S 0) of [] \<Rightarrow> None | b # _ \<Rightarrow> Some b)"
    using assms by (cases "live H S 0") (auto simp: linked_def)
  then show ?thesis by (simp only: first_live_ptr)
qed

lemma uint_of_int [simp]: "uint_of (int k) = k"
  by (simp add: uint_of_def)

lemma bits_capacity: "bits_ok H S b \<Longrightarrow> k < num_ops H \<Longrightarrow> k < capacity b"
  using bs.cap_new [of "num_ops H"] by (simp add: bits_ok_def capacity_def)

lemma set_bits_ok: "bits_ok H S b \<Longrightarrow> k < num_ops H \<Longrightarrow> \<exists>b'. set_bitset b k = Some b' \<and> bits_ok H (insert k S) b'"
  using bs.ins_spec [OF bits_capacity] by (fastforce simp: bits_ok_def capacity_def)

lemma clear_bits_ok: "bits_ok H S b \<Longrightarrow> k < num_ops H \<Longrightarrow> \<exists>b'. clear_bitset b k = Some b' \<and> bits_ok H (S - {k}) b'"
  using bs.del_spec [OF bits_capacity] by (fastforce simp: bits_ok_def capacity_def)

lemma bits_ok_eq: "bits_ok H S b \<Longrightarrow> length c = length (newBitset (num_ops H)) \<Longrightarrow> b = c \<longleftrightarrow> bits_of c = S"
  using bitset_ext [of b c] by (auto simp: bits_ok_def)

lemma cacheContains_loop_iff:
  assumes "Equal m = Some eq"
  shows "cacheContains_loop m e es = Some (\<exists>e'\<in>set es. clinearized e = clinearized e' \<and> eq (cstate e) (cstate e'))"
  using assms by (induction es) auto

lemma cacheContains_iff:
  assumes "Equal m = Some eq" and "cache_ok H cache seen" and b: "bits_ok H S b"
  shows "cacheContains m cache \<lparr>clinearized = b, cstate = s\<rparr> = Some (seen_in eq seen S s)"
proof -
  have c: "e \<in> set (cache hash) \<Longrightarrow> hash_bitset (clinearized e) = hash
      \<and> length (clinearized e) = length (newBitset (num_ops H))" for e hash
    using assms(2) by (auto simp: cache_ok_def)
  have seen: "(S, t) \<in> seen \<longleftrightarrow> (\<exists>e hash. e \<in> set (cache hash) \<and> bits_of (clinearized e) = S \<and> cstate e = t)" for t
    using assms(2) by (auto simp: cache_ok_def)
  have "(\<exists>e'\<in>set (cache (hash_bitset b)). b = clinearized e' \<and> eq s (cstate e')) \<longleftrightarrow>
      (\<exists>e' hash. e' \<in> set (cache hash) \<and> b = clinearized e' \<and> eq s (cstate e'))"
    using c by blast
  also have "\<dots> \<longleftrightarrow> (\<exists>e' hash. e' \<in> set (cache hash) \<and> bits_of (clinearized e') = S \<and> eq s (cstate e'))"
    using c bits_ok_eq [OF b] by blast
  also have "\<dots> \<longleftrightarrow> seen_in eq seen S s" unfolding seen_in_def seen by blast
  finally show ?thesis by (simp add: cacheContains_def cacheContains_loop_iff [OF assms(1)])
qed

lemma cache_ok_insert:
  assumes "cache_ok H cache seen" and "bits_ok H S b"
  shows "cache_ok H (cache(hash_bitset b := cache (hash_bitset b) @ [\<lparr>clinearized = b, cstate = s\<rparr>])) (insert (S, s) seen)"
proof -
  let ?c = "cache(hash_bitset b := cache (hash_bitset b) @ [\<lparr>clinearized = b, cstate = s\<rparr>])"
  have mem: "e \<in> set (?c hash) \<longleftrightarrow> e \<in> set (cache hash) \<or> e = \<lparr>clinearized = b, cstate = s\<rparr> \<and> hash = hash_bitset b" for e hash
    by auto
  have "{(bits_of (clinearized e), cstate e) | e hash. e \<in> set (?c hash)}
      = insert (S, s) {(bits_of (clinearized e), cstate e) | e hash. e \<in> set (cache hash)}"
    (is "?l = ?r")
  proof (intro set_eqI iffI)
    fix x assume "x \<in> ?l"
    then obtain e hash where x: "x = (bits_of (clinearized e), cstate e)" "e \<in> set (?c hash)" by blast
    then show "x \<in> ?r" using assms(2) unfolding mem bits_ok_def by auto
  next
    fix x assume "x \<in> ?r"
    then consider "x = (S, s)" | e hash where "x = (bits_of (clinearized e), cstate e)" "e \<in> set (cache hash)" by blast
    then show "x \<in> ?l"
    proof cases
      case 1
      have "\<lparr>clinearized = b, cstate = s\<rparr> \<in> set (?c (hash_bitset b))" by simp
      moreover have "x = (bits_of (clinearized \<lparr>clinearized = b, cstate = s\<rparr>), cstate \<lparr>clinearized = b, cstate = s\<rparr>)"
        using 1 assms(2) by (simp add: bits_ok_def)
      ultimately show ?thesis by blast
    next
      case 2
      then have "e \<in> set (?c hash)" unfolding mem by blast
      with 2 show ?thesis by blast
    qed
  qed
  moreover have "hash_bitset (clinearized e) = hash \<and> length (clinearized e) = length (newBitset (num_ops H))"
    if "e \<in> set (?c hash)" for e hash
    using that assms unfolding mem cache_ok_def bits_ok_def by auto
  ultimately show ?thesis using assms(1) unfolding cache_ok_def by simp
qed

lemma callIds_calls_of:
  assumes wf: "wf_history H" and h: "length h = 2 * num_ops H + 1" "\<And>i. i < 2 * num_ops H \<Longrightarrow> node_of H h i"
    and "ids stk \<subseteq> {..<num_ops H}"
  shows "callIds h (calls_of H stk) = Some (map int (rev (map fst stk)))"
proof -
  have "callIds h (map (\<lambda>(k, s). \<lparr>centry = Some (addr H (call_pos H k)), cpstate = s\<rparr>) stk) = Some (map int (map fst stk))"
    if "ids stk \<subseteq> {..<num_ops H}" for stk :: "(nat \<times> 'b) list"
    using that
  proof (induction stk)
    case (Cons ks stk)
    obtain k s where ks: "ks = (k, s)" by (cases ks)
    with Cons.prems have k: "k < num_ops H" by simp
    then have p: "call_pos H k < 2 * num_ops H" using wf_history_pos(1,2) [OF wf k] by simp
    have "nid (h ! addr H (call_pos H k)) = int k"
      using h(2) [OF p] wf_history_pos(3) [OF wf k] by (simp add: node_of_def is_call_def)
    moreover have "addr H (call_pos H k) < length h" using addr_less [OF p] h(1) by simp
    ultimately show ?case using Cons ks by simp
  qed simp
  from this [of "rev stk"] assms(4) show ?thesis by (simp add: calls_of_def ids_def rev_map)
qed

lemma updateLongest_ok:
  assumes "longest_ok m H longest" and "linear_prefix m H ks" and "set is \<subseteq> set ks"
  shows "\<exists>l. updateLongest (t, map int ks) c (map int is) longest = Some l \<and> longest_ok m H l"
  using assms(1,3)
proof (induction "is" arbitrary: longest)
  case (Cons i "is")
  then have i: "i < num_ops H" "i < length longest" and ik: "i \<in> set ks"
    using assms(2) by (auto simp: linear_prefix_def longest_ok_def)
  have l: "longest_ok m H (longest[i := Some (t, map int ks)])"
    unfolding longest_ok_def
  proof (intro conjI allI impI)
    show "length (longest[i := Some (t, map int ks)]) = num_ops H" using Cons.prems(1) by (simp add: longest_ok_def)
    fix j u seq assume j: "j < num_ops H" "longest[i := Some (t, map int ks)] ! j = Some (u, seq)"
    show "\<exists>ks. seq = map int ks \<and> j \<in> set ks \<and> linear_prefix m H ks"
    proof (cases "j = i")
      case True
      with j i ik assms(2) show ?thesis by auto
    next
      case False
      with j Cons.prems(1) show ?thesis by (simp add: longest_ok_def)
    qed
  qed
  have sub: "set is \<subseteq> set ks" using Cons.prems(2) by simp
  from Cons.IH [OF l sub] Cons.IH [OF Cons.prems(1) sub] i show ?case by (auto split: option.split)
qed simp

lemma live_remove:
  assumes wf: "wf_history H" and k: "k < num_ops H" "k \<notin> S"
  shows "\<exists>as bs cs. live H S 0 = as @ call_pos H k # bs @ return_pos H k # cs
    \<and> live H (insert k S) 0 = as @ bs @ cs"
proof -
  let ?c = "call_pos H k" and ?r = "return_pos H k"
  note pos = wf_history_pos [OF wf k(1)]
  have opk: "op_at H ?c = k" "op_at H ?r = k" using op_at_call [OF wf k(1)] op_at_return [OF wf k(1)] .
  have "?r \<in> set (live H S (Suc ?c))" using pos opk k by (simp add: live_set)
  then obtain bs cs where bc: "live H S (Suc ?c) = bs @ ?r # cs" by (meson split_list)
  define as where "as = filter (\<lambda>j. op_at H j \<notin> S) [0..<?c]"
  have l: "live H S 0 = as @ ?c # bs @ ?r # cs"
    using live_at [of ?c H S] pos opk k bc by (simp add: as_def)
  have only: "x = ?c \<or> x = ?r" if "x \<in> set (live H S 0)" "op_at H x = k" for x
    using that call_pos_op_at [OF wf, of x] return_pos_op_at [OF wf, of x]
    by (cases "kind (H ! x)") (auto simp: live_set)
  have "distinct (live H S 0)" by (simp add: live_def)
  then have "x \<noteq> ?c \<and> x \<noteq> ?r \<and> x \<in> set (live H S 0)" if "x \<in> set (as @ bs @ cs)" for x
    using that unfolding l by auto
  then have "\<forall>x\<in>set (as @ bs @ cs). op_at H x \<noteq> k" using only by blast
  then have "filter (\<lambda>j. op_at H j \<noteq> k) (as @ bs @ cs) = as @ bs @ cs" by (simp only: filter_id_conv)
  moreover have "live H (insert k S) 0 = filter (\<lambda>j. op_at H j \<noteq> k) (live H S 0)"
    by (simp add: live_def conj_commute)
  ultimately have "live H (insert k S) 0 = as @ bs @ cs" using opk by (simp add: l)
  with l show ?thesis by blast
qed

lemma node_of_same_data: "same_data h h' \<Longrightarrow> i < 2 * num_ops H \<Longrightarrow> length h = 2 * num_ops H + 1
    \<Longrightarrow> node_of H h i \<Longrightarrow> node_of H h' i"
  using addr_less [of i H] by (simp add: node_of_def same_data_def)

lemma lift_heap_at:
  assumes wf: "wf_history H" and h: "heap_at H stk h" and k: "k < num_ops H" "k \<notin> ids stk"
  shows "\<exists>h'. lift h (Some (addr H (call_pos H k))) = Some h' \<and> heap_at H ((k, s) # stk) h'"
proof -
  note pos = wf_history_pos [OF wf k(1)] and hD = heap_at_D [OF h]
  have p: "call_pos H k < 2 * num_ops H" using pos by simp
  from live_remove [OF wf k] obtain as bs cs where l: "live H (ids stk) 0 = as @ call_pos H k # bs @ return_pos H k # cs"
    "live H (insert k (ids stk)) 0 = as @ bs @ cs" by blast
  have m: "nmatch (h ! addr H (call_pos H k)) = Some (addr H (return_pos H k))"
    using hD(3) [OF p] pos op_at_call [OF wf k(1)] by (simp add: node_of_def is_call_def)
  from lift_linked [OF _ m, of "2 * num_ops H" "map (addr H) as" "map (addr H) bs" "map (addr H) cs"] hD(2)
  obtain h' where h': "lift h (Some (addr H (call_pos H k))) = Some h'"
    "linked h' (2 * num_ops H) (map (addr H) (as @ bs @ cs))" "same_data h h'"
    "unlift h' (Some (addr H (call_pos H k))) = Some h" by (auto simp: l)
  have "length h' = 2 * num_ops H + 1" using h'(3) hD(1) by (simp add: same_data_def)
  moreover have "\<forall>i<2 * num_ops H. node_of H h' i" using node_of_same_data [OF h'(3)] hD by blast
  ultimately show ?thesis using h' h l(2) by auto
qed

context checkable_model
begin

lemma advance_refines:
  assumes "refines m H s w" and "wgl_inv m eq H w" and p: "wpos w < 2 * num_ops H"
  shows "refines m H (s\<lparr>sentry := nnext (sheap s ! addr H (wpos w))\<rparr>) (wgl_advance H w)"
proof -
  have h: "heap_at H (wstack w) (sheap s)" using assms(1) by (simp add: refines_def)
  have "op_at H (wpos w) \<notin> ids (wstack w)" using pos_live(1) [OF _ p] assms(2) by (simp add: wgl_inv_def)
  from next_ptr [OF heap_at_D(2) [OF h] p this] assms(1) show ?thesis
    by (simp add: refines_def wgl_advance_def)
qed

lemma current_entry:
  assumes "refines m H s w" and p: "wpos w < 2 * num_ops H"
  shows "deref (sheap s) (sentry s) = Some (sheap s ! addr H (wpos w))" and "node_of H (sheap s) (wpos w)"
    and "sentry s = Some (addr H (wpos w))"
proof -
  have h: "heap_at H (wstack w) (sheap s)" and e: "sentry s = Some (addr H (wpos w))"
    using assms by (simp_all add: refines_def)
  show "deref (sheap s) (sentry s) = Some (sheap s ! addr H (wpos w))"
    using heap_at_D(1) [OF h] addr_less [OF p] by (simp add: e)
  show "node_of H (sheap s) (wpos w)" "sentry s = Some (addr H (wpos w))" using heap_at_D(3) [OF h p] e by auto
qed

lemma call_step_refines:
  assumes wf: "wf_history H" and tot: "step_total m H"
    and r: "refines m H s w" and inv: "wgl_inv m eq H w" and p: "wpos w < 2 * num_ops H"
    and call: "kind (H ! wpos w) = callEntry"
  shows "\<exists>s' w'. search_step m cp False (Some (2 * num_ops H)) t s = Some (Continue s')
    \<and> wgl_step m eq H w = Some w' \<and> refines m H s' w'"
proof -
  define k where "k = op_at H (wpos w)"
  note ce = current_entry [OF r p]
  let ?e = "sheap s ! addr H (wpos w)"
  have k: "k < num_ops H" "k \<notin> ids (wstack w)" "call_pos H k = wpos w"
    using op_at_less [OF wf p] pos_live(1) [OF _ p] call_pos_op_at [OF wf p call] inv
    by (simp_all add: k_def wgl_inv_def)
  note pos = wf_history_pos [OF wf k(1)]
  have h: "heap_at H (wstack w) (sheap s)" and bits: "bits_ok H (ids (wstack w)) (slinearized s)"
    and cache: "cache_ok H (scache s) (wseen w)" and st: "sstate s = wstate w"
    using r by (simp_all add: refines_def)
  have e: "nvalue ?e = op_in H k" "nid ?e = int k" "nmatch ?e = Some (addr H (return_pos H k))"
    using ce(2) call eid_op_at [OF wf p] by (simp_all add: node_of_def op_in_def k(3) flip: k_def)
  let ?m = "sheap s ! addr H (return_pos H k)"
  have mt: "deref (sheap s) (Some (addr H (return_pos H k))) = Some ?m" "nvalue ?m = op_out H k"
    using heap_at_D(1) [OF h] heap_at_D(3) [OF h pos(2)] addr_less [OF pos(2)]
    by (simp_all add: node_of_def op_out_def)
  obtain ok s1 where step: "Step m (wstate w) (op_in H k) (op_out H k) = Some (ok, s1)"
    using tot k(1) unfolding step_total_def by (metis not_Some_eq surj_pair)
  obtain b where b: "set_bitset (slinearized s) k = Some b" "bits_ok H (insert k (ids (wstack w))) b"
    using set_bits_ok [OF bits k(1)] by blast
  note cc = cacheContains_iff [OF equal cache b(2)]
  let ?s = "s\<lparr>sentry := nnext ?e\<rparr>"
  note adv = advance_refines [OF r inv p]
  consider "\<not> ok" | "ok" "seen_in eq (wseen w) (insert k (ids (wstack w))) s1"
    | "ok" "\<not> seen_in eq (wseen w) (insert k (ids (wstack w))) s1" by blast
  then show ?thesis
  proof cases
    case 1
    have "search_step m cp False (Some (2 * num_ops H)) t s = Some (Continue ?s)"
      using 1 by (simp add: search_step_def ce(1) e mt st step)
    moreover have "wgl_step m eq H w = Some (wgl_advance H w)"
      using call step 1 by (simp add: wgl_step_def flip: k_def)
    ultimately show ?thesis using adv by blast
  next
    case 2
    have "search_step m cp False (Some (2 * num_ops H)) t s = Some (Continue ?s)"
      using 2 by (simp add: search_step_def ce(1) e mt st step b cc)
    moreover have "wgl_step m eq H w = Some (wgl_advance H w)"
      using call step 2 by (simp add: wgl_step_def flip: k_def)
    ultimately show ?thesis using adv by blast
  next
    case 3
    obtain h' where h': "lift (sheap s) (Some (addr H (wpos w))) = Some h'" "heap_at H ((k, wstate w) # wstack w) h'"
      using lift_heap_at [OF wf h k(1,2)] unfolding k(3) by blast
    have hd: "deref h' (Some (2 * num_ops H)) = Some (h' ! (2 * num_ops H))"
      using heap_at_D(1) [OF h'(2)] by simp
    let ?c = "(scache s)(hash_bitset b := scache s (hash_bitset b) @ [\<lparr>clinearized = b, cstate = s1\<rparr>])"
    let ?s' = "\<lparr>sheap = h', sentry = nnext (h' ! (2 * num_ops H)), sstate = s1, slinearized = b, scache = ?c,
      scalls = scalls s @ [\<lparr>centry = sentry s, cpstate = sstate s\<rparr>], slongest = slongest s\<rparr>"
    have "search_step m cp False (Some (2 * num_ops H)) t s = Some (Continue ?s')"
      using 3 by (simp add: search_step_def ce(1) e mt st step b cc h'(1) hd) (simp add: ce(3) h'(1) hd st Let_def)
    moreover have "wgl_step m eq H w = Some (wgl_push H k s1 w)"
      using call step 3 by (simp add: wgl_step_def flip: k_def)
    moreover have "refines m H ?s' (wgl_push H k s1 w)"
      using r h'(2) head_ptr [OF heap_at_D(2) [OF h'(2)]] b(2) cache_ok_insert [OF cache b(2)] ce(3)
      by (simp add: refines_def wgl_push_def calls_of_def k(3))
    ultimately show ?thesis by blast
  qed
qed

lemma return_step_refines:
  assumes wf: "wf_history H"
    and r: "refines m H s w" and inv: "wgl_inv m eq H w" and p: "wpos w < 2 * num_ops H"
    and ret: "kind (H ! wpos w) = returnEntry" and stk: "wstack w = (k, st) # stk"
  shows "\<exists>s'. search_step m cp False (Some (2 * num_ops H)) t s = Some (Continue s')
    \<and> refines m H s' (wgl_pop H k st stk w)"
proof -
  note ce = current_entry [OF r p]
  have fr: "frames_ok m eq H (wseen w) (wstack w) (wstate w)" using inv by (simp add: wgl_inv_def)
  then have k: "k < num_ops H" "k \<notin> ids stk" by (simp_all add: stk)
  have cp: "call_pos H k < 2 * num_ops H" using wf_history_pos [OF wf k(1)] by simp
  have h: "heap_at H ((k, st) # stk) (sheap s)" and bits: "bits_ok H (insert k (ids stk)) (slinearized s)"
    and calls: "scalls s = calls_of H ((k, st) # stk)" and lo: "longest_ok m H (slongest s)"
    using r by (simp_all add: refines_def stk)
  then obtain h' where h': "unlift (sheap s) (Some (addr H (call_pos H k))) = Some h'" "heap_at H stk h'" by auto
  obtain b where b: "clear_bitset (slinearized s) k = Some b" "bits_ok H (ids stk) b"
    using clear_bits_ok [OF bits k(1)] k(2) by auto
  have a: "addr H (call_pos H k) < length (sheap s)" "addr H (call_pos H k) < length h'"
    using heap_at_D(1) [OF h] heap_at_D(1) [OF h'(2)] addr_less [OF cp] by simp_all
  have "nid (sheap s ! addr H (call_pos H k)) = int k"
    using heap_at_D(3) [OF h cp] wf_history_pos(3) [OF wf k(1)] by (simp add: node_of_def is_call_def)
  note node = this deref_Some [OF a(1)] deref_Some [OF a(2)]
  let ?ids = "rev (map fst ((k, st) # stk))"
  have "ids ((k, st) # stk) \<subseteq> {..<num_ops H}" using frames_ids [OF fr] by (simp add: stk)
  from callIds_calls_of [OF wf heap_at_D(1,3) [OF h] this]
  have cids: "callIds (sheap s) (scalls s) = Some (map int ?ids)" by (simp only: calls)
  have "linear_prefix m H ?ids" using frames_prefix [OF wf fr] by (simp only: stk)
  from updateLongest_ok [OF lo this subset_refl] obtain l where
    l: "updateLongest (t, map int ?ids) (length (scalls s)) (map int ?ids) (slongest s) = Some l" "longest_ok m H l"
    by blast
  define lg where "lg = (if cp then l else slongest s)"
  have lg: "(if cp then do { seq \<leftarrow> callIds (sheap s) (scalls s);
        updateLongest (t, seq) (length (scalls s)) seq (slongest s) } else Some (slongest s)) = Some lg"
    "longest_ok m H lg"
    using l lo by (simp_all add: cids lg_def del: map_append)
  have top: "scalls s \<noteq> []" "last (scalls s) = \<lparr>centry = Some (addr H (call_pos H k)), cpstate = st\<rparr>"
    "butlast (scalls s) = calls_of H stk" by (simp_all add: calls calls_of_def)
  have "nmatch (sheap s ! addr H (wpos w)) = None" using ce(2) ret by (simp add: node_of_def)
  then have "search_step m cp False (Some (2 * num_ops H)) t s = Some (Continue (s\<lparr>sheap := h',
      sentry := nnext (h' ! addr H (call_pos H k)), sstate := st, slinearized := b, scalls := calls_of H stk,
      slongest := lg\<rparr>))"
    using lg(1) by (simp add: search_step_def ce(1) top node h'(1) b(1))
  moreover have "op_at H (call_pos H k) \<notin> ids stk" using op_at_call [OF wf k(1)] k(2) by simp
  ultimately show ?thesis
    using r h'(2) b(2) lg(2) next_ptr [OF heap_at_D(2) [OF h'(2)] cp]
    by (simp add: refines_def wgl_pop_def)
qed

section \<open>The whole search\<close>

lemma inv_pos:
  assumes wf: "wf_history H" and inv: "wgl_inv m eq H w" and l: "live H (ids (wstack w)) 0 \<noteq> []"
  shows "wpos w < 2 * num_ops H"
proof (rule ccontr)
  assume p: "\<not> wpos w < 2 * num_ops H"
  obtain j where j: "j \<in> set (live H (ids (wstack w)) 0)" using l by (meson last_in_set)
  define k where "k = op_at H j"
  have k: "k < num_ops H" "k \<notin> ids (wstack w)" using j op_at_less [OF wf] by (auto simp: k_def live_set)
  note pos = wf_history_pos [OF wf k(1)]
  have "explored m eq H (wseen w) (ids (wstack w)) (wstate w) (wpos w)" using inv by (simp add: wgl_inv_def)
  moreover have "return_pos H k < wpos w" using p pos(2) by simp
  ultimately have "kind (H ! return_pos H k) = callEntry"
    using k(2) op_at_return [OF wf k(1)] by (simp add: explored_def)
  with pos(4) show False by (simp add: is_return_def)
qed

lemma head_next_iff:
  assumes "refines m H s w"
  shows "deref (sheap s) (Some (2 * num_ops H)) = Some (sheap s ! (2 * num_ops H))"
    and "nnext (sheap s ! (2 * num_ops H)) \<noteq> None \<longleftrightarrow> live H (ids (wstack w)) 0 \<noteq> []"
proof -
  have h: "heap_at H (wstack w) (sheap s)" using assms by (simp add: refines_def)
  show "deref (sheap s) (Some (2 * num_ops H)) = Some (sheap s ! (2 * num_ops H))"
    using heap_at_D(1) [OF h] by simp
  show "nnext (sheap s ! (2 * num_ops H)) \<noteq> None \<longleftrightarrow> live H (ids (wstack w)) 0 \<noteq> []"
    using heap_at_D(2) [OF h] by (cases "live H (ids (wstack w)) 0") (auto simp: linked_def)
qed

lemma search_done:
  assumes wf: "wf_history H" and r: "refines m H s w" and inv: "wgl_inv m eq H w"
    and d: "live H (ids (wstack w)) 0 = []"
  shows "search_spec m H kill (search_loop m cp kill (Some (2 * num_ops H)) t s)"
proof -
  let ?ks = "rev (map fst (wstack w))"
  have fr: "frames_ok m eq H (wseen w) (wstack w) (wstate w)" using inv by (simp add: wgl_inv_def)
  have h: "heap_at H (wstack w) (sheap s)" and calls: "scalls s = calls_of H (wstack w)"
    and lo: "longest_ok m H (slongest s)" using r by (simp_all add: refines_def)
  note fin = wgl_done [OF wf inv d]
  have seq: "callIds (sheap s) (scalls s) = Some (map int ?ks)"
    unfolding calls by (rule callIds_calls_of [OF wf heap_at_D(1,3) [OF h]]) (simp_all add: fin(2))
  have loop: "search_loop m cp kill (Some (2 * num_ops H)) t s
      = Some (Returned (True, map (\<lambda>_. Some (t, map int ?ks)) (slongest s)))"
    using head_next_iff [OF r] d by (subst search_loop.simps) (simp add: seq)
  have lp: "linear_prefix m H ?ks" "set ?ks = {..<num_ops H}"
    using frames_prefix [OF wf fr] fin(2) by (auto simp: ids_def)
  have "length (slongest s) = num_ops H" using lo by (simp add: longest_ok_def)
  then have "longest_ok m H (map (\<lambda>_. Some (t, map int ?ks)) (slongest s))"
    using lp unfolding longest_ok_def by auto
  moreover have "length ?ks = num_ops H"
    using lp distinct_card [of ?ks] by (simp add: linear_prefix_def)
  ultimately show ?thesis
    using fin(1) \<open>length (slongest s) = num_ops H\<close> by (auto simp: search_spec_def loop)
qed

lemma search_loop_correct:
  assumes wf: "wf_history H" and tot: "step_total m H"
  shows "refines m H s w \<Longrightarrow> wgl_inv m eq H w \<Longrightarrow>
    search_spec m H kill (search_loop m cp kill (Some (2 * num_ops H)) t s)"
proof (induction "wgl_measure H w" arbitrary: s w t rule: less_induct)
  case less
  note r = less.prems(1) and inv = less.prems(2)
  show ?case
  proof (cases "live H (ids (wstack w)) 0 = []")
    case True
    with search_done [OF wf r inv] show ?thesis .
  next
    case False
    note p = inv_pos [OF wf inv False]
    have lo: "longest_ok m H (slongest s)" using r by (simp add: refines_def)
    have loop: "search_loop m cp kill (Some (2 * num_ops H)) t s =
       (case search_step m cp (kill t) (Some (2 * num_ops H)) t s of None \<Rightarrow> Some Panic
        | Some (Return b longest) \<Rightarrow> Some (Returned (b, longest))
        | Some (Continue s') \<Rightarrow> search_loop m cp kill (Some (2 * num_ops H)) (Suc t) s')"
      using head_next_iff [OF r] False by (subst search_loop.simps) simp
    have go: ?thesis if "\<not> kill t" and "search_step m cp False (Some (2 * num_ops H)) t s = Some (Continue s')"
      and w': "wgl_step m eq H w = Some w'" and "refines m H s' w'" for s' w'
      using less.hyps [OF wgl_step_decreases [OF wf inv p w'] that(4) wgl_step_inv [OF wf inv p w'], of "Suc t"]
      by (simp add: loop that)
    consider "kill t" | "\<not> kill t" "kind (H ! wpos w) = callEntry"
      | "\<not> kill t" "kind (H ! wpos w) = returnEntry" by (meson entryKind.exhaust)
    then show ?thesis
    proof cases
      case 1
      then show ?thesis using lo by (auto simp: search_spec_def loop search_step_def)
    next
      case 2
      with call_step_refines [OF wf tot r inv p] go show ?thesis by blast
    next
      case 3
      show ?thesis
      proof (cases "wstack w")
        case Nil
        then have "wgl_step m eq H w = None" using 3(2) by (simp add: wgl_step_def)
        note bad = wgl_fail [OF wf inv p this]
        have "nmatch (sheap s ! addr H (wpos w)) = None" "scalls s = []"
          using current_entry(2) [OF r p] 3(2) r Nil by (simp_all add: node_of_def refines_def calls_of_def)
        then have "search_step m cp False (Some (2 * num_ops H)) t s = Some (Return False (slongest s))"
          using current_entry(1) [OF r p] by (simp add: search_step_def)
        with 3(1) bad lo show ?thesis by (auto simp: search_spec_def loop)
      next
        case (Cons ks stk)
        obtain k st where ks: "ks = (k, st)" by (cases ks)
        then have "wgl_step m eq H w = Some (wgl_pop H k st stk w)" using 3(2) Cons by (simp add: wgl_step_def)
        with return_step_refines [OF wf r inv p 3(2)] Cons ks 3(1) go show ?thesis by blast
      qed
    qed
  qed
qed

end

section \<open>The initial state\<close>

lemma live_all: "live H {} 0 = [0..<2 * num_ops H]"
  by (simp add: live_def)

lemma map_addr: "length H = 2 * num_ops H \<Longrightarrow> map (addr H) [0..<2 * num_ops H] = rev [0..<2 * num_ops H]"
  by (rule nth_equalityI) (simp_all add: addr_def rev_nth)

lemma heap_ok_node_of:
  assumes wf: "wf_history H" and h: "heap_ok (rev H) h" and i: "i < 2 * num_ops H"
  shows "node_of H h i"
proof -
  have len: "length H = 2 * num_ops H" using wf by (simp add: wf_history_def)
  have a: "addr H i < length (rev H)" "rev H ! addr H i = H ! i"
    using i len by (simp_all add: addr_def rev_nth)
  have node: "node_ok (rev H) (h ! addr H i) (addr H i)" using h a(1) by (simp add: heap_ok_def)
  show ?thesis
  proof (cases "kind (H ! i)")
    case returnEntry
    with node a(2) show ?thesis by (simp add: node_ok_def node_of_def)
  next
    case callEntry
    define k where "k = op_at H i"
    have k: "k < num_ops H" "call_pos H k = i" "eid (H ! i) = int k"
      using op_at_less [OF wf i] call_pos_op_at [OF wf i callEntry] eid_op_at [OF wf i] by (simp_all add: k_def)
    note pos = wf_history_pos [OF wf k(1)]
    have take: "take (addr H i) (rev H) = rev (drop (Suc i) H)"
      using i len by (simp add: addr_def take_rev)
    have m: "match_ok (rev (drop (Suc i) H)) (int k) (nmatch (h ! addr H i))"
      using node a(2) callEntry k(3) take by (simp add: node_ok_def)
    have "H ! return_pos H k \<in> set (drop (Suc i) H)"
      using pos(1,2) k(2) len by (auto simp: in_set_conv_nth intro!: exI [of _ "return_pos H k - Suc i"])
    with m pos(4) obtain c where c: "nmatch (h ! addr H i) = Some c" "c < length H - Suc i"
      "kind (rev (drop (Suc i) H) ! c) = returnEntry" "eid (rev (drop (Suc i) H) ! c) = int k"
      by (auto simp: match_ok_def is_return_def split: option.splits)
    define j where "j = length H - 1 - c"
    have j: "j < 2 * num_ops H" "c = addr H j" "rev (drop (Suc i) H) ! c = H ! j"
      using c(2) i len by (auto simp: j_def addr_def rev_nth nth_drop intro!: arg_cong [of _ _ "(!) H"])
    have "op_at H j = k" using c(4) j(3) by (simp add: op_at_def)
    with return_pos_op_at [OF wf j(1)] c(3) j(3) have "return_pos H k = j" by simp
    with c(1) j(2) callEntry node a(2) show ?thesis by (simp add: node_of_def node_ok_def flip: k_def)
  qed
qed

lemma node_of_append:
  assumes "same_data (h @ [nd]) h'" and "i < 2 * num_ops H" and "length h = 2 * num_ops H" and "node_of H h i"
  shows "node_of H h' i"
  using assms addr_less [OF assms(2)] by (simp add: node_of_def same_data_def nth_append less_Suc_eq)

lemma head_heap_at:
  assumes wf: "wf_history H" and h: "heap_ok (rev H) h" and root: "list_ok h root"
    and nd: "nprev nd = None" "nnext nd = None"
  shows "\<exists>h'. insertBefore (h @ [nd]) (Some (length h)) root = Some (h', Some (2 * num_ops H)) \<and> heap_at H [] h'"
proof -
  have len: "length H = 2 * num_ops H" "length h = 2 * num_ops H" using wf h by (simp_all add: wf_history_def heap_ok_def)
  from list_ok_snoc [OF root nd] obtain h' where h': "insertBefore (h @ [nd]) (Some (length h)) root = Some (h', Some (length h))"
    "list_ok h' (Some (length h))" "same_data (h @ [nd]) h'" by blast
  have len': "length h' = 2 * num_ops H + 1" using h'(3) len by (simp add: same_data_def)
  then have "linked h' (2 * num_ops H) (rev [0..<2 * num_ops H])"
    using h'(2) by (auto simp: list_ok_def split: if_splits)
  then have "linked h' (2 * num_ops H) (map (addr H) (live H {} 0))"
    by (simp only: live_all map_addr [OF len(1)])
  moreover have "\<forall>i<2 * num_ops H. node_of H h' i"
    using node_of_append [OF h'(3) _ len(2)] heap_ok_node_of [OF wf h] by blast
  ultimately show ?thesis using h'(1) len len' by auto
qed

lemma list_ok_root: "list_ok h root \<Longrightarrow> length h = 2 * num_ops H \<Longrightarrow>
    root = (if 0 < 2 * num_ops H then Some (addr H 0) else None)"
  by (cases "num_ops H") (auto simp: list_ok_def addr_def split: if_splits)

context checkable_model
begin

lemma checkSingle_spec:
  assumes wf: "wf_history H" and tot: "step_total m H"
  shows "search_spec m H kill (checkSingle m H cp kill)"
proof -
  obtain h root where h: "makeLinkedEntries H = Some (h, root)" "heap_ok (rev H) h" "list_ok h root"
    using makeLinkedEntries_ok by blast
  have len: "length h = 2 * num_ops H" using wf h(2) by (simp add: wf_history_def heap_ok_def)
  let ?nd = "\<lparr>nvalue = None, nmatch = None, nid = -1, nnext = None, nprev = None\<rparr>"
  obtain h' where h': "insertBefore (h @ [?nd]) (Some (length h)) root = Some (h', Some (2 * num_ops H))" "heap_at H [] h'"
    using head_heap_at [OF wf h(2,3), of ?nd] by auto
  let ?s = "\<lparr>sheap = h', sentry = root, sstate = Init m, slinearized = newBitset (num_ops H), scache = (\<lambda>_. []),
    scalls = [], slongest = replicate (num_ops H) None\<rparr>"
  have "refines m H ?s (wgl_start m)"
    using h'(2) list_ok_root [OF h(3) len]
    by (simp add: refines_def wgl_start_def bits_ok_def bs.ids_new cache_ok_def calls_of_def longest_ok_def)
  from search_loop_correct [OF wf tot this wgl_start_inv] have
    "search_spec m H kill (search_loop m cp kill (Some (2 * num_ops H)) 0 ?s)" .
  moreover have "checkSingle m H cp kill = search_loop m cp kill (Some (2 * num_ops H)) 0 ?s"
    using h(1) length_nodes_ok [OF h(3)] h'(1) len by (simp add: checkSingle_def Let_def)
  ultimately show ?thesis by simp
qed

end

end
