(* ===== verification/KeyValue.thy ===== *)
theory KeyValue
  imports Linearizability "HOL-Library.AList" "HOL-Library.Word"
begin

text \<open>
  \<open>models/kv.go\<close>: the model of one key of a key/value store that the tests of kvraft and shardkv
  check their histories against, and its partition of a history by key.
\<close>

record KvInput =
  kvOp :: "8 word"
  kvKey :: string
  kvValue :: string

record KvOutput =
  kvResult :: string

text \<open>The dynamic types that the model meets behind \<open>interface{}\<close>.\<close>

datatype kv_value = KvIn KvInput | KvOut KvOutput

fun asKvInput :: "kv_value option \<Rightarrow> KvInput option" where
  "asKvInput (Some (KvIn inp)) = Some inp"
| "asKvInput _ = None"

fun asKvOutput :: "kv_value option \<Rightarrow> KvOutput option" where
  "asKvOutput (Some (KvOut out)) = Some out"
| "asKvOutput _ = None"

definition kvStep :: "string \<Rightarrow> kv_value option \<Rightarrow> kv_value option \<Rightarrow> (bool \<times> string) option" where
  "kvStep st input output = (case asKvInput input of None \<Rightarrow> None | Some inp \<Rightarrow>
     case asKvOutput output of None \<Rightarrow> None | Some out \<Rightarrow>
     if kvOp inp = 0 then Some (kvResult out = st, st)
     else if kvOp inp = 1 then Some (True, kvValue inp)
     else Some (True, st @ kvValue inp))"

text \<open>
  The partition: a map from keys to operations, filled in the order of the history. Go ranges
  over a map in an arbitrary order, but the keys are sorted afterwards.
\<close>

fun kvCollect :: "(string \<times> kv_value Operation list) list \<Rightarrow> kv_value Operation list
    \<Rightarrow> (string \<times> kv_value Operation list) list option" where
  "kvCollect m [] = Some m"
| "kvCollect m (v # history) = (case asKvInput (opInput v) of None \<Rightarrow> None
   | Some inp \<Rightarrow> kvCollect (AList.update (kvKey inp)
       ((case map_of m (kvKey inp) of None \<Rightarrow> [] | Some ops \<Rightarrow> ops) @ [v]) m) history)"

definition kvPartition :: "kv_value Operation list \<Rightarrow> kv_value Operation list list option" where
  "kvPartition history = (case kvCollect [] history of None \<Rightarrow> None
     | Some m \<Rightarrow> let keys = sort (map fst m) in
         Some (map (\<lambda>k. case map_of m k of None \<Rightarrow> [] | Some ops \<Rightarrow> ops) keys))"

definition kvDescribeOperation :: "kv_value option \<Rightarrow> kv_value option \<Rightarrow> string option" where
  "kvDescribeOperation input output = (case asKvInput input of None \<Rightarrow> None | Some inp \<Rightarrow>
     case asKvOutput output of None \<Rightarrow> None | Some out \<Rightarrow>
     Some (if kvOp inp = 0 then ''get('' @ [CHR 39] @ kvKey inp @ [CHR 39] @ '') -> '' @ [CHR 39] @ kvResult out @ [CHR 39]
       else if kvOp inp = 1 then ''put('' @ [CHR 39] @ kvKey inp @ [CHR 39] @ '', '' @ [CHR 39] @ kvValue inp @ [CHR 39] @ '')''
       else if kvOp inp = 2 then ''append('' @ [CHR 39] @ kvKey inp @ [CHR 39] @ '', '' @ [CHR 39] @ kvValue inp @ [CHR 39] @ '')''
       else ''<invalid>''))"

definition KvModel :: "(kv_value, string) Model" where
  "KvModel = \<lparr>Partition = Some kvPartition, PartitionEvent = None, Init = '''', Step = kvStep, Equal = None,
     DescribeOperation = Some kvDescribeOperation, DescribeState = None\<rparr>"

section \<open>The model is one the checker can use\<close>

text \<open>
  \<open>KvModel\<close> leaves \<open>Equal\<close> to \<open>fillDefault\<close>, which sets \<open>ShallowEqual\<close>; \<open>Step\<close> panics only on values
  of the wrong type.
\<close>

lemma KvModel_fields [simp]: "Init KvModel = []" "Step KvModel = kvStep"
  by (simp_all add: KvModel_def)

lemma fillDefault_kv [simp]:
  "Partition (fillDefault d1 d2 KvModel) = Some kvPartition"
  "Init (fillDefault d1 d2 KvModel) = ''''" "Step (fillDefault d1 d2 KvModel) = kvStep"
  "Equal (fillDefault d1 d2 KvModel) = Some ShallowEqual"
  by (simp_all add: fillDefault_def KvModel_def Let_def)

interpretation kv: checkable_model "fillDefault d1 d2 KvModel" ShallowEqual for d1 d2
  by (rule ShallowEqual_checkable) simp

definition kv_typed :: "kv_value entry \<Rightarrow> bool" where
  "kv_typed e = (case kind e of callEntry \<Rightarrow> asKvInput (evalue e) \<noteq> None
     | returnEntry \<Rightarrow> asKvOutput (evalue e) \<noteq> None)"

lemma kv_step_total:
  assumes wf: "wf_history H" and ty: "list_all kv_typed H" and st: "Step m = kvStep"
  shows "step_total m H"
  unfolding step_total_def
proof (intro allI impI)
  fix s k assume k: "k < num_ops H"
  note pos = wf_history_pos [OF wf k]
  have "length H = 2 * num_ops H" using wf by (simp add: wf_history_def)
  then have "kv_typed (H ! call_pos H k)" "kv_typed (H ! return_pos H k)"
    using ty pos(1,2) by (auto simp: list_all_length)
  then have "asKvInput (op_in H k) \<noteq> None" "asKvOutput (op_out H k) \<noteq> None"
    using pos(3,4) by (auto simp: kv_typed_def is_call_def is_return_def op_in_def op_out_def)
  then show "Step m s (op_in H k) (op_out H k) \<noteq> None" by (auto simp: st kvStep_def)
qed

end
