(* ===== verification/CheckParallel.thy ===== *)
theory CheckParallel
  imports CheckSingle KeyValue
begin

text \<open>
  \<open>checkParallel\<close> of \<open>porcupine/checker.go\<close>: one goroutine per partition runs \<open>checkSingle\<close> and sends
  its verdict on a buffered channel; the main goroutine receives verdicts until one is negative,
  all are in, or the timer fires, and sets the flag \<open>kill\<close>. The interleavings are an inductive step
  relation. A goroutine's run is one step, taken when its verdict is sent: as long as \<open>kill\<close> is not
  set all its loads of the flag see 0, and afterwards they may see anything. A panic of a goroutine
  is the phase \<open>Crashed\<close>.
\<close>

section \<open>The code\<close>

datatype CheckResult = Unknown | Ok | Illegal

datatype phase = Selecting | Draining | Finished | Crashed

record par =
  pkill :: bool
  prunning :: "nat set"
  pchan :: "bool list"
  plongest :: "nat \<Rightarrow> longest"
  pok :: bool
  ptimedOut :: bool
  pcount :: nat
  pphase :: phase

definition par_start :: "'v entry list list \<Rightarrow> par" where
  "par_start history = \<lparr>pkill = False, prunning = {..<length history}, pchan = [], plongest = (\<lambda>_. []),
     pok = True, ptimedOut = False, pcount = 0, pphase = Selecting\<rparr>"

text \<open>The two cases of the \<open>select\<close> statement.\<close>

definition on_result :: "nat \<Rightarrow> bool \<Rightarrow> bool \<Rightarrow> par \<Rightarrow> par" where
  "on_result n computeInfo result p =
     (let p = p\<lparr>pcount := pcount p + 1, pok := pok p \<and> result\<rparr> in
      if \<not> pok p \<and> \<not> computeInfo then p\<lparr>pkill := True, pphase := Draining\<rparr>
      else if n \<le> pcount p then p\<lparr>pphase := Draining\<rparr>
      else p)"

definition on_timeout :: "par \<Rightarrow> par" where
  "on_timeout p = p\<lparr>pkill := True, ptimedOut := True, pphase := Draining\<rparr>"

inductive par_step :: "('v, 's) Model \<Rightarrow> 'v entry list list \<Rightarrow> bool \<Rightarrow> int \<Rightarrow> par \<Rightarrow> par \<Rightarrow> bool"
  for model :: "('v, 's) Model" and history :: "'v entry list list" and computeInfo :: bool and timeout :: int where
  goroutine: "par_step model history computeInfo timeout p
      (p\<lparr>prunning := prunning p - {i}, plongest := (plongest p)(i := l), pchan := pchan p @ [ok]\<rparr>)"
    if "i \<in> prunning p" and "\<not> pkill p \<longrightarrow> (\<forall>t. \<not> kill t)"
      and "checkSingle model (history ! i) computeInfo kill = Some (Returned (ok, l))"
| goroutine_panic: "par_step model history computeInfo timeout p (p\<lparr>pphase := Crashed\<rparr>)"
    if "i \<in> prunning p" and "\<not> pkill p \<longrightarrow> (\<forall>t. \<not> kill t)"
      and "checkSingle model (history ! i) computeInfo kill = Some Panic"
| select_result: "par_step model history computeInfo timeout p
      (on_result (length history) computeInfo result (p\<lparr>pchan := results\<rparr>))"
    if "pphase p = Selecting" and "pchan p = result # results"
| select_timeout: "par_step model history computeInfo timeout p (on_timeout p)"
    if "pphase p = Selecting" and "0 < timeout"
| drain: "par_step model history computeInfo timeout p (p\<lparr>pchan := results, pcount := pcount p + 1\<rparr>)"
    if "pphase p = Draining" and "computeInfo" and "pcount p < length history" and "pchan p = result # results"
| main_done: "par_step model history computeInfo timeout p (p\<lparr>pphase := Finished\<rparr>)"
    if "pphase p = Draining" and "\<not> (computeInfo \<and> pcount p < length history)"

definition par_result :: "par \<Rightarrow> CheckResult" where
  "par_result p = (if \<not> pok p then Illegal else if ptimedOut p then Unknown else Ok)"

text \<open>
  \<open>partialLinearizations\<close>: of each partition, the sequences that \<open>longest\<close> points to, each pointer
  once. Go ranges over the set of pointers in an arbitrary order.
\<close>

definition partials_of :: "longest \<Rightarrow> int list list" where
  "partials_of longest = map snd (remdups (map the (filter (\<lambda>v. v \<noteq> None) longest)))"

record 'v linearizationInfo =
  infoHistory :: "'v entry list list"
  partialLinearizations :: "int list list list"

definition par_info :: "'v entry list list \<Rightarrow> bool \<Rightarrow> par \<Rightarrow> 'v linearizationInfo" where
  "par_info history computeInfo p = (if computeInfo
     then \<lparr>infoHistory = history, partialLinearizations = map (\<lambda>i. partials_of (plongest p i)) [0..<length history]\<rparr>
     else \<lparr>infoHistory = [], partialLinearizations = []\<rparr>)"

section \<open>The invariant\<close>

definition runs_ok :: "('v, 's) Model \<Rightarrow> 'v entry list list \<Rightarrow> par \<Rightarrow> bool" where
  "runs_ok m history p \<longleftrightarrow> prunning p \<subseteq> {..<length history}
     \<and> length (pchan p) + pcount p + card (prunning p) = length history
     \<and> (\<forall>i<length history. i \<notin> prunning p \<longrightarrow> longest_ok m (history ! i) (plongest p i))"

definition verdicts_ok :: "('v, 's) Model \<Rightarrow> 'v entry list list \<Rightarrow> par \<Rightarrow> bool" where
  "verdicts_ok m history p \<longleftrightarrow>
     (\<not> pok p \<longrightarrow> (\<exists>i<length history. \<not> linearizable m (history ! i)))
     \<and> (\<not> pkill p \<longrightarrow> (pok p \<and> (\<forall>b\<in>set (pchan p). b) \<longleftrightarrow>
          (\<forall>i<length history. i \<notin> prunning p \<longrightarrow> linearizable m (history ! i))))"

definition mode_ok :: "nat \<Rightarrow> bool \<Rightarrow> int \<Rightarrow> par \<Rightarrow> bool" where
  "mode_ok n ci timeout p \<longleftrightarrow>
     (pphase p = Selecting \<longrightarrow> \<not> pkill p \<and> \<not> ptimedOut p \<and> (0 < n \<longrightarrow> pcount p < n))
     \<and> (pphase p \<noteq> Selecting \<longrightarrow> (if pkill p then ptimedOut p \<or> \<not> pok p else \<not> ptimedOut p \<and> n \<le> pcount p))
     \<and> pphase p \<noteq> Crashed \<and> (ptimedOut p \<longrightarrow> 0 < timeout)
     \<and> (ci \<and> pphase p = Finished \<longrightarrow> n \<le> pcount p)"

definition par_inv :: "('v, 's) Model \<Rightarrow> 'v entry list list \<Rightarrow> bool \<Rightarrow> int \<Rightarrow> par \<Rightarrow> bool" where
  "par_inv m history ci timeout p \<longleftrightarrow>
     runs_ok m history p \<and> verdicts_ok m history p \<and> mode_ok (length history) ci timeout p"

definition par_measure :: "par \<Rightarrow> nat" where
  "par_measure p = 2 * card (prunning p) + length (pchan p)
     + (case pphase p of Selecting \<Rightarrow> 2 | Draining \<Rightarrow> 1 | _ \<Rightarrow> 0)"

definition checkable_histories :: "('v, 's) Model \<Rightarrow> 'v entry list list \<Rightarrow> bool" where
  "checkable_histories m history \<longleftrightarrow> (\<forall>H\<in>set history. wf_history H \<and> step_total m H)"

lemma par_start_inv: "par_inv m history ci timeout (par_start history)"
  by (simp add: par_inv_def par_start_def runs_ok_def verdicts_ok_def mode_ok_def)

lemma on_result_inv:
  assumes inv: "par_inv m history ci timeout p" and sel: "pphase p = Selecting" and ch: "pchan p = b # bs"
  shows "par_inv m history ci timeout (on_result (length history) ci b (p\<lparr>pchan := bs\<rparr>))"
proof -
  let ?n = "length history"
  have r: "runs_ok m history p" and v: "verdicts_ok m history p" and mo: "mode_ok ?n ci timeout p"
    using inv by (simp_all add: par_inv_def)
  have k: "\<not> pkill p" using mo sel by (simp add: mode_ok_def)
  have "runs_ok m history (on_result ?n ci b (p\<lparr>pchan := bs\<rparr>))"
    using r ch by (simp add: runs_ok_def on_result_def Let_def)
  moreover have "verdicts_ok m history (on_result ?n ci b (p\<lparr>pchan := bs\<rparr>))"
  proof -
    have all: "(pok p \<and> b) \<and> (\<forall>b\<in>set bs. b) \<longleftrightarrow> (\<forall>i<?n. i \<notin> prunning p \<longrightarrow> linearizable m (history ! i))"
      using v k ch by (simp add: verdicts_ok_def)
    then have bad: "\<exists>i<?n. \<not> linearizable m (history ! i)" if "\<not> (pok p \<and> b)" using that by blast
    have fields: "pok (on_result ?n ci b (p\<lparr>pchan := bs\<rparr>)) \<longleftrightarrow> pok p \<and> b"
      "pchan (on_result ?n ci b (p\<lparr>pchan := bs\<rparr>)) = bs"
      "prunning (on_result ?n ci b (p\<lparr>pchan := bs\<rparr>)) = prunning p"
      by (simp_all add: on_result_def Let_def)
    show ?thesis unfolding verdicts_ok_def fields by (intro conjI impI, erule bad, rule all)
  qed
  moreover have "mode_ok ?n ci timeout (on_result ?n ci b (p\<lparr>pchan := bs\<rparr>))"
  proof -
    have t: "\<not> ptimedOut p" using mo sel by (simp add: mode_ok_def)
    consider "\<not> (pok p \<and> b) \<and> \<not> ci" | "pok p \<and> b \<or> ci" "?n \<le> Suc (pcount p)" | "pok p \<and> b \<or> ci" "\<not> ?n \<le> Suc (pcount p)"
      by blast
    then show ?thesis
    proof cases
      case 1
      then show ?thesis using t by (auto simp: on_result_def Let_def mode_ok_def)
    next
      case 2
      then have "on_result ?n ci b (p\<lparr>pchan := bs\<rparr>)
          = p\<lparr>pchan := bs, pcount := Suc (pcount p), pok := pok p \<and> b, pphase := Draining\<rparr>"
        by (auto simp: on_result_def Let_def)
      then show ?thesis using k t 2(2) by (simp add: mode_ok_def)
    next
      case 3
      then have "on_result ?n ci b (p\<lparr>pchan := bs\<rparr>) = p\<lparr>pchan := bs, pcount := Suc (pcount p), pok := pok p \<and> b\<rparr>"
        by (auto simp: on_result_def Let_def)
      then show ?thesis using k t 3(2) sel by (simp add: mode_ok_def)
    qed
  qed
  ultimately show ?thesis by (simp add: par_inv_def)
qed

lemma all_received:
  assumes r: "runs_ok m history p" and "length history \<le> pcount p"
  shows "prunning p = {}" and "pchan p = []"
proof -
  have fin: "finite (prunning p)" using r by (auto simp: runs_ok_def intro: finite_subset)
  have "length (pchan p) + pcount p + card (prunning p) = length history" using r by (simp add: runs_ok_def)
  with assms(2) have "card (prunning p) = 0" "length (pchan p) = 0" by linarith+
  with fin show "prunning p = {}" "pchan p = []" by simp_all
qed

context checkable_model
begin

lemma run_spec:
  assumes "checkable_histories m history" and "i < length history"
    and "checkSingle m (history ! i) ci kill = Some r"
  shows "\<exists>b l. r = Returned (b, l) \<and> longest_ok m (history ! i) l \<and> (b \<longrightarrow> linearizable m (history ! i))
    \<and> (\<not> b \<longrightarrow> \<not> linearizable m (history ! i) \<or> (\<exists>t. kill t))"
proof -
  have "wf_history (history ! i)" "step_total m (history ! i)"
    using assms(1,2) by (simp_all add: checkable_histories_def)
  from checkSingle_spec [OF this, of kill ci] assms(3) show ?thesis by (auto simp: search_spec_def)
qed

lemma goroutine_inv:
  assumes c: "checkable_histories m history" and inv: "par_inv m history ci timeout p" and i: "i \<in> prunning p"
    and k: "\<not> pkill p \<longrightarrow> (\<forall>t. \<not> kill t)"
    and r: "checkSingle m (history ! i) ci kill = Some (Returned (ok, l))"
  shows "par_inv m history ci timeout (p\<lparr>prunning := prunning p - {i}, plongest := (plongest p)(i := l), pchan := pchan p @ [ok]\<rparr>)"
proof -
  have in_range: "i < length history" and fin: "finite (prunning p)"
    using inv i by (auto simp: par_inv_def runs_ok_def intro: finite_subset)
  from run_spec [OF c in_range r] k have spec: "longest_ok m (history ! i) l"
    "\<not> pkill p \<longrightarrow> (ok \<longleftrightarrow> linearizable m (history ! i))" by auto
  let ?p = "p\<lparr>prunning := prunning p - {i}, plongest := (plongest p)(i := l), pchan := pchan p @ [ok]\<rparr>"
  have r': "runs_ok m history p" and v: "verdicts_ok m history p" and mo: "mode_ok (length history) ci timeout p"
    using inv by (simp_all add: par_inv_def)
  have "card (prunning p) = Suc (card (prunning p - {i}))" using card_Suc_Diff1 [OF fin i] by simp
  moreover have "longest_ok m (history ! j) (plongest ?p j)" if "j < length history" "j \<notin> prunning p - {i}" for j
    using that r' spec(1) by (cases "j = i") (simp_all add: runs_ok_def)
  ultimately have "runs_ok m history ?p" using r' by (simp add: runs_ok_def subset_iff)
  moreover have "verdicts_ok m history ?p"
  proof -
    have "(\<forall>j<length history. j \<notin> prunning p - {i} \<longrightarrow> linearizable m (history ! j)) \<longleftrightarrow>
        linearizable m (history ! i) \<and> (\<forall>j<length history. j \<notin> prunning p \<longrightarrow> linearizable m (history ! j))"
      using i in_range by auto
    moreover have "(\<forall>b\<in>set (pchan p @ [ok]). b) \<longleftrightarrow> (\<forall>b\<in>set (pchan p). b) \<and> ok" by auto
    moreover have "pok p \<and> (\<forall>b\<in>set (pchan p). b) \<longleftrightarrow>
        (\<forall>j<length history. j \<notin> prunning p \<longrightarrow> linearizable m (history ! j))" if "\<not> pkill p"
      using v that by (simp add: verdicts_ok_def)
    ultimately have "\<not> pkill p \<Longrightarrow> pok p \<and> (\<forall>b\<in>set (pchan p @ [ok]). b) \<longleftrightarrow>
        (\<forall>j<length history. j \<notin> prunning p - {i} \<longrightarrow> linearizable m (history ! j))"
      using spec(2) by argo
    moreover have fields: "pok ?p = pok p" "pkill ?p = pkill p" "pchan ?p = pchan p @ [ok]" "prunning ?p = prunning p - {i}"
      by simp_all
    moreover have "\<not> pok p \<Longrightarrow> \<exists>i<length history. \<not> linearizable m (history ! i)" using v by (simp add: verdicts_ok_def)
    ultimately show ?thesis unfolding verdicts_ok_def fields by (intro conjI impI)
  qed
  moreover have "mode_ok (length history) ci timeout ?p" using mo by (simp add: mode_ok_def)
  ultimately show ?thesis by (simp add: par_inv_def)
qed

lemma par_step_inv:
  assumes c: "checkable_histories m history"
    and inv: "par_inv m history ci timeout p" and step: "par_step m history ci timeout p p'"
  shows "par_inv m history ci timeout p'"
  using step
proof (cases rule: par_step.cases)
  case (goroutine i kill ok l)
  then show ?thesis using goroutine_inv [OF c inv] by blast
next
  case (goroutine_panic i kill)
  have "i < length history" using inv goroutine_panic(2) by (auto simp: par_inv_def runs_ok_def)
  from run_spec [OF c this goroutine_panic(4)] show ?thesis by simp
next
  case (select_result result results)
  then show ?thesis using on_result_inv [OF inv] by blast
next
  case select_timeout
  then show ?thesis using inv by (simp add: par_inv_def on_timeout_def runs_ok_def verdicts_ok_def mode_ok_def)
next
  case (drain result results)
  then have "pkill p" using inv by (auto simp: par_inv_def mode_ok_def split: if_splits)
  with drain inv show ?thesis by (simp add: par_inv_def runs_ok_def verdicts_ok_def mode_ok_def)
next
  case main_done
  then have "mode_ok (length history) ci timeout p'" using inv by (auto simp: par_inv_def mode_ok_def)
  with main_done inv show ?thesis by (simp add: par_inv_def runs_ok_def verdicts_ok_def)
qed

lemma par_system:
  assumes "checkable_histories m history"
  shows "invariant_system (\<lambda>p. p = par_start history) (par_step m history ci timeout) (par_inv m history ci timeout)"
  by unfold_locales (use par_start_inv par_step_inv [OF assms] in \<open>blast+\<close>)

lemmas par_reach_inv = invariant_system.reach_inv [OF par_system]

lemma par_step_decreases:
  assumes c: "checkable_histories m history" and inv: "par_inv m history ci timeout p"
    and step: "par_step m history ci timeout p p'"
  shows "par_measure p' < par_measure p"
  using step
proof (cases rule: par_step.cases)
  case (goroutine i kill ok l)
  have "finite (prunning p)" using inv by (auto simp: par_inv_def runs_ok_def intro: finite_subset)
  from card_Suc_Diff1 [OF this goroutine(2)] show ?thesis unfolding goroutine(1) by (simp add: par_measure_def)
next
  case (goroutine_panic i kill)
  have "i < length history" using inv goroutine_panic(2) by (auto simp: par_inv_def runs_ok_def)
  from run_spec [OF c this goroutine_panic(4)] show ?thesis by simp
next
  case (select_result result results)
  then show ?thesis by (simp add: par_measure_def on_result_def Let_def)
qed (simp_all add: par_measure_def on_timeout_def)

lemma par_progress:
  assumes c: "checkable_histories m history" and inv: "par_inv m history ci timeout p"
    and ne: "history \<noteq> []" and ph: "pphase p \<noteq> Finished"
  shows "\<exists>p'. par_step m history ci timeout p p'"
proof (cases "prunning p = {}")
  case False
  then obtain i where i: "i \<in> prunning p" by blast
  then have "i < length history" using inv by (auto simp: par_inv_def runs_ok_def)
  then have "wf_history (history ! i)" "step_total m (history ! i)" using c by (simp_all add: checkable_histories_def)
  from checkSingle_spec [OF this, of "\<lambda>_. False" ci] obtain ok l where
    run: "checkSingle m (history ! i) ci (\<lambda>_. False) = Some (Returned (ok, l))" by (auto simp: search_spec_def)
  show ?thesis by (rule exI, rule par_step.goroutine [OF i _ run]) simp
next
  case True
  then have cnt: "length (pchan p) + pcount p = length history" and mo: "mode_ok (length history) ci timeout p"
    using inv by (simp_all add: par_inv_def runs_ok_def)
  consider "pphase p = Selecting" | "pphase p = Draining" using mo ph by (cases "pphase p") (auto simp: mode_ok_def)
  then show ?thesis
  proof cases
    case 1
    then have "pcount p < length history" using mo ne by (simp add: mode_ok_def)
    then obtain b bs where ch: "pchan p = b # bs" using cnt by (cases "pchan p") auto
    show ?thesis by (rule exI, rule par_step.select_result [OF 1 ch])
  next
    case 2
    show ?thesis
    proof (cases "ci \<and> pcount p < length history")
      case True
      then obtain b bs where ch: "pchan p = b # bs" using cnt by (cases "pchan p") auto
      show ?thesis by (rule exI, rule par_step.drain [OF 2 _ _ ch]) (use True in auto)
    next
      case False
      show ?thesis by (rule exI, rule par_step.main_done [OF 2 False])
    qed
  qed
qed

lemma par_final:
  assumes inv: "par_inv m history ci timeout p" and fin: "pphase p = Finished"
  shows "par_result p = Ok \<Longrightarrow> list_all (linearizable m) history"
    and "par_result p = Illegal \<Longrightarrow> \<not> list_all (linearizable m) history"
    and "par_result p = Unknown \<Longrightarrow> 0 < timeout"
proof -
  have r: "runs_ok m history p" and v: "verdicts_ok m history p" and mo: "mode_ok (length history) ci timeout p"
    using inv by (simp_all add: par_inv_def)
  show "\<not> list_all (linearizable m) history" if "par_result p = Illegal"
    using that v by (auto simp: par_result_def verdicts_ok_def list_all_length split: if_splits)
  show "0 < timeout" if "par_result p = Unknown"
    using that mo by (auto simp: par_result_def mode_ok_def split: if_splits)
  assume ok: "par_result p = Ok"
  then have "pok p" "\<not> ptimedOut p" by (auto simp: par_result_def split: if_splits)
  then have k: "\<not> pkill p" "length history \<le> pcount p" using mo fin by (auto simp: mode_ok_def split: if_splits)
  show "list_all (linearizable m) history"
    using v k(1) \<open>pok p\<close> all_received [OF r k(2)] by (simp add: verdicts_ok_def list_all_length)
qed

lemma par_info_ok:
  assumes inv: "par_inv m history True timeout p" and fin: "pphase p = Finished" and i: "i < length history"
    and seq: "seq \<in> set (partialLinearizations (par_info history True p) ! i)"
  shows "\<exists>ks. seq = map int ks \<and> linear_prefix m (history ! i) ks"
proof -
  have r: "runs_ok m history p" and mo: "mode_ok (length history) True timeout p"
    using inv by (simp_all add: par_inv_def)
  have "prunning p = {}" by (rule all_received [OF r]) (use mo fin in \<open>simp add: mode_ok_def\<close>)
  then have lo: "longest_ok m (history ! i) (plongest p i)" using r i by (simp add: runs_ok_def)
  from seq i obtain t where "Some (t, seq) \<in> set (plongest p i)"
    by (auto simp: par_info_def partials_of_def)
  then obtain j where "j < length (plongest p i)" "plongest p i ! j = Some (t, seq)" by (auto simp: in_set_conv_nth)
  with lo show ?thesis unfolding longest_ok_def by metis
qed

end

end
