(* ===== verification/CheckOperations.thy ===== *)
theory CheckOperations
  imports CheckParallel
begin

text \<open>
  \<open>checkOperations\<close> and \<open>CheckOperations\<close>, \<open>CheckOperationsTimeout\<close>, \<open>CheckOperationsVerbose\<close>
  (\<open>porcupine/checker.go\<close>, \<open>porcupine/porcupine.go\<close>). The goroutines may interleave in many ways, so
  each is the relation of the results it can return. \<open>makeEntries\<close> sorts with Go's \<open>sort.Sort\<close>, an
  argument with the contract of the locale \<open>sorter\<close>; it is shown that the verdict does not depend
  on how it orders equal elements, because calls come before returns of the same time.
\<close>

section \<open>The code\<close>

definition operation_entries ::
  "(('v entry \<Rightarrow> 'v entry \<Rightarrow> bool) \<Rightarrow> 'v entry list \<Rightarrow> 'v entry list) \<Rightarrow> ('v, 's) Model
    \<Rightarrow> 'v Operation list \<Rightarrow> 'v entry list list option" where
  "operation_entries sort_slice model history = (case Partition model of None \<Rightarrow> None
     | Some part \<Rightarrow> map_option (map (makeEntries sort_slice)) (part history))"

definition checkParallel :: "('v, 's) Model \<Rightarrow> 'v entry list list \<Rightarrow> bool \<Rightarrow> int
    \<Rightarrow> CheckResult \<times> 'v linearizationInfo \<Rightarrow> bool" where
  "checkParallel model history computeInfo timeout r \<longleftrightarrow>
     (\<exists>p. reach (\<lambda>p. p = par_start history) (par_step model history computeInfo timeout) p
        \<and> pphase p = Finished \<and> r = (par_result p, par_info history computeInfo p))"

definition checkOperations ::
  "(('v entry \<Rightarrow> 'v entry \<Rightarrow> bool) \<Rightarrow> 'v entry list \<Rightarrow> 'v entry list)
    \<Rightarrow> ('v option \<Rightarrow> 'v option \<Rightarrow> string option) \<Rightarrow> ('s \<Rightarrow> string) \<Rightarrow> ('v, 's) Model \<Rightarrow> 'v Operation list \<Rightarrow> bool \<Rightarrow> int
    \<Rightarrow> CheckResult \<times> 'v linearizationInfo \<Rightarrow> bool" where
  "checkOperations sort_slice descOp descState model history verbose timeout r =
     (let model = fillDefault descOp descState model in
      case operation_entries sort_slice model history of None \<Rightarrow> False
      | Some l \<Rightarrow> checkParallel model l verbose timeout r)"

definition CheckOperations ::
  "(('v entry \<Rightarrow> 'v entry \<Rightarrow> bool) \<Rightarrow> 'v entry list \<Rightarrow> 'v entry list)
    \<Rightarrow> ('v option \<Rightarrow> 'v option \<Rightarrow> string option) \<Rightarrow> ('s \<Rightarrow> string) \<Rightarrow> ('v, 's) Model \<Rightarrow> 'v Operation list \<Rightarrow> bool \<Rightarrow> bool" where
  "CheckOperations sort_slice descOp descState model history b \<longleftrightarrow>
     (\<exists>res info. checkOperations sort_slice descOp descState model history False 0 (res, info) \<and> b = (res = Ok))"

definition CheckOperationsTimeout ::
  "(('v entry \<Rightarrow> 'v entry \<Rightarrow> bool) \<Rightarrow> 'v entry list \<Rightarrow> 'v entry list)
    \<Rightarrow> ('v option \<Rightarrow> 'v option \<Rightarrow> string option) \<Rightarrow> ('s \<Rightarrow> string) \<Rightarrow> ('v, 's) Model \<Rightarrow> 'v Operation list \<Rightarrow> int
    \<Rightarrow> CheckResult \<Rightarrow> bool" where
  "CheckOperationsTimeout sort_slice descOp descState model history timeout res \<longleftrightarrow>
     (\<exists>info. checkOperations sort_slice descOp descState model history False timeout (res, info))"

definition CheckOperationsVerbose ::
  "(('v entry \<Rightarrow> 'v entry \<Rightarrow> bool) \<Rightarrow> 'v entry list \<Rightarrow> 'v entry list)
    \<Rightarrow> ('v option \<Rightarrow> 'v option \<Rightarrow> string option) \<Rightarrow> ('s \<Rightarrow> string) \<Rightarrow> ('v, 's) Model \<Rightarrow> 'v Operation list \<Rightarrow> int
    \<Rightarrow> CheckResult \<times> 'v linearizationInfo \<Rightarrow> bool" where
  "CheckOperationsVerbose sort_slice descOp descState model history timeout r =
     checkOperations sort_slice descOp descState model history True timeout r"

section \<open>The entries of a list of operations\<close>

definition call_entry :: "'v Operation list \<Rightarrow> nat \<Rightarrow> 'v entry" where
  "call_entry ops k = \<lparr>kind = callEntry, evalue = opInput (ops ! k), eid = int k, etime = opCall (ops ! k),
     eclientId = opClientId (ops ! k)\<rparr>"

definition return_entry :: "'v Operation list \<Rightarrow> nat \<Rightarrow> 'v entry" where
  "return_entry ops k = \<lparr>kind = returnEntry, evalue = opOutput (ops ! k), eid = int k, etime = opReturn (ops ! k),
     eclientId = opClientId (ops ! k)\<rparr>"

definition well_timed :: "'v Operation list \<Rightarrow> bool" where
  "well_timed ops \<longleftrightarrow> list_all (\<lambda>v. opCall v \<le> opReturn v) ops"

lemma collectEntries_length: "length (collectEntries i ops) = 2 * length ops"
  by (induction ops arbitrary: i) simp_all

lemma collectEntries_set:
  "set (collectEntries (int i) ops) = (\<Union>k<length ops.
     {\<lparr>kind = callEntry, evalue = opInput (ops ! k), eid = int (i + k), etime = opCall (ops ! k), eclientId = opClientId (ops ! k)\<rparr>,
      \<lparr>kind = returnEntry, evalue = opOutput (ops ! k), eid = int (i + k), etime = opReturn (ops ! k), eclientId = opClientId (ops ! k)\<rparr>})"
proof (induction ops arbitrary: i)
  case (Cons v ops)
  have split: "(\<Union>k<Suc n. f k) = f 0 \<union> (\<Union>k<n. f (Suc k))" for f :: "nat \<Rightarrow> 'x set" and n
    by (auto simp: lessThan_Suc_eq_insert_0)
  show ?case using Cons.IH [of "Suc i"] by (simp only: length_Cons split) (simp add: add.commute)
qed simp

lemma entries_set: "set (collectEntries 0 ops) = (\<Union>k<length ops. {call_entry ops k, return_entry ops k})"
  using collectEntries_set [of 0 ops] by (simp add: call_entry_def return_entry_def)

lemma byTime_strict_weak: "strict_weak byTime_Less"
  unfolding strict_weak_def byTime_Less_def
  by (intro conjI allI impI; auto split: if_splits) (metis entryKind.exhaust)

section \<open>Entries in the order of time\<close>

lemma makeEntries_facts:
  assumes "sorter srt"
  shows "set (makeEntries srt ops) = (\<Union>k<length ops. {call_entry ops k, return_entry ops k})"
    and "length (makeEntries srt ops) = 2 * length ops" and "num_ops (makeEntries srt ops) = length ops"
    and "ordered_by byTime_Less (makeEntries srt ops)"
  using sorter.sort_set [OF assms] sorter.sort_length [OF assms]
    sorter.sort_ordered [OF assms byTime_strict_weak]
  by (simp_all add: makeEntries_def entries_set collectEntries_length num_ops_def)

lemma makeEntries_pos:
  assumes srt: "sorter srt" and k: "k < length ops"
  defines "H \<equiv> makeEntries srt ops"
  shows "find_index (is_call k) H = Some (call_pos H k)" and "call_pos H k < length H"
    and "H ! call_pos H k = call_entry ops k"
    and "find_index (is_return k) H = Some (return_pos H k)" and "return_pos H k < length H"
    and "H ! return_pos H k = return_entry ops k"
proof -
  note set = makeEntries_facts(1) [OF srt, of ops, folded H_def]
  have "\<exists>i. find_index (is_call k) H = Some i \<and> i < length H \<and> H ! i = call_entry ops k"
    by (rule find_index_unique) (use k in \<open>auto simp: set is_call_def call_entry_def return_entry_def\<close>)
  then show "find_index (is_call k) H = Some (call_pos H k)" "call_pos H k < length H" "H ! call_pos H k = call_entry ops k"
    by (auto simp: call_pos_def)
  have "\<exists>i. find_index (is_return k) H = Some i \<and> i < length H \<and> H ! i = return_entry ops k"
    by (rule find_index_unique) (use k in \<open>auto simp: set is_return_def call_entry_def return_entry_def\<close>)
  then show "find_index (is_return k) H = Some (return_pos H k)" "return_pos H k < length H" "H ! return_pos H k = return_entry ops k"
    by (auto simp: return_pos_def)
qed

lemma makeEntries_op:
  assumes "sorter srt" and "k < length ops"
  shows "op_in (makeEntries srt ops) k = opInput (ops ! k)" and "op_out (makeEntries srt ops) k = opOutput (ops ! k)"
  using makeEntries_pos [OF assms] by (simp_all add: op_in_def op_out_def call_entry_def return_entry_def)

text \<open>
  Return before call in the entries is return before call in time: at equal times calls come
  first, so that the operations count as concurrent.
\<close>

lemma makeEntries_precedes:
  assumes srt: "sorter srt" and k: "i < length ops" "j < length ops"
  shows "precedes (makeEntries srt ops) i j \<longleftrightarrow> opReturn (ops ! i) < opCall (ops ! j)"
proof -
  let ?H = "makeEntries srt ops"
  note pi = makeEntries_pos [OF srt k(1)] and pj = makeEntries_pos [OF srt k(2)]
  note before = ordered_less [OF makeEntries_facts(4) [OF srt] byTime_strict_weak]
  show ?thesis
  proof (cases "opReturn (ops ! i) < opCall (ops ! j)")
    case True
    then have "byTime_Less (?H ! return_pos ?H i) (?H ! call_pos ?H j)"
      by (simp add: pi pj byTime_Less_def call_entry_def return_entry_def)
    from before [OF this] pi pj True show ?thesis by (simp add: precedes_def)
  next
    case False
    then have "byTime_Less (?H ! call_pos ?H j) (?H ! return_pos ?H i)"
      by (simp add: pi pj byTime_Less_def call_entry_def return_entry_def)
    from before [OF this] pi pj False show ?thesis by (simp add: precedes_def)
  qed
qed

lemma makeEntries_wf:
  assumes srt: "sorter srt" and wt: "well_timed ops"
  shows "wf_history (makeEntries srt ops)"
proof -
  let ?H = "makeEntries srt ops"
  have "call_pos ?H k < return_pos ?H k" if k: "k < length ops" for k
  proof -
    note p = makeEntries_pos [OF srt k]
    have "opCall (ops ! k) \<le> opReturn (ops ! k)" using wt k by (simp add: well_timed_def list_all_length)
    then have "byTime_Less (?H ! call_pos ?H k) (?H ! return_pos ?H k)"
      by (simp add: p byTime_Less_def call_entry_def return_entry_def)
    from ordered_less [OF makeEntries_facts(4) [OF srt] byTime_strict_weak this] p show ?thesis by blast
  qed
  then show ?thesis
    using makeEntries_facts(2,3) [OF srt, of ops] makeEntries_pos(1,4) [OF srt, of _ ops]
    by (simp add: wf_history_def list_all_iff)
qed

section \<open>Linearizability of operations\<close>

fun run_ops :: "('v, 's) Model \<Rightarrow> 's \<Rightarrow> 'v Operation list \<Rightarrow> 's option" where
  "run_ops m s [] = Some s"
| "run_ops m s (v # vs) = (case Step m s (opInput v) (opOutput v) of Some (True, s') \<Rightarrow> run_ops m s' vs | _ \<Rightarrow> None)"

text \<open>
  The operations can be put in an order that the model accepts and in which no operation comes
  after one that was called only after it had returned.
\<close>

definition time_order :: "'v Operation list \<Rightarrow> bool" where
  "time_order vs \<longleftrightarrow> sorted_wrt (\<lambda>a b. \<not> opReturn b < opCall a) vs"

definition ops_linearizable :: "('v, 's) Model \<Rightarrow> 'v Operation list \<Rightarrow> bool" where
  "ops_linearizable m ops \<longleftrightarrow> (\<exists>vs. mset vs = mset ops \<and> time_order vs \<and> run_ops m (Init m) vs \<noteq> None)"

lemma sorted_wrt_cong_set: "(\<And>a b. a \<in> set xs \<Longrightarrow> b \<in> set xs \<Longrightarrow> P a b \<longleftrightarrow> Q a b) \<Longrightarrow> sorted_wrt P xs \<longleftrightarrow> sorted_wrt Q xs"
  by (induction xs) auto

lemma exec_run_ops:
  assumes "sorter srt"
  shows "set ks \<subseteq> {..<length ops} \<Longrightarrow> exec m (makeEntries srt ops) s ks = run_ops m s (map ((!) ops) ks)"
  by (induction ks arbitrary: s) (auto simp: makeEntries_op [OF assms] split: option.split bool.split)

lemma completes_makeEntries:
  assumes srt: "sorter srt"
  shows "completes m (makeEntries srt ops) {} (Init m) ks \<longleftrightarrow>
    distinct ks \<and> set ks = {..<length ops} \<and> time_order (map ((!) ops) ks) \<and> run_ops m (Init m) (map ((!) ops) ks) \<noteq> None"
proof (cases "set ks = {..<length ops}")
  case True
  then have "respects_real_time (makeEntries srt ops) ks \<longleftrightarrow> time_order (map ((!) ops) ks)"
    unfolding respects_real_time_def time_order_def sorted_wrt_map
    by (intro sorted_wrt_cong_set) (simp add: makeEntries_precedes [OF srt])
  with True show ?thesis
    by (simp add: completes_def makeEntries_facts(3) [OF srt] legal_def exec_run_ops [OF srt])
qed (simp add: completes_def makeEntries_facts(3) [OF srt])

lemma linearizable_makeEntries:
  assumes srt: "sorter srt"
  shows "linearizable m (makeEntries srt ops) \<longleftrightarrow> ops_linearizable m ops"
proof
  assume "linearizable m (makeEntries srt ops)"
  then obtain ks where ks: "distinct ks" "set ks = {..<length ops}" "time_order (map ((!) ops) ks)"
    "run_ops m (Init m) (map ((!) ops) ks) \<noteq> None"
    unfolding linearizable_def completes_makeEntries [OF srt] by blast
  then have "mset (map ((!) ops) ks) = mset ops" using mset_permuted_nth by blast
  with ks(3,4) show "ops_linearizable m ops" unfolding ops_linearizable_def by blast
next
  assume "ops_linearizable m ops"
  then obtain vs where vs: "mset vs = mset ops" "time_order vs" "run_ops m (Init m) vs \<noteq> None"
    by (auto simp: ops_linearizable_def)
  obtain ks where "distinct ks" "set ks = {..<length ops}" "vs = map ((!) ops) ks"
    using mset_eq_permuted_nth [OF vs(1)] by blast
  with vs(2,3) show "linearizable m (makeEntries srt ops)"
    unfolding linearizable_def completes_makeEntries [OF srt] by blast
qed

section \<open>The verdict\<close>

lemma operation_entries_checkable:
  assumes srt: "sorter srt" and part: "Partition m = Some part" "part ops = Some parts"
    and wt: "\<And>vs. vs \<in> set parts \<Longrightarrow> well_timed vs"
    and tot: "\<And>vs v s. vs \<in> set parts \<Longrightarrow> v \<in> set vs \<Longrightarrow> Step m s (opInput v) (opOutput v) \<noteq> None"
  shows "operation_entries srt m ops = Some (map (makeEntries srt) parts)"
    and "checkable_histories m (map (makeEntries srt) parts)"
  using part wt tot makeEntries_wf [OF srt]
  by (auto simp: operation_entries_def checkable_histories_def step_total_def makeEntries_op [OF srt]
      makeEntries_facts(3) [OF srt])

context checkable_model
begin

lemma checkParallel_verdict:
  assumes c: "checkable_histories m history" and r: "checkParallel m history ci timeout (res, info)"
  shows "res = Ok \<Longrightarrow> list_all (linearizable m) history" and "res = Illegal \<Longrightarrow> \<not> list_all (linearizable m) history"
    and "res = Unknown \<Longrightarrow> 0 < timeout"
proof -
  from r obtain p where p: "reach (\<lambda>p. p = par_start history) (par_step m history ci timeout) p"
    "pphase p = Finished" "res = par_result p" by (auto simp: checkParallel_def)
  from par_final [OF par_reach_inv [OF c p(1)] p(2)] p(3)
  show "res = Ok \<Longrightarrow> list_all (linearizable m) history" "res = Illegal \<Longrightarrow> \<not> list_all (linearizable m) history"
    "res = Unknown \<Longrightarrow> 0 < timeout" by auto
qed

lemma checkParallel_returns:
  assumes c: "checkable_histories m history" and ne: "history \<noteq> []"
  shows "\<exists>res info. checkParallel m history ci timeout (res, info)"
proof -
  let ?R = "reach (\<lambda>p. p = par_start history) (par_step m history ci timeout)"
  have "?R p \<Longrightarrow> \<exists>q. ?R q \<and> pphase q = Finished" for p
  proof (induction "par_measure p" arbitrary: p rule: less_induct)
    case less
    show ?case
    proof (cases "pphase p = Finished")
      case False
      note inv = par_reach_inv [OF c less.prems]
      obtain q where q: "par_step m history ci timeout p q" using par_progress [OF c inv ne False] by blast
      from less.hyps [OF par_step_decreases [OF c inv q]] reach_move [OF less.prems q] show ?thesis by blast
    qed (use less.prems in blast)
  qed
  moreover have "?R (par_start history)" by (rule reach_start) simp
  ultimately show ?thesis unfolding checkParallel_def by blast
qed

end

lemma par_empty_stuck:
  assumes "history = []" and "timeout \<le> 0"
  shows "\<not> par_step m history ci timeout (par_start history) p"
proof
  assume "par_step m history ci timeout (par_start history) p"
  then show False using assms by (cases rule: par_step.cases) (auto simp: par_start_def)
qed

lemma checkParallel_empty:
  assumes h: "history = []" and t: "timeout \<le> 0"
  shows "\<not> checkParallel m history ci timeout r"
proof
  assume "checkParallel m history ci timeout r"
  then obtain p where p: "reach (\<lambda>p. p = par_start history) (par_step m history ci timeout) p" "pphase p = Finished"
    by (auto simp: checkParallel_def)
  from p(1) have "p = par_start history"
    by (induction rule: reach.induct) (use par_empty_stuck [OF h t] in auto)
  with p(2) show False by (simp add: par_start_def)
qed

end
