(* ===== verification/KvLocality.thy ===== *)
theory KvLocality
  imports CheckOperations
begin

text \<open>
  What the partition of \<open>models/kv.go\<close> is for: a history of a key/value store is linearizable if and
  only if the history of each key is. \<open>kvStore\<close> is the specification of the whole store, a map from
  keys to values; \<open>KvModel\<close> models one key. The operations of the keys are merged by giving each
  operation a point in time between its call and its return, in the order of its key.
\<close>

section \<open>The whole store\<close>

text \<open>
  A get must return what is stored, a put replaces it and an append extends it; a key that was never
  written holds the empty string.
\<close>

definition kvStoreStep :: "(string \<Rightarrow> string) \<Rightarrow> kv_value option \<Rightarrow> kv_value option \<Rightarrow> (bool \<times> (string \<Rightarrow> string)) option" where
  "kvStoreStep st input output = (case (input, output) of
     (Some (KvIn inp), Some (KvOut out)) \<Rightarrow>
       if kvOp inp = 0 then Some (kvResult out = st (kvKey inp), st)
       else if kvOp inp = 1 then Some (True, st(kvKey inp := kvValue inp))
       else Some (True, st(kvKey inp := st (kvKey inp) @ kvValue inp))
   | _ \<Rightarrow> None)"

definition kvStore :: "(kv_value, string \<Rightarrow> string) Model" where
  "kvStore = \<lparr>Partition = None, PartitionEvent = None, Init = (\<lambda>_. ''''), Step = kvStoreStep, Equal = None,
     DescribeOperation = None, DescribeState = None\<rparr>"

lemma kvStoreStep_key:
  "kvStoreStep st input output = (case asKvInput input of None \<Rightarrow> None | Some inp \<Rightarrow>
     map_option (\<lambda>(ok, v). (ok, st(kvKey inp := v))) (kvStep (st (kvKey inp)) input output))"
  by (auto simp: kvStoreStep_def kvStep_def split: option.splits kv_value.splits elim: asKvInput.elims asKvOutput.elims)

definition kv_key :: "kv_value Operation \<Rightarrow> string" where
  "kv_key v = (case asKvInput (opInput v) of None \<Rightarrow> '''' | Some inp \<Rightarrow> kvKey inp)"

definition kv_op :: "kv_value Operation \<Rightarrow> bool" where
  "kv_op v \<longleftrightarrow> asKvInput (opInput v) \<noteq> None \<and> asKvOutput (opOutput v) \<noteq> None"

abbreviation of_key :: "string \<Rightarrow> kv_value Operation list \<Rightarrow> kv_value Operation list" where
  "of_key k vs \<equiv> filter (\<lambda>v. kv_key v = k) vs"

lemma kvStore_run:
  "list_all kv_op vs \<Longrightarrow> run_ops kvStore st vs \<noteq> None \<longleftrightarrow> (\<forall>k. run_ops KvModel (st k) (of_key k vs) \<noteq> None)"
proof (induction vs arbitrary: st)
  case (Cons v vs)
  define k where "k = kv_key v"
  obtain inp out where io: "asKvInput (opInput v) = Some inp" "asKvOutput (opOutput v) = Some out" "kvKey inp = k"
    using Cons.prems by (auto simp: kv_op_def k_def kv_key_def)
  then obtain ok s where st1: "kvStep (st k) (opInput v) (opOutput v) = Some (ok, s)"
    by (cases "kvStep (st k) (opInput v) (opOutput v)") (auto simp: kvStep_def split: if_splits)
  have kk: "kv_key v = k" by (simp add: k_def)
  have steps: "Step kvStore st (opInput v) (opOutput v) = Some (ok, st(k := s))"
    "Step KvModel (st k) (opInput v) (opOutput v) = Some (ok, s)"
    using io st1 by (simp_all add: kvStore_def kvStoreStep_key KvModel_def)
  show ?case
  proof (cases ok)
    case True
    have "(\<forall>k'. run_ops KvModel ((st(k := s)) k') (of_key k' vs) \<noteq> None) \<longleftrightarrow>
        (\<forall>k'. run_ops KvModel (st k') (of_key k' (v # vs)) \<noteq> None)"
      by (intro all_cong1) (auto simp: kk st1 True)
    with Cons True steps show ?thesis by simp
  next
    case False
    have "run_ops KvModel (st k) (of_key k (v # vs)) = None" by (simp add: kk st1 False)
    moreover have "run_ops kvStore st (v # vs) = None" by (simp add: steps False)
    ultimately show ?thesis by blast
  qed
qed simp

section \<open>The partition by key\<close>

definition collected :: "(string \<times> kv_value Operation list) list \<Rightarrow> kv_value Operation list \<Rightarrow> bool" where
  "collected m vs \<longleftrightarrow> distinct (map fst m) \<and> set (map fst m) = kv_key ` set vs
     \<and> (\<forall>k\<in>kv_key ` set vs. map_of m k = Some (of_key k vs))"

lemma collected_step:
  assumes c: "collected m vs" and v: "asKvInput (opInput v) = Some inp"
  shows "collected (AList.update (kvKey inp) ((case map_of m (kvKey inp) of None \<Rightarrow> [] | Some ops \<Rightarrow> ops) @ [v]) m) (vs @ [v])"
proof -
  have k: "kv_key v = kvKey inp" using v by (simp add: kv_key_def)
  have old: "(case map_of m k of None \<Rightarrow> [] | Some ops \<Rightarrow> ops) = of_key k vs" for k
  proof (cases "k \<in> kv_key ` set vs")
    case False
    then have "map_of m k = None" using c by (simp add: collected_def map_of_eq_None_iff)
    moreover have "of_key k vs = []" using False by (auto simp: filter_empty_conv)
    ultimately show ?thesis by simp
  qed (use c in \<open>auto simp: collected_def\<close>)
  show ?thesis
    using c unfolding collected_def old
    by (auto simp: k distinct_update update_keys update_conv' dom_update)
qed

lemma kvCollect_collected:
  "list_all kv_op vs \<Longrightarrow> collected m us \<Longrightarrow> \<exists>m'. kvCollect m vs = Some m' \<and> collected m' (us @ vs)"
proof (induction vs arbitrary: m us)
  case (Cons v vs)
  then obtain inp where inp: "asKvInput (opInput v) = Some inp" by (auto simp: kv_op_def)
  from Cons.IH [OF _ collected_step [OF Cons.prems(2) inp]] Cons.prems(1) inp show ?case by simp
qed simp

lemma kvPartition_eq:
  assumes "list_all kv_op vs"
  shows "kvPartition vs = Some (map (\<lambda>k. of_key k vs) (sorted_list_of_set (kv_key ` set vs)))"
proof -
  have "collected [] []" by (simp add: collected_def)
  from kvCollect_collected [OF assms this] obtain m where m: "kvCollect [] vs = Some m" "collected m vs" by auto
  have keys: "sort (map fst m) = sorted_list_of_set (kv_key ` set vs)"
    using m(2) sorted_list_of_set_sort_remdups [of "map fst m"] by (simp add: collected_def distinct_remdups_id)
  have "(case map_of m k of None \<Rightarrow> [] | Some ops \<Rightarrow> ops) = of_key k vs" if "k \<in> set (sorted_list_of_set (kv_key ` set vs))" for k
    using m(2) that by (auto simp: collected_def)
  then show ?thesis using m(1) by (simp add: kvPartition_def keys)
qed

section \<open>Merging the keys\<close>

text \<open>The point of an operation: the latest call among it and the operations before it.\<close>

fun points :: "int \<Rightarrow> kv_value Operation list \<Rightarrow> (int \<times> kv_value Operation) list" where
  "points p [] = []"
| "points p (v # vs) = (max p (opCall v), v) # points (max p (opCall v)) vs"

definition pointed :: "kv_value Operation list \<Rightarrow> (int \<times> kv_value Operation) list" where
  "pointed vs = (case vs of [] \<Rightarrow> [] | v # _ \<Rightarrow> points (opCall v) vs)"

lemma map_snd_points [simp]: "map snd (points p vs) = vs"
  by (induction vs arbitrary: p) simp_all

lemma points_ge: "(q, v) \<in> set (points p vs) \<Longrightarrow> p \<le> q \<and> opCall v \<le> q"
proof (induction vs arbitrary: p)
  case (Cons u vs)
  show ?case
  proof (cases "(q, v) \<in> set (points (max p (opCall u)) vs)")
    case True
    from Cons.IH [OF this] show ?thesis by simp
  qed (use Cons.prems in auto)
qed simp

lemma sorted_points: "sorted (map fst (points p vs))"
proof (induction vs arbitrary: p)
  case (Cons v vs)
  then show ?case using points_ge by fastforce
qed simp

lemma points_le:
  "well_timed vs \<Longrightarrow> time_order vs \<Longrightarrow> (\<And>v. v \<in> set vs \<Longrightarrow> p \<le> opReturn v) \<Longrightarrow> (q, v) \<in> set (points p vs)
    \<Longrightarrow> q \<le> opReturn v"
proof (induction vs arbitrary: p)
  case (Cons u vs)
  have ur: "opCall u \<le> opReturn w" if "w \<in> set (u # vs)" for w
    using Cons.prems(1,2) that by (auto simp: well_timed_def time_order_def not_less)
  show ?case
  proof (cases "(q, v) \<in> set (points (max p (opCall u)) vs)")
    case True
    show ?thesis
      by (rule Cons.IH [OF _ _ _ True]) (use Cons.prems ur in \<open>auto simp: well_timed_def time_order_def\<close>)
  next
    case False
    then have "v = u" "q = max p (opCall u)" using Cons.prems(4) by auto
    with Cons.prems(3) [of u] ur [of u] show ?thesis by simp
  qed
qed simp

lemma pointed_facts:
  assumes "well_timed vs" and "time_order vs"
  shows "map snd (pointed vs) = vs" and "sorted (map fst (pointed vs))"
    and "(q, v) \<in> set (pointed vs) \<Longrightarrow> opCall v \<le> q \<and> q \<le> opReturn v"
proof -
  show "map snd (pointed vs) = vs" "sorted (map fst (pointed vs))"
    by (simp_all add: pointed_def sorted_points del: points.simps split: list.split)
  assume q: "(q, v) \<in> set (pointed vs)"
  then obtain u us where vs: "vs = u # us" by (cases vs) (auto simp: pointed_def)
  have "opCall u \<le> opReturn w" if "w \<in> set vs" for w
    using assms that by (auto simp: vs well_timed_def time_order_def not_less)
  with points_le [OF assms, of "opCall u" q v] points_ge [of q v "opCall u" vs] q
  show "opCall v \<le> q \<and> q \<le> opReturn v" by (simp add: pointed_def vs)
qed

definition merge_keys :: "string list \<Rightarrow> (string \<Rightarrow> kv_value Operation list) \<Rightarrow> kv_value Operation list" where
  "merge_keys ks f = map snd (sort_key fst (concat (map (\<lambda>k. pointed (f k)) ks)))"

lemma merge_keys_time_order:
  assumes "\<And>k. k \<in> set ks \<Longrightarrow> well_timed (f k) \<and> time_order (f k)"
  shows "time_order (merge_keys ks f)"
proof -
  let ?L = "concat (map (\<lambda>k. pointed (f k)) ks)"
  have iv: "opCall v \<le> q \<and> q \<le> opReturn v" if "(q, v) \<in> set ?L" for q v
    using that assms pointed_facts(3) by auto
  have "sorted_wrt (\<lambda>a b. fst a \<le> fst b) (sort_key fst ?L)"
    using sorted_sort_key [of fst ?L] by (simp add: sorted_map)
  then have "sorted_wrt (\<lambda>a b. \<not> opReturn (snd b) < opCall (snd a)) (sort_key fst ?L)"
  proof (rule sorted_wrt_mono_rel [rotated])
    fix a b assume "a \<in> set (sort_key fst ?L)" "b \<in> set (sort_key fst ?L)" "fst a \<le> fst b"
    with iv [of "fst a" "snd a"] iv [of "fst b" "snd b"] show "\<not> opReturn (snd b) < opCall (snd a)" by auto
  qed
  then show ?thesis by (simp add: merge_keys_def time_order_def sorted_wrt_map)
qed

lemma merge_keys_of_key:
  assumes ok: "\<And>k. k \<in> set ks \<Longrightarrow> well_timed (f k) \<and> time_order (f k)"
    and keys: "\<And>k v. k \<in> set ks \<Longrightarrow> v \<in> set (f k) \<Longrightarrow> kv_key v = k" and d: "distinct ks"
  shows "of_key k (merge_keys ks f) = (if k \<in> set ks then f k else [])"
proof -
  let ?P = "\<lambda>x. kv_key (snd x) = k"
  have one: "filter ?P (pointed (f k')) = (if k' = k then pointed (f k) else [])" if "k' \<in> set ks" for k'
  proof -
    have "kv_key (snd x) = k'" if "x \<in> set (pointed (f k'))" for x
      using that keys [OF \<open>k' \<in> set ks\<close>] pointed_facts(1) [of "f k'"] ok [OF \<open>k' \<in> set ks\<close>]
      by (metis image_eqI list.set_map)
    then show ?thesis by (auto simp: filter_id_conv filter_empty_conv)
  qed
  have "filter ?P (concat (map (\<lambda>k. pointed (f k)) ks)) = (if k \<in> set ks then pointed (f k) else [])"
    using one d by (induction ks) auto
  then have "filter ?P (sort_key fst (concat (map (\<lambda>k. pointed (f k)) ks))) = (if k \<in> set ks then pointed (f k) else [])"
    using pointed_facts(2) ok by (simp add: filter_sort sort_key_id_if_sorted)
  then show ?thesis using pointed_facts(1) ok by (simp add: merge_keys_def filter_map comp_def)
qed

section \<open>Locality\<close>

lemma kv_local_if:
  assumes "list_all kv_op vs" and "ops_linearizable kvStore vs"
  shows "ops_linearizable KvModel (of_key k vs)"
proof -
  obtain us where us: "mset us = mset vs" "time_order us" "run_ops kvStore (Init kvStore) us \<noteq> None"
    using assms(2) by (auto simp: ops_linearizable_def)
  have "list_all kv_op us" using assms(1) us(1) by (simp add: list_all_iff flip: set_mset_mset)
  then have "run_ops KvModel (Init KvModel) (of_key k us) \<noteq> None"
    using kvStore_run us(3) by (simp add: kvStore_def KvModel_def)
  moreover have "mset (of_key k us) = mset (of_key k vs)" using us(1) by simp
  moreover have "time_order (of_key k us)" using us(2) by (simp add: time_order_def sorted_wrt_filter)
  ultimately show ?thesis unfolding ops_linearizable_def by blast
qed

lemma kv_local_only_if:
  assumes op: "list_all kv_op vs" and wt: "well_timed vs" and ks: "distinct ks" "set ks = kv_key ` set vs"
    and lin: "\<And>k. k \<in> set ks \<Longrightarrow> ops_linearizable KvModel (of_key k vs)"
  shows "ops_linearizable kvStore vs"
proof -
  have "\<forall>k\<in>set ks. \<exists>us. mset us = mset (of_key k vs) \<and> time_order us \<and> run_ops KvModel (Init KvModel) us \<noteq> None"
    using lin unfolding ops_linearizable_def by blast
  then obtain f where f: "\<forall>k\<in>set ks. mset (f k) = mset (of_key k vs) \<and> time_order (f k)
      \<and> run_ops KvModel (Init KvModel) (f k) \<noteq> None" by (rule bchoice [THEN exE])
  have sub: "v \<in> set vs \<and> kv_key v = k" if k: "k \<in> set ks" and v: "v \<in> set (f k)" for k v
  proof -
    from f k have "set (f k) = set (of_key k vs)" by (intro mset_eq_setD) blast
    with v show ?thesis by simp
  qed
  have ok: "well_timed (f k) \<and> time_order (f k)" if k: "k \<in> set ks" for k
    using f k sub [OF k] wt unfolding well_timed_def list_all_iff by blast
  have fk: "of_key k (merge_keys ks f) = (if k \<in> set ks then f k else [])" for k
    by (rule merge_keys_of_key) (use ok sub ks(1) in blast)+
  have of_key_eq: "mset (of_key k (merge_keys ks f)) = mset (of_key k vs)" for k
  proof (cases "k \<in> set ks")
    case True
    with f show ?thesis unfolding fk by simp
  next
    case False
    then have "of_key k vs = []" using ks(2) by (auto simp: filter_empty_conv)
    with False show ?thesis unfolding fk by simp
  qed
  have m: "mset (merge_keys ks f) = mset vs"
  proof (rule multiset_eqI)
    fix v
    have "count (mset xs) v = count (mset (of_key (kv_key v) xs)) v" for xs by simp
    from this [of "merge_keys ks f"] this [of vs] of_key_eq [of "kv_key v"]
    show "count (mset (merge_keys ks f)) v = count (mset vs) v" by (simp only:)
  qed
  then have "list_all kv_op (merge_keys ks f)" using op by (simp add: list_all_iff flip: set_mset_mset)
  moreover have "run_ops KvModel '''' (of_key k (merge_keys ks f)) \<noteq> None" for k
    using f unfolding fk by (simp add: KvModel_def)
  ultimately have "run_ops kvStore (Init kvStore) (merge_keys ks f) \<noteq> None"
    using kvStore_run [of "merge_keys ks f" "Init kvStore"] by (simp add: kvStore_def)
  with m merge_keys_time_order [of ks f] ok show ?thesis unfolding ops_linearizable_def by blast
qed

lemma kv_locality:
  assumes "list_all kv_op vs" and "well_timed vs"
  shows "ops_linearizable kvStore vs \<longleftrightarrow>
    list_all (ops_linearizable KvModel) (map (\<lambda>k. of_key k vs) (sorted_list_of_set (kv_key ` set vs)))"
proof -
  let ?ks = "sorted_list_of_set (kv_key ` set vs)"
  have ks: "distinct ?ks" "set ?ks = kv_key ` set vs" by simp_all
  have "list_all (ops_linearizable KvModel) (map (\<lambda>k. of_key k vs) ?ks) \<longleftrightarrow>
      (\<forall>k\<in>set ?ks. ops_linearizable KvModel (of_key k vs))" unfolding list_all_iff by auto
  then show ?thesis using kv_local_if [OF assms(1)] kv_local_only_if [OF assms ks] by blast
qed

text \<open>\<open>fillDefault\<close> changes neither \<open>Init\<close> nor \<open>Step\<close>.\<close>

lemma ops_linearizable_fillDefault: "ops_linearizable (fillDefault d1 d2 KvModel) vs \<longleftrightarrow> ops_linearizable KvModel vs"
proof -
  have "run_ops (fillDefault d1 d2 KvModel) s us = run_ops KvModel s us" for s us
    by (induction us arbitrary: s) (simp_all split: option.split bool.split)
  then show ?thesis by (simp add: ops_linearizable_def)
qed

lemma kv_entries:
  fixes d1 :: "kv_value option \<Rightarrow> kv_value option \<Rightarrow> string option" and d2 :: "string \<Rightarrow> string"
  assumes srt: "sorter srt" and op: "list_all kv_op vs" and wt: "well_timed vs"
  defines "m \<equiv> fillDefault d1 d2 KvModel" and "parts \<equiv> map (\<lambda>k. of_key k vs) (sorted_list_of_set (kv_key ` set vs))"
  shows "operation_entries srt m vs = Some (map (makeEntries srt) parts)"
    and "checkable_histories m (map (makeEntries srt) parts)"
    and "list_all (linearizable m) (map (makeEntries srt) parts) \<longleftrightarrow> ops_linearizable kvStore vs"
proof -
  have sub: "set us \<subseteq> set vs" if "us \<in> set parts" for us using that by (auto simp: parts_def)
  have part: "Partition m = Some kvPartition" "kvPartition vs = Some parts"
    using kvPartition_eq [OF op] by (simp_all add: m_def parts_def)
  have tot: "Step m s (opInput v) (opOutput v) \<noteq> None" if "us \<in> set parts" "v \<in> set us" for us v s
    using sub [OF that(1)] that(2) op by (auto simp: m_def list_all_iff kv_op_def kvStep_def split: option.splits dest!: subsetD)
  have wt': "well_timed us" if "us \<in> set parts" for us
    using sub [OF that] wt by (auto simp: well_timed_def list_all_iff)
  show "operation_entries srt m vs = Some (map (makeEntries srt) parts)"
    "checkable_histories m (map (makeEntries srt) parts)"
    by (rule operation_entries_checkable [OF srt part wt' tot]; assumption)+
  show "list_all (linearizable m) (map (makeEntries srt) parts) \<longleftrightarrow> ops_linearizable kvStore vs"
    unfolding kv_locality [OF op wt] list.pred_map comp_def linearizable_makeEntries [OF srt] m_def
      ops_linearizable_fillDefault parts_def by simp
qed

end
