(* ===== verification/CheckEvents.thy ===== *)
theory CheckEvents
  imports CheckOperations
begin

text \<open>
  \<open>checkEvents\<close> and its wrappers (\<open>porcupine/checker.go\<close>, \<open>porcupine/porcupine.go\<close>): histories given as
  a list of call and return events. \<open>renumber\<close> replaces the ids of the events by 0, 1, ... in the
  order of their first occurrence, which is what \<open>checkSingle\<close> needs to use them as indices.
\<close>

section \<open>The code\<close>

definition event_entries :: "('v, 's) Model \<Rightarrow> 'v Event list \<Rightarrow> 'v entry list list option" where
  "event_entries model history = (case PartitionEvent model of None \<Rightarrow> None
     | Some part \<Rightarrow> map_option (map (\<lambda>subhistory. convertEntries (renumber subhistory))) (part history))"

definition checkEvents :: "('v option \<Rightarrow> 'v option \<Rightarrow> string option) \<Rightarrow> ('s \<Rightarrow> string) \<Rightarrow> ('v, 's) Model \<Rightarrow> 'v Event list
    \<Rightarrow> bool \<Rightarrow> int \<Rightarrow> CheckResult \<times> 'v linearizationInfo \<Rightarrow> bool" where
  "checkEvents descOp descState model history verbose timeout r =
     (let model = fillDefault descOp descState model in
      case event_entries model history of None \<Rightarrow> False
      | Some l \<Rightarrow> checkParallel model l verbose timeout r)"

definition CheckEvents :: "('v option \<Rightarrow> 'v option \<Rightarrow> string option) \<Rightarrow> ('s \<Rightarrow> string) \<Rightarrow> ('v, 's) Model \<Rightarrow> 'v Event list
    \<Rightarrow> bool \<Rightarrow> bool" where
  "CheckEvents descOp descState model history b \<longleftrightarrow>
     (\<exists>res info. checkEvents descOp descState model history False 0 (res, info) \<and> b = (res = Ok))"

definition CheckEventsTimeout :: "('v option \<Rightarrow> 'v option \<Rightarrow> string option) \<Rightarrow> ('s \<Rightarrow> string) \<Rightarrow> ('v, 's) Model
    \<Rightarrow> 'v Event list \<Rightarrow> int \<Rightarrow> CheckResult \<Rightarrow> bool" where
  "CheckEventsTimeout descOp descState model history timeout res \<longleftrightarrow>
     (\<exists>info. checkEvents descOp descState model history False timeout (res, info))"

definition CheckEventsVerbose :: "('v option \<Rightarrow> 'v option \<Rightarrow> string option) \<Rightarrow> ('s \<Rightarrow> string) \<Rightarrow> ('v, 's) Model
    \<Rightarrow> 'v Event list \<Rightarrow> int \<Rightarrow> CheckResult \<times> 'v linearizationInfo \<Rightarrow> bool" where
  "CheckEventsVerbose descOp descState model history timeout r =
     checkEvents descOp descState model history True timeout r"

section \<open>Renumbering\<close>

definition numbering :: "(int \<rightharpoonup> int) \<Rightarrow> bool" where
  "numbering f \<longleftrightarrow> finite (dom f) \<and> inj_on f (dom f) \<and> ran f = int ` {..<card (dom f)}"

lemma numbering_upd:
  assumes f: "numbering f" and x: "f x = None"
  shows "numbering (f(x \<mapsto> int (card (dom f))))"
proof -
  let ?n = "card (dom f)"
  have fin: "finite (dom f)" and inj: "inj_on f (dom f)" and ran: "ran f = int ` {..<?n}"
    using f by (simp_all add: numbering_def)
  have xd: "x \<notin> dom f" using x by (simp add: domIff)
  have new: "int ?n \<notin> ran f" unfolding ran by (metis imageE lessThan_iff less_irrefl of_nat_eq_iff)
  have "inj_on (f(x \<mapsto> int ?n)) (dom f) \<longleftrightarrow> inj_on f (dom f)"
    by (rule inj_on_cong) (use xd in auto)
  moreover have "(f(x \<mapsto> int ?n)) ` (dom f - {x}) = f ` dom f" using xd by (intro image_cong) auto
  moreover have "Some (int ?n) \<notin> f ` dom f" using new by (force simp: ran_def)
  ultimately have "inj_on (f(x \<mapsto> int ?n)) (insert x (dom f))" using inj by (simp add: inj_on_insert)
  moreover have "ran (f(x \<mapsto> int ?n)) = int ` {..<Suc ?n}"
    using x ran by (simp add: lessThan_Suc)
  moreover have "card (insert x (dom f)) = Suc ?n" using fin xd by simp
  ultimately show ?thesis using fin by (simp add: numbering_def)
qed

lemma renumber_loop_numbering:
  "numbering m \<Longrightarrow> i = int (card (dom m)) \<Longrightarrow> \<exists>f. m \<subseteq>\<^sub>m f \<and> numbering f \<and> dom f = dom m \<union> evId ` set events
     \<and> renumber_loop m i events = map (\<lambda>v. v\<lparr>evId := the (f (evId v))\<rparr>) events"
proof (induction events arbitrary: m i)
  case Nil
  then show ?case by (intro exI [of _ m]) simp
next
  case (Cons v events)
  show ?case
  proof (cases "m (evId v)")
    case (Some r)
    from Cons.IH [OF Cons.prems] obtain f where f: "m \<subseteq>\<^sub>m f" "numbering f" "dom f = dom m \<union> evId ` set events"
      "renumber_loop m i events = map (\<lambda>v. v\<lparr>evId := the (f (evId v))\<rparr>) events" by blast
    have "f (evId v) = Some r" using f(1) Some by (metis domI map_le_def)
    then have "renumber_loop m i (v # events) = map (\<lambda>v. v\<lparr>evId := the (f (evId v))\<rparr>) (v # events)"
      using Some f(4) by simp
    moreover have "dom f = dom m \<union> evId ` set (v # events)" using f(3) Some by auto
    ultimately show ?thesis using f(1,2) by blast
  next
    case None
    let ?m = "m(evId v \<mapsto> i)"
    have d: "dom ?m = insert (evId v) (dom m)" by simp
    have "card (dom ?m) = Suc (card (dom m))"
      using None Cons.prems(1) by (simp add: numbering_def domIff)
    then have i1: "i + 1 = int (card (dom ?m))" using Cons.prems(2) by simp
    have "numbering ?m" using numbering_upd [OF Cons.prems(1) None] by (simp only: Cons.prems(2))
    from Cons.IH [OF this i1] obtain f where
      f: "?m \<subseteq>\<^sub>m f" "numbering f" "dom f = dom ?m \<union> evId ` set events"
        "renumber_loop ?m (i + 1) events = map (\<lambda>v. v\<lparr>evId := the (f (evId v))\<rparr>) events" by blast
    have "f (evId v) = Some i" using f(1) by (auto simp: map_le_def)
    then have "renumber_loop m i (v # events) = map (\<lambda>v. v\<lparr>evId := the (f (evId v))\<rparr>) (v # events)"
      using None f(4) by simp
    moreover have "m \<subseteq>\<^sub>m ?m" using None by (auto simp: map_le_def domIff)
    then have "m \<subseteq>\<^sub>m f" using f(1) by (rule map_le_trans)
    moreover have "dom f = dom m \<union> evId ` set (v # events)" using f(3) d by auto
    ultimately show ?thesis using f(2) by blast
  qed
qed

lemma renumber_numbering:
  obtains f where "numbering f" and "dom f = evId ` set events"
    and "renumber events = map (\<lambda>v. v\<lparr>evId := the (f (evId v))\<rparr>) events"
proof -
  have "numbering Map.empty" by (simp add: numbering_def)
  from renumber_loop_numbering [OF this, of 0 events] that show thesis
    by (auto simp: renumber_def)
qed

section \<open>Complete event histories\<close>

definition event_is :: "EventKind \<Rightarrow> int \<Rightarrow> 'v Event \<Rightarrow> bool" where
  "event_is k i v \<longleftrightarrow> evKind v = k \<and> evId v = i"

definition wf_events :: "'v Event list \<Rightarrow> bool" where
  "wf_events events \<longleftrightarrow> list_all (\<lambda>v. length (filter (\<lambda>u. evId u = evId v) events) = 2
     \<and> (case (find_index (event_is CallEvent (evId v)) events, find_index (event_is ReturnEvent (evId v)) events) of
          (Some i, Some j) \<Rightarrow> i < j | _ \<Rightarrow> False)) events"

lemma find_index_map: "find_index P (map f xs) = find_index (\<lambda>x. P (f x)) xs"
  by (induction xs) auto

lemma find_index_cong_set: "(\<And>x. x \<in> set xs \<Longrightarrow> P x \<longleftrightarrow> Q x) \<Longrightarrow> find_index P xs = find_index Q xs"
  by (induction xs) auto

lemma find_index_enumerate: "find_index (\<lambda>p. P (snd p)) (enumerate n xs) = find_index P xs"
  by (induction xs arbitrary: n) auto

lemma convertEntries_index:
  "find_index (is_call k) (convertEntries es) = find_index (event_is CallEvent (int k)) es"
  "find_index (is_return k) (convertEntries es) = find_index (event_is ReturnEvent (int k)) es"
proof -
  have "is_call k (case p of (i, elem) \<Rightarrow> \<lparr>kind = (if evKind elem = ReturnEvent then returnEntry else callEntry),
      evalue = evValue elem, eid = evId elem, etime = int i, eclientId = evClientId elem\<rparr>)
      \<longleftrightarrow> event_is CallEvent (int k) (snd p)" for p :: "nat \<times> 'a Event"
    by (cases p; cases "evKind (snd p)") (auto simp: is_call_def event_is_def)
  then show "find_index (is_call k) (convertEntries es) = find_index (event_is CallEvent (int k)) es"
    by (simp add: convertEntries_def find_index_map find_index_enumerate)
  have "is_return k (case p of (i, elem) \<Rightarrow> \<lparr>kind = (if evKind elem = ReturnEvent then returnEntry else callEntry),
      evalue = evValue elem, eid = evId elem, etime = int i, eclientId = evClientId elem\<rparr>)
      \<longleftrightarrow> event_is ReturnEvent (int k) (snd p)" for p :: "nat \<times> 'a Event"
    by (cases p; cases "evKind (snd p)") (auto simp: is_return_def event_is_def)
  then show "find_index (is_return k) (convertEntries es) = find_index (event_is ReturnEvent (int k)) es"
    by (simp add: convertEntries_def find_index_map find_index_enumerate)
qed

lemma length_by_class: "length xs = (\<Sum>y\<in>f ` set xs. length (filter (\<lambda>x. f x = y) xs))"
proof -
  have cnt: "count (mset (map f xs)) y = length (filter (\<lambda>x. f x = y) xs)" for y
    by (induction xs) auto
  have "length xs = size (mset (map f xs))" by simp
  also have "\<dots> = (\<Sum>y\<in>f ` set xs. count (mset (map f xs)) y)" by (simp add: size_multiset_overloaded_eq)
  finally show ?thesis by (simp only: cnt)
qed

lemma convertEntries_length [simp]: "length (convertEntries es) = length es"
  by (simp add: convertEntries_def)

lemma renumber_wf:
  assumes wf: "wf_events events"
  shows "wf_history (convertEntries (renumber events))" and "num_ops (convertEntries (renumber events)) = card (evId ` set events)"
proof -
  let ?I = "evId ` set events" and ?H = "convertEntries (renumber events)"
  obtain f where f: "numbering f" "dom f = ?I" "renumber events = map (\<lambda>v. v\<lparr>evId := the (f (evId v))\<rparr>) events"
    by (rule renumber_numbering)
  have two: "length (filter (\<lambda>u. evId u = x) events) = 2"
    and ij: "case (find_index (event_is CallEvent x) events, find_index (event_is ReturnEvent x) events) of
      (Some i, Some j) \<Rightarrow> i < j | _ \<Rightarrow> False" if "x \<in> ?I" for x
    using wf that unfolding wf_events_def list_all_iff by blast+
  have "length events = (\<Sum>x\<in>?I. length (filter (\<lambda>u. evId u = x) events))" by (rule length_by_class)
  also have "\<dots> = (\<Sum>x\<in>?I. 2)" by (intro sum.cong refl) (rule two)
  finally have len: "length events = 2 * card ?I" by simp
  then show n: "num_ops ?H = card ?I" by (simp add: num_ops_def f(3))
  have "case (find_index (is_call k) ?H, find_index (is_return k) ?H) of (Some i, Some j) \<Rightarrow> i < j | _ \<Rightarrow> False"
    if k: "k < card ?I" for k
  proof -
    have "int k \<in> ran f" using f(1,2) k by (simp add: numbering_def)
    then obtain x where x: "f x = Some (int k)" by (auto simp: ran_def)
    then have xI: "x \<in> ?I" using f(2) by auto
    have "the (f (evId v)) = int k \<longleftrightarrow> evId v = x" if v: "v \<in> set events" for v
    proof -
      have "evId v \<in> dom f" using v f(2) by simp
      then obtain r where r: "f (evId v) = Some r" by blast
      have "inj_on f (dom f)" using f(1) by (simp add: numbering_def)
      from inj_onD [OF this, of "evId v" x] x r show ?thesis by (auto simp: domIff)
    qed
    then have "find_index (event_is c (int k)) (renumber events) = find_index (event_is c x) events" for c
      unfolding f(3) find_index_map by (intro find_index_cong_set) (simp add: event_is_def)
    with ij [OF xI] show ?thesis by (simp only: convertEntries_index)
  qed
  then show "wf_history ?H" using len n by (simp add: wf_history_def list_all_iff f(3))
qed

end
