(* ===== verification/CheckerProps.thy ===== *)
theory CheckerProps
  imports KvLocality CheckEvents
begin

text \<open>
  The properties of the linearizability checker (\<open>porcupine\<close>) and of the model of the key/value
  store (\<open>models/kv.go\<close>), with their witnesses: a put and a concurrent get of the same key.
\<close>

definition put_op :: "kv_value Operation" where
  "put_op = \<lparr>opClientId = 0, opInput = Some (KvIn \<lparr>kvOp = 1, kvKey = ''x'', kvValue = ''a''\<rparr>), opCall = 0,
     opOutput = Some (KvOut \<lparr>kvResult = ''''\<rparr>), opReturn = 10\<rparr>"

definition get_op :: "kv_value Operation" where
  "get_op = \<lparr>opClientId = 1, opInput = Some (KvIn \<lparr>kvOp = 0, kvKey = ''x'', kvValue = ''''\<rparr>), opCall = 5,
     opOutput = Some (KvOut \<lparr>kvResult = ''a''\<rparr>), opReturn = 7\<rparr>"

definition sample_model :: "(kv_value, string) Model" where
  "sample_model = fillDefault (\<lambda>_ _. Some []) (\<lambda>_. []) KvModel"

definition sample_history :: "kv_value entry list" where
  "sample_history = makeEntries insertionSort [put_op, get_op]"

lemmas sample_defs = put_op_def get_op_def

lemma sample_ops: "well_timed [put_op, get_op]" "list_all kv_op [put_op, get_op]"
  by (simp_all add: sample_defs well_timed_def kv_op_def)

lemma sample_checkable: "checkable_model sample_model ShallowEqual"
  unfolding sample_model_def by (rule kv.checkable_model_axioms)

lemma sample_wf: "wf_history sample_history" "step_total sample_model sample_history"
proof -
  show wf: "wf_history sample_history" unfolding sample_history_def
    by (rule makeEntries_wf [OF ins.sorter_axioms sample_ops(1)])
  have "list_all kv_typed sample_history" by code_simp
  from kv_step_total [OF wf this] show "step_total sample_model sample_history" by (simp add: sample_model_def)
qed

lemma sample_linearizable: "ops_linearizable kvStore [put_op, get_op]"
  unfolding ops_linearizable_def
  by (rule exI [of _ "[put_op, get_op]"]) (simp add: sample_defs time_order_def kvStore_def kvStoreStep_def)

section \<open>The search\<close>

text \<open>
  (C2) \<open>checkSingle\<close> decides linearizability. For a complete history and a model that does not panic
  on it and whose \<open>Equal\<close> is an equivalence that \<open>Step\<close> respects, the search always returns (it
  neither panics nor runs forever, whatever the flag \<open>kill\<close> does), a positive answer is always
  right, and if the flag is never set the answer is positive exactly for linearizable histories.
\<close>

theorem check_single_decides:
  assumes "checkable_model m eq" and "wf_history H" and "step_total m H"
  shows "\<exists>b l. checkSingle m H computePartial kill = Some (Returned (b, l))
    \<and> (b \<longrightarrow> linearizable m H) \<and> ((\<forall>t. \<not> kill t) \<longrightarrow> (b \<longleftrightarrow> linearizable m H))"
  using checkable_model.checkSingle_spec [OF assms, of kill computePartial] unfolding search_spec_def by blast

theorem check_single_decides_witness:
  "wf_history sample_history \<and> (\<exists>b l. checkSingle sample_model sample_history True (\<lambda>_. False) = Some (Returned (b, l))
    \<and> (b \<longleftrightarrow> linearizable sample_model sample_history))"
  using check_single_decides [OF sample_checkable sample_wf, of True "\<lambda>_. False"] sample_wf(1) by auto

text \<open>
  (C6) What \<open>checkSingle\<close> reports besides the verdict: the sequence recorded for an operation is a
  linearizable prefix of the history that contains the operation, and after a positive verdict
  every operation has one and it contains all operations.
\<close>

theorem check_single_partials:
  assumes "checkable_model m eq" and "wf_history H" and "step_total m H"
    and "checkSingle m H computePartial kill = Some (Returned (b, l))" and "i < num_ops H"
  shows "length l = num_ops H
    \<and> (\<forall>t seq. l ! i = Some (t, seq) \<longrightarrow> (\<exists>ks. seq = map int ks \<and> i \<in> set ks \<and> linear_prefix m H ks))
    \<and> (b \<longrightarrow> (\<exists>t seq. l ! i = Some (t, seq) \<and> length seq = num_ops H))"
proof -
  have lo: "longest_ok m H l" and b: "b \<longrightarrow> l ! i \<noteq> None \<and> length (snd (the (l ! i))) = num_ops H"
    using checkable_model.checkSingle_spec [OF assms(1-3), of kill computePartial] assms(4,5)
    by (auto simp: search_spec_def)
  from lo assms(5) have "length l = num_ops H"
    "\<forall>t seq. l ! i = Some (t, seq) \<longrightarrow> (\<exists>ks. seq = map int ks \<and> i \<in> set ks \<and> linear_prefix m H ks)"
    unfolding longest_ok_def by blast+
  moreover have "b \<longrightarrow> (\<exists>t seq. l ! i = Some (t, seq) \<and> length seq = num_ops H)" using b by (cases "l ! i") auto
  ultimately show ?thesis by blast
qed

theorem check_single_partials_witness:
  "\<exists>b l. checkSingle sample_model sample_history True (\<lambda>_. False) = Some (Returned (b, l)) \<and> length l = num_ops sample_history"
proof -
  obtain b l where r: "checkSingle sample_model sample_history True (\<lambda>_. False) = Some (Returned (b, l))"
    using checkable_model.checkSingle_spec [OF sample_checkable sample_wf, of "\<lambda>_. False" True]
    by (auto simp: search_spec_def)
  have "0 < num_ops sample_history" by code_simp
  from check_single_partials [OF sample_checkable sample_wf r this] r show ?thesis by blast
qed

section \<open>Parallel checking\<close>

text \<open>
  (C5) The verdict of \<open>checkParallel\<close>, in every interleaving of its goroutines: \<open>Ok\<close> only if all
  partitions are linearizable, \<open>Illegal\<close> only if one is not, \<open>Unknown\<close> only after a timeout.
\<close>

theorem parallel_verdict:
  assumes "checkable_model m eq" and "checkable_histories m history"
    and "checkParallel m history computeInfo timeout (res, info)"
  shows "(res = Ok \<longrightarrow> list_all (linearizable m) history) \<and> (res = Illegal \<longrightarrow> \<not> list_all (linearizable m) history)
    \<and> (res = Unknown \<longrightarrow> 0 < timeout)"
  using checkable_model.checkParallel_verdict [OF assms] by blast

theorem parallel_verdict_witness:
  "\<exists>res info. checkParallel sample_model [sample_history] False 0 (res, info)
    \<and> (res = Ok \<longrightarrow> linearizable sample_model sample_history)"
proof -
  have c: "checkable_histories sample_model [sample_history]" using sample_wf by (simp add: checkable_histories_def)
  obtain res info where r: "checkParallel sample_model [sample_history] False 0 (res, info)"
    using checkable_model.checkParallel_returns [OF sample_checkable c] by blast
  from parallel_verdict [OF sample_checkable c r] r show ?thesis by auto
qed

text \<open>
  (C9) \<open>checkParallel\<close> makes progress: as long as there is at least one partition, no reachable state
  of its goroutines is stuck before it has returned, and every step they take decreases a measure,
  so that every run returns.
\<close>

theorem parallel_terminates:
  assumes "checkable_model m eq" and "checkable_histories m history" and "history \<noteq> []"
    and "reach (\<lambda>p. p = par_start history) (par_step m history computeInfo timeout) p"
  shows "(pphase p \<noteq> Finished \<longrightarrow> (\<exists>p'. par_step m history computeInfo timeout p p'))
    \<and> (\<forall>p'. par_step m history computeInfo timeout p p' \<longrightarrow> par_measure p' < par_measure p)"
proof -
  note inv = checkable_model.par_reach_inv [OF assms(1,2,4)]
  show ?thesis
    using checkable_model.par_progress [OF assms(1,2) inv assms(3)]
      checkable_model.par_step_decreases [OF assms(1,2) inv] by blast
qed

theorem parallel_terminates_witness:
  "\<exists>p'. par_step sample_model [sample_history] True 0 (par_start [sample_history]) p'"
proof -
  have c: "checkable_histories sample_model [sample_history]" using sample_wf by (simp add: checkable_histories_def)
  from parallel_terminates [OF sample_checkable c, of True 0 "par_start [sample_history]"] show ?thesis
    by (simp add: reach_start par_start_def)
qed

text \<open>
  (C17) Without partitions and without a timeout \<open>checkParallel\<close> blocks forever: its \<open>select\<close> waits for a
  result that no goroutine sends. \<open>KvModel\<close> partitions an empty history into no parts, so
  \<open>CheckOperations\<close> never returns on an empty history; it does return on every other one.
\<close>

theorem check_operations_returns_iff:
  assumes "sorter srt" and "list_all kv_op vs" and "well_timed vs"
  shows "(\<exists>b. CheckOperations srt d1 d2 KvModel vs b) \<longleftrightarrow> vs \<noteq> []"
proof -
  note e = kv_entries [OF assms, of d1 d2]
  have "(\<exists>res info. checkOperations srt d1 d2 KvModel vs False 0 (res, info)) \<longleftrightarrow> vs \<noteq> []"
    unfolding checkOperations_def Let_def e(1) using kv.checkParallel_returns [OF e(2), of False 0]
    by (cases "vs = []") (simp_all add: checkParallel_empty)
  then show ?thesis unfolding CheckOperations_def by blast
qed

theorem check_operations_returns_iff_witness:
  "(\<exists>b. CheckOperations insertionSort (\<lambda>_ _. None) (\<lambda>_. []) KvModel [put_op, get_op] b)
    \<and> \<not> (\<exists>b. CheckOperations insertionSort (\<lambda>_ _. None) (\<lambda>_. []) KvModel [] b)"
  using check_operations_returns_iff [OF ins.sorter_axioms sample_ops(2,1)]
    check_operations_returns_iff [OF ins.sorter_axioms, of "[]"] by (simp add: well_timed_def)

section \<open>Histories of operations\<close>

text \<open>
  (C1) End to end: for a history of key/value operations in which no operation returns before its
  call, whatever \<open>CheckOperations\<close> returns with \<open>KvModel\<close> is the truth about the whole store: true if
  and only if the operations, of all keys together, are linearizable with respect to a map from
  keys to values.
\<close>

theorem check_operations_correct:
  assumes "sorter srt" and "list_all kv_op vs" and "well_timed vs"
    and "CheckOperations srt d1 d2 KvModel vs b"
  shows "b \<longleftrightarrow> ops_linearizable kvStore vs"
proof -
  note e = kv_entries [OF assms(1-3), of d1 d2]
  obtain res info where r: "b = (res = Ok)"
    "checkParallel (fillDefault d1 d2 KvModel)
      (map (makeEntries srt) (map (\<lambda>k. of_key k vs) (sorted_list_of_set (kv_key ` set vs)))) False 0 (res, info)"
    using assms(4) by (auto simp: CheckOperations_def checkOperations_def e(1))
  from kv.checkParallel_verdict [OF e(2) r(2)] e(3) r(1) show ?thesis by (cases res) auto
qed

theorem check_operations_correct_witness:
  "\<exists>b. CheckOperations insertionSort (\<lambda>_ _. None) (\<lambda>_. []) KvModel [put_op, get_op] b \<and> b"
proof -
  note e = kv_entries [OF ins.sorter_axioms sample_ops(2,1), of "\<lambda>_ _. None" "\<lambda>_. []"]
  obtain res info where "checkOperations insertionSort (\<lambda>_ _. None) (\<lambda>_. []) KvModel [put_op, get_op] False 0 (res, info)"
    using kv.checkParallel_returns [OF e(2), of False 0] by (auto simp: checkOperations_def e(1))
  then have c: "CheckOperations insertionSort (\<lambda>_ _. None) (\<lambda>_. []) KvModel [put_op, get_op] (res = Ok)"
    by (auto simp: CheckOperations_def)
  from check_operations_correct [OF ins.sorter_axioms sample_ops(2,1) c] c sample_linearizable show ?thesis by auto
qed

text \<open>
  (C8) The partition of \<open>KvModel\<close> is admissible: a history is linearizable, as a history of the whole
  store, if and only if each of the parts is, as a history of one key.
\<close>

theorem kv_partition_local:
  assumes "list_all kv_op vs" and "well_timed vs"
  shows "\<exists>parts. kvPartition vs = Some parts
    \<and> (ops_linearizable kvStore vs \<longleftrightarrow> list_all (ops_linearizable KvModel) parts)"
  using kvPartition_eq [OF assms(1)] kv_locality [OF assms] by blast

theorem kv_partition_local_witness:
  "\<exists>parts. kvPartition [put_op, get_op] = Some parts \<and> list_all (ops_linearizable KvModel) parts"
  using kv_partition_local [OF sample_ops(2,1)] sample_linearizable by blast

text \<open>
  (C18) \<open>makeEntries\<close> turns operations into a complete history with their inputs and outputs, whatever
  order the unstable sort gives to equal elements: one operation precedes another in it exactly
  if it returned strictly before the other was called, operations that touch in time are concurrent.
\<close>

theorem make_entries_real_time:
  assumes "sorter srt" and "well_timed ops" and "i < length ops" and "j < length ops"
  shows "wf_history (makeEntries srt ops) \<and> num_ops (makeEntries srt ops) = length ops
    \<and> op_in (makeEntries srt ops) i = opInput (ops ! i) \<and> op_out (makeEntries srt ops) i = opOutput (ops ! i)
    \<and> (precedes (makeEntries srt ops) i j \<longleftrightarrow> opReturn (ops ! i) < opCall (ops ! j))"
  using makeEntries_wf [OF assms(1,2)] makeEntries_facts(3) [OF assms(1)] makeEntries_op [OF assms(1,3)]
    makeEntries_precedes [OF assms(1,3,4)] by blast

theorem make_entries_real_time_witness:
  "wf_history (makeEntries insertionSort [put_op, get_op]) \<and> \<not> precedes (makeEntries insertionSort [put_op, get_op]) 0 1"
  using make_entries_real_time [OF ins.sorter_axioms sample_ops(1), of 0 1] by (simp add: sample_defs)

section \<open>Histories of events\<close>

text \<open>
  (C19) \<open>renumber\<close> and \<open>convertEntries\<close> turn a complete list of events, with arbitrary ids, into a
  complete history: the ids become the numbers below the number of operations, each with its call
  and its return in the order of the events.
\<close>

theorem renumber_complete:
  assumes "wf_events events"
  shows "wf_history (convertEntries (renumber events))
    \<and> num_ops (convertEntries (renumber events)) = card (evId ` set events)
    \<and> map evValue (renumber events) = map evValue events \<and> map evKind (renumber events) = map evKind events"
proof -
  obtain f where "renumber events = map (\<lambda>v. v\<lparr>evId := the (f (evId v))\<rparr>) events"
    by (rule renumber_numbering)
  then have "map evValue (renumber events) = map evValue events" "map evKind (renumber events) = map evKind events"
    by simp_all
  with renumber_wf [OF assms] show ?thesis by blast
qed

definition sample_events :: "kv_value Event list" where
  "sample_events = [\<lparr>evClientId = 0, evKind = CallEvent, evValue = None, evId = 70\<rparr>,
     \<lparr>evClientId = 1, evKind = CallEvent, evValue = None, evId = -3\<rparr>,
     \<lparr>evClientId = 0, evKind = ReturnEvent, evValue = None, evId = 70\<rparr>,
     \<lparr>evClientId = 1, evKind = ReturnEvent, evValue = None, evId = -3\<rparr>]"

theorem renumber_complete_witness: "wf_events sample_events \<and> wf_history (convertEntries (renumber sample_events))"
proof -
  have "wf_events sample_events" by code_simp
  with renumber_complete [OF this] show ?thesis by blast
qed

end
