(* ===== verification/Grouping.thy ===== *)
theory Grouping
  imports Worker
begin

text \<open>
  What the reducing loops compute. Both the loop of the worker and that of the sequential program
  give one line for each run of equal keys; on a sorted slice that is one line for each key, with
  all the values of the key. For a reduce function that does not depend on the order of the values
  the lines depend only on the multiset of pairs, and they can be computed partition by partition.
\<close>

section \<open>The loops as a recursion over the runs\<close>

function groups :: "KeyValue list \<Rightarrow> (string \<times> string list) list" where
  "groups [] = []"
| "groups (kv # kvs) = (Key kv, Value kv # map Value (takeWhile (\<lambda>x. Key x = Key kv) kvs))
     # groups (dropWhile (\<lambda>x. Key x = Key kv) kvs)"
  by pat_completeness auto

termination
  by (relation "measure length") (simp_all add: length_dropWhile_le le_imp_less_Suc)

definition line_of :: "reducef \<Rightarrow> string \<times> string list \<Rightarrow> string" where
  "line_of red g = output_line (fst g) (red (fst g) (snd g))"

lemma collect_run:
  "collect kvs i j vals = (let run = takeWhile (\<lambda>x. Key x = Key (kvs ! i)) (drop j kvs) in
     (j + length run, vals @ map Value run))"
proof (induction kvs i j vals rule: collect.induct)
  case (1 kvs i j vals)
  show ?case
  proof (cases "j < length kvs \<and> Key (kvs ! j) = Key (kvs ! i)")
    case True
    then have "drop j kvs = kvs ! j # drop (Suc j) kvs" by (simp add: Cons_nth_drop_Suc)
    with True 1 show ?thesis by (subst collect.simps) (simp add: Let_def)
  next
    case False
    then have "takeWhile (\<lambda>x. Key x = Key (kvs ! i)) (drop j kvs) = []"
      by (cases "j < length kvs") (simp_all flip: Cons_nth_drop_Suc)
    with False show ?thesis by (subst collect.simps) auto
  qed
qed

lemma group_end_run: "group_end kvs i j = j + length (takeWhile (\<lambda>x. Key x = Key (kvs ! i)) (drop j kvs))"
proof (induction kvs i j rule: group_end.induct)
  case (1 kvs i j)
  show ?case
  proof (cases "j < length kvs \<and> Key (kvs ! j) = Key (kvs ! i)")
    case True
    then have "drop j kvs = kvs ! j # drop (Suc j) kvs" by (simp add: Cons_nth_drop_Suc)
    with True 1 show ?thesis by (subst group_end.simps) simp
  next
    case False
    then have "takeWhile (\<lambda>x. Key x = Key (kvs ! i)) (drop j kvs) = []"
      by (cases "j < length kvs") (simp_all flip: Cons_nth_drop_Suc)
    with False show ?thesis by (subst group_end.simps) auto
  qed
qed

lemma dropWhile_drop_run: "dropWhile P (drop j xs) = drop (j + length (takeWhile P (drop j xs))) xs"
  by (simp add: dropWhile_eq_drop add.commute)

lemma reduce_loop_groups: "reduce_loop red kvs i out = out @ map (line_of red) (groups (drop i kvs))"
proof (induction red kvs i out rule: reduce_loop.induct)
  case (1 red kvs i out)
  show ?case
  proof (cases "i < length kvs")
    case True
    let ?run = "takeWhile (\<lambda>x. Key x = Key (kvs ! i)) (drop (Suc i) kvs)"
    have c: "collect kvs i (i + 1) [Value (kvs ! i)] = (Suc i + length ?run, Value (kvs ! i) # map Value ?run)"
      by (simp add: collect_run Let_def)
    have "drop i kvs = kvs ! i # drop (Suc i) kvs" using True by (simp add: Cons_nth_drop_Suc)
    then have "groups (drop i kvs) = (Key (kvs ! i), Value (kvs ! i) # map Value ?run) # groups (drop (Suc i + length ?run) kvs)"
      by (simp add: dropWhile_drop_run)
    with True c 1 [OF True refl c [symmetric]] show ?thesis by (subst reduce_loop.simps) (simp add: line_of_def)
  qed (simp add: reduce_loop.simps)
qed

lemma map_nth_range: "j + m \<le> length xs \<Longrightarrow> map (\<lambda>k. f (xs ! k)) [j..<j + m] = map f (take m (drop j xs))"
  by (rule nth_equalityI) auto

lemma map_nth_run:
  assumes "i < length kvs"
  shows "map (\<lambda>k. Value (kvs ! k)) [i..<group_end kvs i (i + 1)]
    = Value (kvs ! i) # map Value (takeWhile (\<lambda>x. Key x = Key (kvs ! i)) (drop (Suc i) kvs))"
proof -
  let ?run = "takeWhile (\<lambda>x. Key x = Key (kvs ! i)) (drop (Suc i) kvs)"
  have "length ?run \<le> length kvs - Suc i" using length_takeWhile_le [of _ "drop (Suc i) kvs"] by simp
  then have "map (\<lambda>k. Value (kvs ! k)) [Suc i..<Suc i + length ?run] = map Value (take (length ?run) (drop (Suc i) kvs))"
    using assms by (intro map_nth_range) simp
  moreover have "[i..<Suc i + length ?run] = i # [Suc i..<Suc i + length ?run]" by (rule upt_conv_Cons) simp
  ultimately show ?thesis by (simp add: group_end_run takeWhile_eq_take [symmetric])
qed

lemma sequential_loop_groups: "sequential_loop red kvs i out = out @ map (line_of red) (groups (drop i kvs))"
proof (induction red kvs i out rule: sequential_loop.induct)
  case (1 red kvs i out)
  show ?case
  proof (cases "i < length kvs")
    case True
    let ?run = "takeWhile (\<lambda>x. Key x = Key (kvs ! i)) (drop (Suc i) kvs)"
    have "drop i kvs = kvs ! i # drop (Suc i) kvs" using True by (simp add: Cons_nth_drop_Suc)
    then have "groups (drop i kvs) = (Key (kvs ! i), Value (kvs ! i) # map Value ?run) # groups (drop (group_end kvs i (i + 1)) kvs)"
      by (simp add: dropWhile_drop_run group_end_run)
    with True 1 [OF True refl refl] map_nth_run [OF True] show ?thesis
      by (subst sequential_loop.simps) (simp add: line_of_def Let_def)
  qed (simp add: sequential_loop.simps)
qed

section \<open>The runs of a sorted slice\<close>

definition values_of :: "string \<Rightarrow> KeyValue list \<Rightarrow> string list" where
  "values_of k kvs = map Value (filter (\<lambda>x. Key x = k) kvs)"

lemma strict_weak_Less: "strict_weak Less"
  unfolding strict_weak_def Less_def by auto

lemma ordered_Less: "ordered_by Less kvs \<longleftrightarrow> sorted (map Key kvs)"
  by (simp add: ordered_by_def Less_def sorted_map not_less)

lemma sorted_runs:
  assumes "sorted (Key kv # map Key kvs)"
  shows "takeWhile (\<lambda>x. Key x = Key kv) kvs = filter (\<lambda>x. Key x = Key kv) kvs"
    and "dropWhile (\<lambda>x. Key x = Key kv) kvs = filter (\<lambda>x. Key x \<noteq> Key kv) kvs"
  using assms
proof (induction kvs)
  case (Cons x kvs)
  { case 1
    show ?case
    proof (cases "Key x = Key kv")
      case False
      with 1 have "Key kv < Key x" by auto
      with 1 have "\<forall>y\<in>set kvs. Key y \<noteq> Key kv" by auto
      with False show ?thesis by simp
    qed (use Cons.IH 1 in simp)
  next
    case 2
    show ?case
    proof (cases "Key x = Key kv")
      case False
      with 2 have "Key kv < Key x" by auto
      with 2 have "\<forall>y\<in>set kvs. Key y \<noteq> Key kv" by auto
      then have "filter (\<lambda>x. Key x \<noteq> Key kv) kvs = kvs" by (simp add: filter_id_conv)
      with False show ?thesis by simp
    qed (use Cons.IH 2 in simp) }
qed simp_all

lemma sorted_list_of_set_insert_min:
  assumes "finite A" and "\<forall>y\<in>A. x < y"
  shows "sorted_list_of_set (insert x A) = x # sorted_list_of_set A"
proof -
  have "A - {x} = A" using assms(2) by auto
  then have "sorted_list_of_set (insert x A) = insort x (sorted_list_of_set A)"
    using assms(1) by (simp add: sorted_list_of_set_insert_remove)
  also have "\<dots> = x # sorted_list_of_set A" using assms by (intro insort_is_Cons) (auto simp: less_imp_le)
  finally show ?thesis .
qed

lemma groups_sorted:
  "sorted (map Key kvs) \<Longrightarrow> groups kvs = map (\<lambda>k. (k, values_of k kvs)) (sorted_list_of_set (Key ` set kvs))"
proof (induction kvs rule: groups.induct)
  case (2 kv kvs)
  let ?rest = "filter (\<lambda>x. Key x \<noteq> Key kv) kvs"
  have s: "sorted (Key kv # map Key kvs)" using "2.prems" by simp
  note runs = sorted_runs [OF s]
  have "sorted (map Key ?rest)" using "2.prems" by (simp add: sorted_filter)
  then have IH: "groups ?rest = map (\<lambda>k. (k, values_of k ?rest)) (sorted_list_of_set (Key ` set ?rest))"
    using "2.IH" runs(2) by simp
  have keys: "Key ` set (kv # kvs) = insert (Key kv) (Key ` set ?rest)" by auto
  have "\<forall>y\<in>Key ` set ?rest. Key kv < y" using s by auto
  then have l: "sorted_list_of_set (Key ` set (kv # kvs)) = Key kv # sorted_list_of_set (Key ` set ?rest)"
    unfolding keys by (intro sorted_list_of_set_insert_min) auto
  have "values_of k ?rest = values_of k (kv # kvs)" if "k \<in> Key ` set ?rest" for k
    using that by (auto simp: values_of_def intro!: arg_cong [of _ _ "map Value"] filter_cong)
  then have "map (\<lambda>k. (k, values_of k ?rest)) (sorted_list_of_set (Key ` set ?rest))
      = map (\<lambda>k. (k, values_of k (kv # kvs))) (sorted_list_of_set (Key ` set ?rest))" by simp
  then show ?case unfolding l by (simp add: runs IH) (simp add: values_of_def)
qed simp

section \<open>The lines as a function of the multiset of pairs\<close>

lemma mset_sorted_list_of_set: "mset (sorted_list_of_set A) = mset_set A"
  by (metis mset_sorted_list_of_multiset sorted_list_of_mset_set)

definition order_free :: "reducef \<Rightarrow> bool" where
  "order_free red \<longleftrightarrow> (\<forall>k vs vs'. mset vs = mset vs' \<longrightarrow> red k vs = red k vs')"

definition reduce_lines :: "reducef \<Rightarrow> KeyValue list \<Rightarrow> string list" where
  "reduce_lines red kvs = map (\<lambda>k. line_of red (k, values_of k kvs)) (sorted_list_of_set (Key ` set kvs))"

lemma reduce_lines_mset:
  assumes "order_free red" and "mset xs = mset ys"
  shows "reduce_lines red xs = reduce_lines red ys"
proof -
  have "Key ` set xs = Key ` set ys" using mset_eq_setD [OF assms(2)] by simp
  moreover have "mset (values_of k xs) = mset (values_of k ys)" for k
    using assms(2) by (simp add: values_of_def)
  then have "red k (values_of k xs) = red k (values_of k ys)" for k
    using assms(1) unfolding order_free_def by blast
  ultimately show ?thesis by (simp add: reduce_lines_def line_of_def)
qed

lemma reduce_sorted_lines:
  assumes "sorter (sort_kvs :: (KeyValue \<Rightarrow> KeyValue \<Rightarrow> bool) \<Rightarrow> KeyValue list \<Rightarrow> KeyValue list)" and "order_free red"
  shows "map (line_of red) (groups (sort_kvs Less kvs)) = reduce_lines red kvs"
proof -
  have "sorted (map Key (sort_kvs Less kvs))"
    using sorter.sort_ordered [OF assms(1) strict_weak_Less] by (simp add: ordered_Less)
  then have "map (line_of red) (groups (sort_kvs Less kvs)) = reduce_lines red (sort_kvs Less kvs)"
    by (simp add: groups_sorted reduce_lines_def)
  also have "\<dots> = reduce_lines red kvs"
    by (rule reduce_lines_mset [OF assms(2)]) (rule sorter.sort_mset [OF assms(1)])
  finally show ?thesis .
qed

lemma image_mset_sum: "image_mset f (\<Sum>p<(n::nat). M p) = (\<Sum>p<n. image_mset f (M p))"
  by (induction n) simp_all

text \<open>Partitioning the keys by a function partitions the lines.\<close>

lemma reduce_lines_partition:
  fixes h :: "string \<Rightarrow> nat"
  assumes "\<And>kv. kv \<in> set kvs \<Longrightarrow> h (Key kv) \<in> {..<n}"
  shows "mset (reduce_lines red kvs)
    = (\<Sum>p<n. mset (reduce_lines red (filter (\<lambda>kv. h (Key kv) = p) kvs)))"
proof -
  let ?K = "Key ` set kvs" and ?l = "\<lambda>k. line_of red (k, values_of k kvs)"
  let ?P = "\<lambda>p. filter (\<lambda>kv. h (Key kv) = p) kvs"
  have one: "mset (reduce_lines red (?P p)) = image_mset ?l (mset_set {k \<in> ?K. h k = p})" for p
  proof -
    have keys: "Key ` set (?P p) = {k \<in> ?K. h k = p}" by auto
    have "values_of k (?P p) = values_of k kvs" if "h k = p" for k
      using that by (auto simp: values_of_def intro!: arg_cong [of _ _ "map Value"] filter_cong)
    then have "image_mset (\<lambda>k. line_of red (k, values_of k (?P p))) (mset_set {k \<in> ?K. h k = p})
        = image_mset ?l (mset_set {k \<in> ?K. h k = p})"
      by (intro image_mset_cong) auto
    then show ?thesis unfolding reduce_lines_def keys mset_map mset_sorted_list_of_set by simp
  qed
  have "mset_set ?K = (\<Sum>p<n. mset_set {k \<in> ?K. h k = p})"
  proof (rule multiset_eqI)
    fix k
    have "count (\<Sum>p<n. mset_set {k \<in> ?K. h k = p}) k = (\<Sum>p<n. if k \<in> ?K \<and> h k = p then 1 else 0)"
      by (simp add: count_sum count_mset_set')
    also have "\<dots> = (if k \<in> ?K then 1 else 0)" using assms by (auto simp: sum.delta')
    finally show "count (mset_set ?K) k = count (\<Sum>p<n. mset_set {k \<in> ?K. h k = p}) k"
      by (simp add: count_mset_set')
  qed
  then have "image_mset ?l (mset_set ?K) = (\<Sum>p<n. image_mset ?l (mset_set {k \<in> ?K. h k = p}))"
    by (simp add: image_mset_sum)
  then show ?thesis unfolding one by (simp add: reduce_lines_def mset_sorted_list_of_set)
qed

end
