(* ===== verification/WorkerFiles.thy ===== *)
theory WorkerFiles
  imports Grouping CoordinatorInv
begin

text \<open>
  The effect of the worker's tasks on the files: which intermediate files a map task writes, which
  of them a reduce task finds, and what it reads back.
\<close>

section \<open>The partition of a key\<close>

lemma ihash_range: "0 \<le> ihash key" "ihash key < 2 ^ 31"
proof -
  have "fnv32a key AND 0x7fffffff \<le> 0x7fffffff" by (rule word_and_le1)
  then have "uint (fnv32a key AND 0x7fffffff) \<le> uint (0x7fffffff :: 32 word)" by (simp only: word_le_def)
  then show "ihash key < 2 ^ 31" by (simp add: ihash_def)
qed (simp add: ihash_def)

definition bucket :: "int \<Rightarrow> string \<Rightarrow> int" where
  "bucket n key = ihash key smod n"

lemma bucket_range: "0 < n \<Longrightarrow> 0 \<le> bucket n key" "0 < n \<Longrightarrow> bucket n key < n"
  using ihash_range(1) [of key] by (auto simp: bucket_def smod_int_alt_def sgn_if)

definition bucket_of :: "int \<Rightarrow> KeyValue list \<Rightarrow> int \<Rightarrow> KeyValue list" where
  "bucket_of n kvs p = filter (\<lambda>kv. bucket n (Key kv) = p) kvs"

lemma add_partitions_eq: "n \<noteq> 0 \<Longrightarrow> add_partitions n kvs ps = Inr (\<lambda>p. ps p @ bucket_of n kvs p)"
  by (induction kvs arbitrary: ps) (auto simp: bucket_of_def bucket_def Let_def)

lemma add_partitions_panic: "add_partitions 0 (kv # kvs) ps = Inl (Panic ''integer divide by zero'')"
  by simp

section \<open>Paths\<close>

lemma ReadFile_write [simp]: "ReadFile (write_file p c fs) q = (if q = p then Some c else ReadFile fs q)"
  by (simp add: ReadFile_def write_file_def update_conv')

lemma dirs_write [simp]: "dirs (write_file p c fs) = dirs fs"
  by (simp add: write_file_def)

lemma paths_ReadFile: "p \<in> set (map fst (files fs)) \<longleftrightarrow> ReadFile fs p \<noteq> None"
  by (simp add: ReadFile_def map_of_eq_None_iff)

lemma parent_join [simp]: "slash \<notin> set name \<Longrightarrow> parent (dir @ slash # name) = dir"
  by (subst parent_def, subst rev_append, subst rev.simps, subst append_assoc, subst dropWhile_append2) (auto simp: Let_def)

lemma base_join [simp]: "slash \<notin> set name \<Longrightarrow> base (dir @ slash # name) = name"
  by (subst base_def, subst rev_append, subst rev.simps, subst append_assoc, subst takeWhile_append2) auto

lemma base_no_slash [simp]: "slash \<notin> set (base p)"
  by (auto simp: base_def dest: set_takeWhileD)

lemma join_parent_base:
  assumes "parent p = dir" and "dir \<noteq> ''.''"
  shows "p = dir @ slash # base p"
proof -
  let ?P = "\<lambda>c. c \<noteq> slash"
  obtain r where r: "dropWhile ?P (rev p) = slash # r"
    using assms by (cases "dropWhile ?P (rev p)") (auto simp: parent_def dest!: dropWhile_eq_Cons_conv [THEN iffD1])
  then have "rev p = takeWhile ?P (rev p) @ slash # r" by (metis takeWhile_dropWhile_id)
  then have "p = rev r @ slash # base p" unfolding base_def by (metis append.assoc append_Cons append_Nil rev.simps(2) rev_append rev_rev_ident)
  with assms r show ?thesis by (simp add: parent_def Let_def)
qed

lemma no_slash_names [simp]: "slash \<notin> set (itoa n)" "CHR ''*'' \<notin> set (itoa n)" "slash \<notin> set (task_name n)"
proof -
  have s: "(of_char slash :: nat) = 47" "(of_char (CHR ''*'') :: nat) = 42" by (simp_all add: slash_def)
  show "slash \<notin> set (itoa n)" using itoa_digits [of slash n] s(1) by auto
  then show "slash \<notin> set (task_name n)" by (auto simp: task_name_def slash_def)
  show "CHR ''*'' \<notin> set (itoa n)" using itoa_digits [of "CHR ''*''" n] s(2) by auto
qed

lemma intermediate_dir_not_dot [simp]: "intermediate_dir \<noteq> ''.''"
  by (simp add: intermediate_dir_def)

lemma intermediate_name_nat:
  "intermediate_name (task_name i) (int p) = intermediate_dir @ slash # ''mr-task-'' @ itoa i @ CHR ''-'' # itoa p"
  by (simp add: intermediate_name_def task_name_def sprint_int_def)

lemma no_slash_intermediate [simp]: "slash \<notin> set (''mr-task-'' @ itoa i @ CHR ''-'' # itoa p)"
  using no_slash_names(1) [of i] no_slash_names(1) [of p] unfolding slash_def by simp

lemma intermediate_parent [simp]: "parent (intermediate_name (task_name i) (int p)) = intermediate_dir"
  unfolding intermediate_name_nat by (rule parent_join) (rule no_slash_intermediate)

lemma intermediate_inject [simp]:
  "intermediate_name (task_name i) (int p) = intermediate_name (task_name j) (int q) \<longleftrightarrow> i = j \<and> p = q"
  by (auto simp: intermediate_name_nat append_Cons_eq_iff)

lemma output_parent [simp]: "parent (output_name (int p)) = ''mr-data/output''"
proof -
  have "output_name (int p) = ''mr-data/output'' @ slash # ''mr-out-'' @ itoa p"
    by (simp add: output_name_def sprint_int_def slash_def)
  moreover have "slash \<notin> set (''mr-out-'' @ itoa p)" using no_slash_names(1) [of p] unfolding slash_def by simp
  ultimately show ?thesis by (metis parent_join)
qed

lemma output_inject [simp]: "output_name (int p) = output_name (int q) \<longleftrightarrow> p = q"
  by (simp add: output_name_def sprint_int_def)

section \<open>Glob\<close>

lemma glob_match_literal:
  "CHR ''*'' \<notin> set lit \<Longrightarrow> glob_match (lit @ ps) s \<longleftrightarrow> (\<exists>t. s = lit @ t \<and> glob_match ps t)"
proof (induction lit arbitrary: s)
  case (Cons c lit)
  then show ?case by (cases s) auto
qed simp

lemma glob_match_star:
  "glob_match (CHR ''*'' # ps) s \<longleftrightarrow> (\<exists>a b. s = a @ b \<and> slash \<notin> set a \<and> glob_match ps b)"
proof (induction s)
  case step: (Cons c s)
  show ?case
  proof
    assume "glob_match (CHR ''*'' # ps) (c # s)"
    then consider "glob_match ps (c # s)" | "c \<noteq> slash" "glob_match (CHR ''*'' # ps) s" by auto
    then show "\<exists>a b. c # s = a @ b \<and> slash \<notin> set a \<and> glob_match ps b"
    proof cases
      case 1
      then show ?thesis by (intro exI [of _ "[]"] exI [of _ "c # s"]) simp
    next
      case 2
      with step.IH obtain a b where "s = a @ b" "slash \<notin> set a" "glob_match ps b" by blast
      with 2 show ?thesis by (intro exI [of _ "c # a"] exI [of _ b]) auto
    qed
  next
    assume "\<exists>a b. c # s = a @ b \<and> slash \<notin> set a \<and> glob_match ps b"
    then obtain a b where ab: "c # s = a @ b" "slash \<notin> set a" "glob_match ps b" by blast
    show "glob_match (CHR ''*'' # ps) (c # s)"
    proof (cases a)
      case Nil
      with ab have "glob_match ps (c # s)" by simp
      then show ?thesis by simp
    next
      case (Cons x xs)
      with ab have "c = x" "s = xs @ b" "slash \<notin> set xs" "x \<noteq> slash" by auto
      with ab(3) step.IH have "glob_match (CHR ''*'' # ps) s" by blast
      with \<open>c = x\<close> \<open>x \<noteq> slash\<close> show ?thesis by simp
    qed
  qed
qed auto

lemma glob_match_intermediate:
  "glob_match (''mr-task-*-'' @ itoa p) name \<longleftrightarrow> (\<exists>mid. name = ''mr-task-'' @ mid @ CHR ''-'' # itoa p \<and> slash \<notin> set mid)"
proof -
  have lit: "glob_match (CHR ''-'' # itoa p) s \<longleftrightarrow> s = CHR ''-'' # itoa p" for s
    using glob_match_literal [of "CHR ''-'' # itoa p" "[]" s] by simp
  have eq: "''mr-task-*-'' @ itoa p = ''mr-task-'' @ CHR ''*'' # CHR ''-'' # itoa p" by simp
  have star: "CHR ''*'' \<notin> set ''mr-task-''" by simp
  show ?thesis unfolding eq glob_match_literal [OF star] glob_match_star lit by blast
qed

lemma Glob_distinct: "distinct (Glob fs dir pat)"
  by (simp add: Glob_def distinct_map inj_on_def)

lemma names_in_directory:
  assumes "dir \<noteq> ''.''"
  shows "name \<in> base ` {p. ReadFile fs p \<noteq> None \<and> parent p = dir}
    \<longleftrightarrow> slash \<notin> set name \<and> ReadFile fs (dir @ slash # name) \<noteq> None"
proof
  assume "name \<in> base ` {p. ReadFile fs p \<noteq> None \<and> parent p = dir}"
  then obtain p where p: "ReadFile fs p \<noteq> None" "parent p = dir" "name = base p" by blast
  have "p = dir @ slash # base p" by (rule join_parent_base [OF p(2) assms])
  then show "slash \<notin> set name \<and> ReadFile fs (dir @ slash # name) \<noteq> None" using p(1) unfolding p(3) by simp
next
  assume n: "slash \<notin> set name \<and> ReadFile fs (dir @ slash # name) \<noteq> None"
  show "name \<in> base ` {p. ReadFile fs p \<noteq> None \<and> parent p = dir}"
    by (rule image_eqI [of _ _ "dir @ slash # name"]) (use n in simp_all)
qed

lemma Glob_set:
  assumes "dir \<noteq> ''.''"
  shows "set (Glob fs dir pat) = (\<lambda>name. dir @ slash # name) ` {name. slash \<notin> set name \<and> glob_match pat name
     \<and> ReadFile fs (dir @ slash # name) \<noteq> None}"
proof -
  have "set (filter (\<lambda>p. parent p = dir) (map fst (files fs))) = {p. ReadFile fs p \<noteq> None \<and> parent p = dir}"
    by (auto simp: paths_ReadFile simp del: set_map)
  then have "set (remdups (map base (filter (\<lambda>p. parent p = dir) (map fst (files fs)))))
      = {name. slash \<notin> set name \<and> ReadFile fs (dir @ slash # name) \<noteq> None}"
    using names_in_directory [OF assms] by (simp only: set_remdups set_map) blast
  then have "set (filter (glob_match pat) (remdups (map base (filter (\<lambda>p. parent p = dir) (map fst (files fs))))))
      = {name. slash \<notin> set name \<and> glob_match pat name \<and> ReadFile fs (dir @ slash # name) \<noteq> None}"
    by (simp only: set_filter) blast
  then show ?thesis unfolding Glob_def set_map set_sort by simp
qed

section \<open>What a map task writes\<close>

abbreviation iname :: "nat \<Rightarrow> nat \<Rightarrow> string" where
  "iname i p \<equiv> intermediate_name (task_name i) (int p)"

lemma Create_ok: "parent p \<in> set (dirs fs) \<Longrightarrow> Create fs p = Inr (write_file p [] fs)"
  by (simp add: Create_def)

lemma write_partitions_ok:
  assumes "intermediate_dir \<in> set (dirs fs)"
  shows "\<exists>fs'. write_partitions (task_name i) ps (map int ids) fs = (fs', None) \<and> dirs fs' = dirs fs
    \<and> (\<forall>p. p \<in> set ids \<longrightarrow> ReadFile fs' (iname i p) = Some (concat (map Encode (ps (int p)))))
    \<and> (\<forall>q. (\<forall>p. p \<in> set ids \<longrightarrow> q \<noteq> iname i p) \<longrightarrow> ReadFile fs' q = ReadFile fs q)"
  using assms
proof (induction ids arbitrary: fs)
  case (Cons p ids)
  let ?c = "concat (map Encode (ps (int p)))"
  let ?fs = "write_file (iname i p) ?c (write_file (iname i p) [] fs)"
  have c: "Create fs (iname i p) = Inr (write_file (iname i p) [] fs)" using Cons.prems by (simp add: Create_ok)
  have "intermediate_dir \<in> set (dirs ?fs)" using Cons.prems by simp
  from Cons.IH [OF this] obtain fs' where fs': "write_partitions (task_name i) ps (map int ids) ?fs = (fs', None)"
    "dirs fs' = dirs ?fs" "\<And>x. x \<in> set ids \<Longrightarrow> ReadFile fs' (iname i x) = Some (concat (map Encode (ps (int x))))"
    "\<And>q. (\<forall>x. x \<in> set ids \<longrightarrow> q \<noteq> iname i x) \<Longrightarrow> ReadFile fs' q = ReadFile ?fs q" by blast
  have "write_partitions (task_name i) ps (map int (p # ids)) fs = (fs', None)" by (simp add: c fs'(1))
  moreover have "ReadFile fs' (iname i x) = Some (concat (map Encode (ps (int x))))" if "x \<in> set (p # ids)" for x
    using that fs'(3) [of x] fs'(4) [of "iname i x"] by (cases "x \<in> set ids") auto
  moreover have "ReadFile fs' q = ReadFile fs q" if "\<forall>x. x \<in> set (p # ids) \<longrightarrow> q \<noteq> iname i x" for q
    using that fs'(4) [of q] by auto
  ultimately show ?case using fs'(2) by auto
qed simp

lemma MapperTask_ok:
  assumes "loadPlugin open_plugin arg1 = Inr (m, red)" and "ReadFile fs (rFilePath r) = Some content"
    and "0 < rNReduce r" and "rTaskId r = task_name i" and "intermediate_dir \<in> set (dirs fs)"
  shows "\<exists>fs'. MapperTask open_plugin arg1 r fs = (fs', None) \<and> dirs fs' = dirs fs
    \<and> (\<forall>p. p < nat (rNReduce r) \<longrightarrow>
         ReadFile fs' (iname i p) = Some (concat (map Encode (bucket_of (rNReduce r) (m (rFilePath r) content) (int p)))))
    \<and> (\<forall>q. (\<forall>p. p < nat (rNReduce r) \<longrightarrow> q \<noteq> iname i p) \<longrightarrow> ReadFile fs' q = ReadFile fs q)"
proof -
  have "add_partitions (rNReduce r) (m (rFilePath r) content) (\<lambda>_. [])
      = Inr (\<lambda>p. bucket_of (rNReduce r) (m (rFilePath r) content) p)"
    using assms(3) by (simp add: add_partitions_eq)
  then have "MapperTask open_plugin arg1 r fs = write_partitions (task_name i)
      (\<lambda>p. bucket_of (rNReduce r) (m (rFilePath r) content) p) (map int [0..<nat (rNReduce r)]) fs"
    using assms(1,2,4) by (simp add: MapperTask_def)
  with write_partitions_ok [OF assms(5), of i "\<lambda>p. bucket_of (rNReduce r) (m (rFilePath r) content) p" "[0..<nat (rNReduce r)]"]
  show ?thesis by simp
qed

section \<open>What a reduce task reads\<close>

definition clean :: "nat \<Rightarrow> FileSystem \<Rightarrow> bool" where
  "clean m fs \<longleftrightarrow> (\<forall>q. ReadFile fs q \<noteq> None \<longrightarrow> parent q = intermediate_dir \<longrightarrow> (\<exists>i p. i < m \<and> q = iname i p))"

lemma Glob_intermediate:
  assumes "clean m fs" and "\<And>i. i < m \<Longrightarrow> ReadFile fs (iname i p) \<noteq> None"
  shows "set (Glob fs intermediate_dir (''mr-task-*-'' @ sprint_int (int p))) = (\<lambda>i. iname i p) ` {..<m}"
proof (intro equalityI subsetI)
  fix q assume "q \<in> set (Glob fs intermediate_dir (''mr-task-*-'' @ sprint_int (int p)))"
  then obtain name where n: "q = intermediate_dir @ slash # name" "slash \<notin> set name" "ReadFile fs q \<noteq> None"
    "glob_match (''mr-task-*-'' @ itoa p) name"
    unfolding Glob_set [OF intermediate_dir_not_dot] by (auto simp: sprint_int_def)
  then obtain i p' where i: "i < m" "q = iname i p'" using assms(1) unfolding clean_def by force
  obtain mid where "name = ''mr-task-'' @ mid @ CHR ''-'' # itoa p"
    using n(4) unfolding glob_match_intermediate by blast
  then have "itoa i @ CHR ''-'' # itoa p' = mid @ CHR ''-'' # itoa p"
    using i(2) n(1) by (simp add: intermediate_name_nat)
  then have "p' = p" by (simp add: append_Cons_eq_iff)
  then show "q \<in> (\<lambda>i. iname i p) ` {..<m}" using i by blast
next
  fix q assume "q \<in> (\<lambda>i. iname i p) ` {..<m}"
  then obtain i where i: "i < m" "q = iname i p" by blast
  let ?name = "''mr-task-'' @ itoa i @ CHR ''-'' # itoa p"
  have "glob_match (''mr-task-*-'' @ itoa p) ?name" unfolding glob_match_intermediate
    by (rule exI [of _ "itoa i"]) simp
  then show "q \<in> set (Glob fs intermediate_dir (''mr-task-*-'' @ sprint_int (int p)))"
    using assms(2) [OF i(1)] i(2) no_slash_intermediate [of i p]
    unfolding Glob_set [OF intermediate_dir_not_dot] intermediate_name_nat
    by (intro image_eqI [of _ _ ?name]) (simp_all add: sprint_int_def)
qed

lemma read_intermediate_ok:
  "(\<And>f. f \<in> set fl \<Longrightarrow> ReadFile fs f = Some (c f)) \<Longrightarrow> read_intermediate fs fl = Inr (concat (map (\<lambda>f. decode_loop (c f)) fl))"
  by (induction fl) auto

lemma mset_concat_map: "mset xs = mset ys \<Longrightarrow> mset (concat (map f xs)) = mset (concat (map f ys))"
  by (simp add: mset_concat multiset.map_comp comp_def flip: mset_map)
     (metis mset_map sum_mset_sum_list)

lemma reducer_reads:
  assumes "clean m fs" and B: "\<And>i. i < m \<Longrightarrow> ReadFile fs (iname i p) = Some (concat (map Encode (B i)))"
    and utf8: "\<And>i. i < m \<Longrightarrow> list_all utf8_kv (B i)"
  shows "\<exists>kvs. read_intermediate fs (Glob fs intermediate_dir (''mr-task-*-'' @ sprint_int (int p))) = Inr kvs
    \<and> mset kvs = mset (concat (map B [0..<m]))"
proof -
  let ?G = "Glob fs intermediate_dir (''mr-task-*-'' @ sprint_int (int p))" and ?c = "\<lambda>f. the (ReadFile fs f)"
  have set: "set ?G = (\<lambda>i. iname i p) ` {..<m}" by (rule Glob_intermediate) (use assms(1) B in auto)
  have inj: "inj_on (\<lambda>i. iname i p) {..<m}" by (auto simp: inj_on_def)
  have "mset ?G = mset_set (set ?G)" by (rule mset_set_set [symmetric]) (rule Glob_distinct)
  also have "\<dots> = mset (map (\<lambda>i. iname i p) [0..<m])"
    unfolding set using image_mset_mset_set [OF inj] by (simp add: lessThan_atLeast0)
  finally have G: "mset ?G = mset (map (\<lambda>i. iname i p) [0..<m])" .
  have "read_intermediate fs ?G = Inr (concat (map (\<lambda>f. decode_loop (?c f)) ?G))"
    by (rule read_intermediate_ok) (use set B in auto)
  moreover have "mset (concat (map (\<lambda>f. decode_loop (?c f)) ?G)) = mset (concat (map (\<lambda>f. decode_loop (?c f)) (map (\<lambda>i. iname i p) [0..<m])))"
    by (rule mset_concat_map [OF G])
  moreover have "map (\<lambda>f. decode_loop (?c f)) (map (\<lambda>i. iname i p) [0..<m]) = map B [0..<m]"
    using B utf8 by (simp add: decode_loop_encoded)
  ultimately show ?thesis by metis
qed

end
