(* ===== verification/MrSystem.thy ===== *)
theory MrSystem
  imports WorkerFiles CoordinatorProps
begin

text \<open>
  The whole MapReduce system: one coordinator, any number of workers that start at any time, and
  the files they share. A step is one call to the coordinator, one map task, one half of a reduce
  task (up to the creation of the output file, and the writes), or a health check; the append of a
  registration, which runs without the mutex, is a read and a later write. A map task is one step
  because no other process writes its files (a task is handed out once) and none reads them before
  it is reported. The invariant ties the task tables of the coordinator to the files.
\<close>

section \<open>States and steps\<close>

record mr_job =
  plug :: plugins
  plugArg :: string
  sorting :: "(KeyValue \<Rightarrow> KeyValue \<Rightarrow> bool) \<Rightarrow> KeyValue list \<Rightarrow> KeyValue list"
  inputs :: "string list"
  nRed :: int
  disk0 :: FileSystem

record mr_state =
  coord :: Coordinator
  disk :: FileSystem
  procs :: "(Workers \<times> proc) list"

datatype mr_event =
    Start Workers
  | RegRead nat
  | RegWrite nat int bool bool
  | RegFail nat bool
  | Fetch nat delivery
  | RunMap nat
  | OpenReduce nat
  | WriteReduce nat
  | Report nat delivery
  | Health "string \<Rightarrow> bool" "string \<Rightarrow> bool" string string nat int

definition proc_at :: "mr_state \<Rightarrow> nat \<Rightarrow> (Workers \<times> proc) option" where
  "proc_at s k = (if k < length (procs s) then Some (procs s ! k) else None)"

definition set_proc :: "nat \<Rightarrow> proc \<Rightarrow> mr_state \<Rightarrow> mr_state" where
  "set_proc k x s = s\<lparr>procs := (procs s)[k := (fst (procs s ! k), x)]\<rparr>"

fun mr_exec :: "mr_job \<Rightarrow> mr_state \<Rightarrow> mr_event \<Rightarrow> mr_state option" where
  "mr_exec J s (Start w) = Some (s\<lparr>procs := procs s @ [(w, Registering)]\<rparr>)"
| "mr_exec J s (RegRead k) = (case proc_at s k of
     Some (w, Registering) \<Rightarrow> Some (set_proc k (Appending (register_read (coord s))) s) | _ \<Rightarrow> None)"
| "mr_exec J s (RegWrite k now shared delivered) = (case proc_at s k of
     Some (w, Appending ws) \<Rightarrow>
       Some (set_proc k (WorkerRegistrationRequest (if delivered then Delivered else Lost True) True)
         (s\<lparr>coord := register_write shared (coord s) ws (registration_args w) now\<rparr>)) | _ \<Rightarrow> None)"
| "mr_exec J s (RegFail k dialled) = (case proc_at s k of
     Some (w, Registering) \<Rightarrow>
       Some (set_proc k (WorkerRegistrationRequest (if dialled then Lost False else DialFails) True) s) | _ \<Rightarrow> None)"
| "mr_exec J s (Fetch k d) = (case proc_at s k of
     Some (w, Fetching) \<Rightarrow> (case TaskRequestByWorker (coord s) (request_args w) zeroRequestReply of
       (c', r) \<Rightarrow> Some (set_proc k (WorkerFetchTasks d r) (if handled d then s\<lparr>coord := c'\<rparr> else s))) | _ \<Rightarrow> None)"
| "mr_exec J s (RunMap k) = (case proc_at s k of
     Some (w, Mapping r) \<Rightarrow> (case MapperTask (plug J) (plugArg J) r (disk s) of
       (fs', None) \<Rightarrow> Some (set_proc k (Reporting r) (s\<lparr>disk := fs'\<rparr>))
     | (fs', Some e) \<Rightarrow> Some (set_proc k (Exited e) (s\<lparr>disk := fs'\<rparr>))) | _ \<Rightarrow> None)"
| "mr_exec J s (OpenReduce k) = (case proc_at s k of
     Some (w, Reducing r) \<Rightarrow> (case reducer_open (plug J) (plugArg J) (sorting J) r (disk s) of
       (fs', Inr out) \<Rightarrow> Some (set_proc k (Writing r out) (s\<lparr>disk := fs'\<rparr>))
     | (fs', Inl e) \<Rightarrow> Some (set_proc k (Exited e) (s\<lparr>disk := fs'\<rparr>))) | _ \<Rightarrow> None)"
| "mr_exec J s (WriteReduce k) = (case proc_at s k of
     Some (w, Writing r out) \<Rightarrow> Some (set_proc k (Reporting r) (s\<lparr>disk := reducer_write r out (disk s)\<rparr>)) | _ \<Rightarrow> None)"
| "mr_exec J s (Report k d) = (case proc_at s k of
     Some (w, Reporting r) \<Rightarrow> (case TaskUpdateByWorker (coord s) (update_args w r) zeroUpdateReply of
       (c', u) \<Rightarrow> Some (set_proc k (DoWorkerTaskUpdate d u) (if handled d then s\<lparr>coord := c'\<rparr> else s))) | _ \<Rightarrow> None)"
| "mr_exec J s (Health dial ping wid port idx now) =
     map_option (\<lambda>c'. s\<lparr>coord := c'\<rparr>) (WorkerSync dial ping (coord s) wid port idx now)"

inductive mr_step :: "mr_job \<Rightarrow> mr_state \<Rightarrow> mr_state \<Rightarrow> bool" where
  mr_step_exec: "mr_exec J s e = Some s' \<Longrightarrow> mr_step J s s'"

definition mr_initial :: "mr_job \<Rightarrow> mr_state" where
  "mr_initial J = \<lparr>coord = MakeCoordinator (inputs J) (nRed J), disk = disk0 J, procs = []\<rparr>"

definition mr_start :: "mr_job \<Rightarrow> mr_state \<Rightarrow> bool" where
  "mr_start J s \<longleftrightarrow> s = mr_initial J"

section \<open>The jobs that are considered and what they should compute\<close>

definition mr_ok :: "mr_job \<Rightarrow> mapf \<Rightarrow> reducef \<Rightarrow> bool" where
  "mr_ok J m red \<longleftrightarrow> loadPlugin (plug J) (plugArg J) = Inr (m, red) \<and> sorter (sorting J) \<and> order_free red \<and> 0 < nRed J
     \<and> intermediate_dir \<in> set (dirs (disk0 J)) \<and> ''mr-data/output'' \<in> set (dirs (disk0 J)) \<and> clean 0 (disk0 J)
     \<and> (\<forall>f\<in>set (inputs J). parent f \<noteq> intermediate_dir \<and> parent f \<noteq> ''mr-data/output''
          \<and> (\<exists>content. ReadFile (disk0 J) f = Some content \<and> list_all utf8_kv (m f content)))"

lemma mr_okD:
  assumes "mr_ok J m red"
  shows "loadPlugin (plug J) (plugArg J) = Inr (m, red)" "sorter (sorting J)" "order_free red" "0 < nRed J"
    "intermediate_dir \<in> set (dirs (disk0 J))" "''mr-data/output'' \<in> set (dirs (disk0 J))" "clean 0 (disk0 J)"
    "\<And>f. f \<in> set (inputs J) \<Longrightarrow> parent f \<noteq> intermediate_dir"
    "\<And>f. f \<in> set (inputs J) \<Longrightarrow> parent f \<noteq> ''mr-data/output''"
    "\<And>f. f \<in> set (inputs J) \<Longrightarrow> \<exists>content. ReadFile (disk0 J) f = Some content \<and> list_all utf8_kv (m f content)"
  using assms by (simp_all add: mr_ok_def)

definition pairs_of :: "mr_job \<Rightarrow> mapf \<Rightarrow> nat \<Rightarrow> KeyValue list" where
  "pairs_of J m i = m (inputs J ! i) (the (ReadFile (disk0 J) (inputs J ! i)))"

definition share :: "mr_job \<Rightarrow> mapf \<Rightarrow> nat \<Rightarrow> nat \<Rightarrow> KeyValue list" where
  "share J m i p = bucket_of (nRed J) (pairs_of J m i) (int p)"

definition out_lines :: "mr_job \<Rightarrow> mapf \<Rightarrow> reducef \<Rightarrow> nat \<Rightarrow> string list" where
  "out_lines J m red p = reduce_lines red (concat (map (\<lambda>i. share J m i p) [0..<length (inputs J)]))"

section \<open>The invariant\<close>

definition map_done :: "Coordinator \<Rightarrow> nat \<Rightarrow> bool" where
  "map_done c i \<longleftrightarrow> i < length (mapTasks c) \<and> status (mapTasks c ! i) = DONE"

definition red_done :: "Coordinator \<Rightarrow> nat \<Rightarrow> bool" where
  "red_done c p \<longleftrightarrow> p < length (reduceTasks c) \<and> status (reduceTasks c ! p) = DONE"

definition map_written :: "mr_job \<Rightarrow> mapf \<Rightarrow> FileSystem \<Rightarrow> nat \<Rightarrow> bool" where
  "map_written J m fs i \<longleftrightarrow> (\<forall>p<nat (nRed J). ReadFile fs (iname i p) = Some (concat (map Encode (share J m i p))))"

definition half_written :: "mr_job \<Rightarrow> mapf \<Rightarrow> reducef \<Rightarrow> FileSystem \<Rightarrow> nat \<Rightarrow> bool" where
  "half_written J m red fs p \<longleftrightarrow> ReadFile fs (output_name (int p)) \<in> {Some [], Some (concat (out_lines J m red p))}"

definition writer :: "mr_state \<Rightarrow> nat \<Rightarrow> nat \<Rightarrow> bool" where
  "writer s p k \<longleftrightarrow> k < length (procs s) \<and> (\<exists>r out. snd (procs s ! k) = Writing r out \<and> rPartition r = int p)"

definition out_ok :: "mr_job \<Rightarrow> mapf \<Rightarrow> reducef \<Rightarrow> mr_state \<Rightarrow> nat \<Rightarrow> bool" where
  "out_ok J m red s p \<longleftrightarrow> ReadFile (disk s) (output_name (int p)) = Some (concat (out_lines J m red p))
     \<or> half_written J m red (disk s) p \<and> (\<exists>k. writer s p k)"

definition map_reply :: "mr_job \<Rightarrow> nat \<Rightarrow> WorkerTaskRequestReply \<Rightarrow> bool" where
  "map_reply J i r \<longleftrightarrow> i < length (inputs J) \<and> rTaskId r = task_name i \<and> rType r = MapTask \<and> rFilePath r = inputs J ! i
     \<and> rNReduce r = nRed J"

text \<open>A reduce task; the one without an id is what a worker runs when there is no waiting task.\<close>

definition red_reply :: "mr_job \<Rightarrow> nat \<Rightarrow> WorkerTaskRequestReply \<Rightarrow> bool" where
  "red_reply J p r \<longleftrightarrow> p < nat (nRed J) \<and> rPartition r = int p
     \<and> (rType r = ReduceTask \<and> rTaskId r = task_name p \<or> rType r = NoTask \<and> rTaskId r = [])"

definition proc_ok :: "mr_job \<Rightarrow> mapf \<Rightarrow> reducef \<Rightarrow> mr_state \<Rightarrow> proc \<Rightarrow> bool" where
  "proc_ok J m red s x = (case x of
     Mapping r \<Rightarrow> \<exists>i. map_reply J i r
   | Reducing r \<Rightarrow> phase (coord s) \<noteq> MapPhase \<and> (\<exists>p. red_reply J p r)
   | Writing r out \<Rightarrow> phase (coord s) \<noteq> MapPhase
       \<and> (\<exists>p. red_reply J p r \<and> out = out_lines J m red p \<and> half_written J m red (disk s) p)
   | Reporting r \<Rightarrow> (\<exists>i. map_reply J i r \<and> map_written J m (disk s) i) \<or> (\<exists>p. red_reply J p r \<and> out_ok J m red s p)
   | _ \<Rightarrow> True)"

definition disk_ok :: "mr_job \<Rightarrow> FileSystem \<Rightarrow> bool" where
  "disk_ok J fs \<longleftrightarrow> dirs fs = dirs (disk0 J) \<and> (\<forall>f\<in>set (inputs J). ReadFile fs f = ReadFile (disk0 J) f)
     \<and> clean (length (inputs J)) fs"

definition mr_inv :: "mr_job \<Rightarrow> mapf \<Rightarrow> reducef \<Rightarrow> mr_state \<Rightarrow> bool" where
  "mr_inv J m red s \<longleftrightarrow> coord_inv (inputs J) (nRed J) (coord s) \<and> disk_ok J (disk s)
     \<and> (\<forall>i. map_done (coord s) i \<longrightarrow> map_written J m (disk s) i)
     \<and> (\<forall>k<length (procs s). proc_ok J m red s (snd (procs s ! k)))
     \<and> (\<forall>p. red_done (coord s) p \<longrightarrow> out_ok J m red s p)"

text \<open>What a step keeps of what the processes rely on.\<close>

definition mr_le :: "mr_job \<Rightarrow> mapf \<Rightarrow> reducef \<Rightarrow> mr_state \<Rightarrow> mr_state \<Rightarrow> bool" where
  "mr_le J m red s s' \<longleftrightarrow> (phase (coord s) \<noteq> MapPhase \<longrightarrow> phase (coord s') \<noteq> MapPhase)
     \<and> (\<forall>i. map_written J m (disk s) i \<longrightarrow> map_written J m (disk s') i)
     \<and> (\<forall>p. half_written J m red (disk s) p \<longrightarrow> half_written J m red (disk s') p)
     \<and> (\<forall>p. out_ok J m red s p \<longrightarrow> out_ok J m red s' p)"

lemma proc_ok_mono: "proc_ok J m red s x \<Longrightarrow> mr_le J m red s s' \<Longrightarrow> proc_ok J m red s' x"
  unfolding proc_ok_def mr_le_def by (cases x) (simp_all, blast+)

lemma mr_inv_step:
  assumes inv: "mr_inv J m red s" and le: "mr_le J m red s s'"
    and "coord_inv (inputs J) (nRed J) (coord s')" and "disk_ok J (disk s')"
    and "\<And>i. map_done (coord s') i \<Longrightarrow> map_done (coord s) i \<or> map_written J m (disk s') i"
    and "\<And>p. red_done (coord s') p \<Longrightarrow> red_done (coord s) p \<or> out_ok J m red s' p"
    and "\<And>k. k < length (procs s') \<Longrightarrow> k < length (procs s) \<and> procs s' ! k = procs s ! k \<or> proc_ok J m red s' (snd (procs s' ! k))"
  shows "mr_inv J m red s'"
  unfolding mr_inv_def
proof (intro conjI allI impI)
  show "coord_inv (inputs J) (nRed J) (coord s')" "disk_ok J (disk s')" by fact+
next
  fix i assume "map_done (coord s') i"
  with assms(5) inv le show "map_written J m (disk s') i" unfolding mr_inv_def mr_le_def by blast
next
  fix k assume k: "k < length (procs s')"
  from assms(7) [OF this] show "proc_ok J m red s' (snd (procs s' ! k))"
  proof
    assume "k < length (procs s) \<and> procs s' ! k = procs s ! k"
    with inv have "proc_ok J m red s (snd (procs s' ! k))" unfolding mr_inv_def by simp
    then show ?thesis using le by (rule proc_ok_mono)
  qed
next
  fix p assume "red_done (coord s') p"
  with assms(6) inv le show "out_ok J m red s' p" unfolding mr_inv_def mr_le_def by blast
qed

section \<open>Steps that leave the files alone\<close>

lemma writer_set_proc:
  assumes "writer s p j" and "\<not> (\<exists>r out. snd (procs s ! k) = Writing r out)"
  shows "writer (set_proc k x s) p j"
  using assms by (cases "j = k") (auto simp: writer_def set_proc_def)

lemma writer_coord [simp]: "writer (s\<lparr>coord := c\<rparr>) = writer s" "writer (s\<lparr>disk := fs'\<rparr>) = writer s"
  by (auto simp: writer_def fun_eq_iff)

lemma set_proc_fields [simp]: "coord (set_proc k x s) = coord s" "disk (set_proc k x s) = disk s"
  "length (procs (set_proc k x s)) = length (procs s)"
  by (simp_all add: set_proc_def)

lemma out_ok_coord [simp]: "out_ok J m red (s\<lparr>coord := c\<rparr>) = out_ok J m red s"
  by (simp add: out_ok_def fun_eq_iff)

lemma set_proc_le:
  assumes "\<not> (\<exists>r out. snd (procs s ! k) = Writing r out)"
  shows "mr_le J m red s (set_proc k x s)"
  unfolding mr_le_def out_ok_def using writer_set_proc [OF _ assms] by fastforce

lemma coord_le: "(phase (coord s) \<noteq> MapPhase \<Longrightarrow> phase c \<noteq> MapPhase) \<Longrightarrow> mr_le J m red s (s\<lparr>coord := c\<rparr>)"
  by (simp add: mr_le_def)

lemma mr_le_trans: "mr_le J m red s t \<Longrightarrow> mr_le J m red t u \<Longrightarrow> mr_le J m red s u"
  unfolding mr_le_def by blast

lemma call_step_inv:
  assumes inv: "mr_inv J m red s" and k: "k < length (procs s)"
    and nw: "\<not> (\<exists>r out. snd (procs s ! k) = Writing r out)"
    and ci: "coord_inv (inputs J) (nRed J) c" and ph: "phase (coord s) \<noteq> MapPhase \<Longrightarrow> phase c \<noteq> MapPhase"
    and md: "\<And>i. map_done c i \<Longrightarrow> map_done (coord s) i \<or> map_written J m (disk s) i"
    and rd: "\<And>p. red_done c p \<Longrightarrow> red_done (coord s) p \<or> out_ok J m red s p"
    and x: "proc_ok J m red (s\<lparr>coord := c\<rparr>) x"
  shows "mr_inv J m red (set_proc k x (s\<lparr>coord := c\<rparr>))"
proof (rule mr_inv_step [OF inv])
  have nw': "\<not> (\<exists>r out. snd (procs (s\<lparr>coord := c\<rparr>) ! k) = Writing r out)" using nw by simp
  note le1 = coord_le [of s c J m red, OF ph] and le2 = set_proc_le [OF nw', of J m red x]
  show le: "mr_le J m red s (set_proc k x (s\<lparr>coord := c\<rparr>))" by (rule mr_le_trans [OF le1 le2])
  show "coord_inv (inputs J) (nRed J) (coord (set_proc k x (s\<lparr>coord := c\<rparr>)))" using ci by simp
  show "disk_ok J (disk (set_proc k x (s\<lparr>coord := c\<rparr>)))" using inv by (simp add: mr_inv_def)
  show "map_done (coord s) i \<or> map_written J m (disk (set_proc k x (s\<lparr>coord := c\<rparr>))) i"
    if "map_done (coord (set_proc k x (s\<lparr>coord := c\<rparr>))) i" for i using md [of i] that by simp
  show "red_done (coord s) p \<or> out_ok J m red (set_proc k x (s\<lparr>coord := c\<rparr>)) p"
    if "red_done (coord (set_proc k x (s\<lparr>coord := c\<rparr>))) p" for p
  proof -
    have "red_done (coord s) p \<or> out_ok J m red s p" using rd [of p] that by simp
    then show ?thesis using le unfolding mr_le_def by blast
  qed
  show "j < length (procs s) \<and> procs (set_proc k x (s\<lparr>coord := c\<rparr>)) ! j = procs s ! j
      \<or> proc_ok J m red (set_proc k x (s\<lparr>coord := c\<rparr>)) (snd (procs (set_proc k x (s\<lparr>coord := c\<rparr>)) ! j))"
    if "j < length (procs (set_proc k x (s\<lparr>coord := c\<rparr>)))" for j
    using that k proc_ok_mono [OF x le2] by (cases "j = k") (simp_all add: set_proc_def)
qed

section \<open>The coordinator's handlers\<close>

lemma workers_done [simp]: "map_done (c\<lparr>workers := ws\<rparr>) = map_done c" "red_done (c\<lparr>workers := ws\<rparr>) = red_done c"
  by (auto simp: map_done_def red_done_def fun_eq_iff)

lemma workers_inv: "coord_inv inp n c \<Longrightarrow> coord_inv inp n (c\<lparr>workers := ws\<rparr>)"
  by (simp add: coord_inv_def)

text \<open>A request marks no task as done, and what it replies fits the job.\<close>

lemma request_none:
  assumes "TaskRequestByWorker c args zeroRequestReply = (c', r)" and "\<not> rTaskAvailable r" and "0 < nRed J"
  shows "c' = c" and "rPhase r \<noteq> MapPhase" and "rPhase r = ReducePhase \<Longrightarrow> phase c = ReducePhase \<and> red_reply J 0 r"
proof -
  have "c' = c \<and> rPhase r \<noteq> MapPhase
    \<and> (rPhase r = ReducePhase \<longrightarrow> phase c = ReducePhase \<and> r = zeroRequestReply\<lparr>rPhase := ReducePhase\<rparr>)"
    using assms(1,2) by (auto simp: TaskRequestByWorker_def assignMapTask_def assignReduceTask_def Let_def zeroRequestReply_def
        split: option.splits CoordinatorPhase.splits)
  moreover have "red_reply J 0 (zeroRequestReply\<lparr>rPhase := ReducePhase\<rparr>)"
    using assms(3) by (simp add: red_reply_def zeroRequestReply_def)
  ultimately show "c' = c" "rPhase r \<noteq> MapPhase" "rPhase r = ReducePhase \<Longrightarrow> phase c = ReducePhase \<and> red_reply J 0 r"
    by metis+
qed

lemma request_task:
  assumes req: "TaskRequestByWorker c args zeroRequestReply = (c', r)" "rTaskAvailable r" and inv: "coord_inv (inputs J) (nRed J) c"
  obtains k w where "rPhase r = MapPhase" "phase c = MapPhase" "map_reply J k r"
      "c' = c\<lparr>mapTasks := (mapTasks c)[k := (mapTasks c ! k)\<lparr>status := Pending, worker := w\<rparr>]\<rparr>"
  | k w where "rPhase r = ReducePhase" "phase c = ReducePhase" "red_reply J k r"
      "c' = c\<lparr>reduceTasks := (reduceTasks c)[k := (reduceTasks c ! k)\<lparr>status := Pending, worker := w\<rparr>]\<rparr>"
  using req
proof (rule TaskRequestByWorker_available)
  fix k w
  assume a: "rType r = served_type (phase c)" "rType r \<in> {MapTask, ReduceTask}" "rPhase r = phase c"
    "k < length (jobs_of (rType r) c)" "rTaskId r = taskId (jobs_of (rType r) c ! k)"
    "rType r = MapTask \<Longrightarrow> rFilePath r = filePath (mapTasks c ! k) \<and> rNReduce r = nReduce (mapTasks c ! k)"
    "rType r = ReduceTask \<Longrightarrow> rPartition r = partition (reduceTasks c ! k)"
    "c' = set_jobs (rType r) ((jobs_of (rType r) c)[k := (jobs_of (rType r) c ! k)\<lparr>status := Pending, worker := w\<rparr>]) c"
  note invD = coord_invD [OF inv]
  show thesis
  proof (cases "rType r = MapTask")
    case True
    have len: "length (inputs J) = length (mapTasks c)" using invD(2) by (metis length_map)
    have k: "k < length (mapTasks c)" using a(4) True by (simp add: jobs_of_def)
    then have "inputs J ! k = filePath (mapTasks c ! k)" using invD(2) by (metis nth_map)
    with a True len k invD(3) table_ok_nth [OF invD(4) k] have "map_reply J k r"
      by (auto simp: map_reply_def jobs_of_def list_all_length)
    moreover have "phase c = MapPhase" using a(1) True by (auto simp: served_type_def split: CoordinatorPhase.splits)
    ultimately show thesis using that(1) [of k w] a(3,8) True by (simp add: set_jobs_def jobs_of_def)
  next
    case False
    with a(2) have R: "rType r = ReduceTask" by blast
    have ph: "phase c = ReducePhase" using a(1) R by (auto simp: served_type_def split: CoordinatorPhase.splits)
    then have len: "length (reduceTasks c) = nat (nRed J)" using invD(7) by (simp add: phase_ok_def)
    have k: "k < length (reduceTasks c)" using a(4) R by (simp add: jobs_of_def)
    then have "partition (reduceTasks c ! k) = int k" using invD(6) by (metis add.left_neutral length_map nth_map nth_upt)
    with len k a R table_ok_nth [OF invD(5) k] have "red_reply J k r" by (auto simp: red_reply_def jobs_of_def)
    with ph show thesis using that(2) [of k w] a(3,8) R by (simp add: set_jobs_def jobs_of_def)
  qed
qed

lemma pending_done:
  "map_done (c\<lparr>mapTasks := (mapTasks c)[k := (mapTasks c ! k)\<lparr>status := Pending, worker := w\<rparr>]\<rparr>) i \<Longrightarrow> map_done c i"
  "red_done (c\<lparr>reduceTasks := (reduceTasks c)[k := (reduceTasks c ! k)\<lparr>status := Pending, worker := w\<rparr>]\<rparr>) p \<Longrightarrow> red_done c p"
  "red_done (c\<lparr>mapTasks := js\<rparr>) p = red_done c p" "map_done (c\<lparr>reduceTasks := js\<rparr>) i = map_done c i"
  by (cases "i = k", auto simp: map_done_def) (cases "p = k", auto simp: red_done_def)

lemma request_effect:
  assumes "TaskRequestByWorker c args zeroRequestReply = (c', r)" and "coord_inv (inputs J) (nRed J) c" and "0 < nRed J"
  shows "phase c' = phase c \<and> (map_done c' i \<longrightarrow> map_done c i) \<and> (red_done c' p \<longrightarrow> red_done c p)
    \<and> (rPhase r = MapPhase \<longrightarrow> (\<exists>i. map_reply J i r))
    \<and> (rPhase r = ReducePhase \<longrightarrow> phase c = ReducePhase \<and> (\<exists>p. red_reply J p r))"
proof (cases "rTaskAvailable r")
  case False
  then show ?thesis using request_none [OF assms(1) False assms(3)] by blast
next
  case True
  show ?thesis
  proof (cases rule: request_task [OF assms(1) True assms(2)])
    case (1 k w)
    have "map_done c' i \<longrightarrow> map_done c i" "red_done c' p = red_done c p" "phase c' = phase c"
      unfolding 1(4) using pending_done(1) pending_done(3) by (blast, blast, simp)
    with 1(1-3) show ?thesis by auto
  next
    case (2 k w)
    have "map_done c' i = map_done c i" "red_done c' p \<longrightarrow> red_done c p" "phase c' = phase c"
      unfolding 2(4) using pending_done(2) pending_done(4) by (blast, blast, simp)
    with 2(1-3) show ?thesis by auto
  qed
qed

text \<open>A task is done after a report only if it was before or if the report is about it.\<close>

lemma update_effect:
  assumes inv: "coord_inv (inputs J) (nRed J) c" and c': "c' = fst (TaskUpdateByWorker c args reply)"
  shows "phase c \<noteq> MapPhase \<Longrightarrow> phase c' \<noteq> MapPhase"
    and "map_done c' i \<Longrightarrow> map_done c i \<or> updType args = MapTask \<and> updTaskId args = task_name i"
    and "red_done c' p \<Longrightarrow> red_done c p \<or> updType args = ReduceTask \<and> updTaskId args = task_name p"
proof -
  note invD = coord_invD [OF inv]
  have "(phase c \<noteq> MapPhase \<longrightarrow> phase c' \<noteq> MapPhase)
    \<and> (map_done c' i \<longrightarrow> map_done c i \<or> updType args = MapTask \<and> updTaskId args = task_name i)
    \<and> (red_done c' p \<longrightarrow> red_done c p \<or> updType args = ReduceTask \<and> updTaskId args = task_name p)"
  proof (cases rule: TaskUpdateByWorker_cases [of c args reply])
    case refused
    then show ?thesis by (simp add: c')
  next
    case (accepted k)
    from accepted(1) consider (M) "updType args = MapTask" | (R) "updType args = ReduceTask" by blast
    then show ?thesis
    proof cases
      case M
      have k: "k < length (mapTasks c) \<and> updTaskId args = task_name k"
        using accepted(2) M table_ok_find_task [OF invD(4)] by (simp add: jobs_of_def)
      let ?d = "c\<lparr>mapTasks := (mapTasks c)[k := (mapTasks c ! k)\<lparr>status := DONE\<rparr>]\<rparr>"
      have "c' = TaskTransitionManager MapTask ?d" using accepted(6) M by (simp add: c' jobs_of_def set_jobs_def)
      moreover have "red_done (TaskTransitionManager MapTask ?d) p \<Longrightarrow> red_done c p"
        by (auto simp: TaskTransitionManager_def red_done_def nth_append newReduceTask_def split: if_splits)
      moreover have "map_done (TaskTransitionManager MapTask ?d) i \<Longrightarrow> map_done c i \<or> i = k"
        by (auto simp: TaskTransitionManager_def map_done_def nth_list_update split: if_splits)
      moreover have "phase c \<noteq> MapPhase \<Longrightarrow> phase (TaskTransitionManager MapTask ?d) \<noteq> MapPhase"
        by (auto simp: TaskTransitionManager_def)
      ultimately show ?thesis using M k by auto
    next
      case R
      have k: "k < length (reduceTasks c) \<and> updTaskId args = task_name k"
        using accepted(2) R table_ok_find_task [OF invD(5)] by (simp add: jobs_of_def)
      let ?d = "c\<lparr>reduceTasks := (reduceTasks c)[k := (reduceTasks c ! k)\<lparr>status := DONE\<rparr>]\<rparr>"
      have "c' = TaskTransitionManager ReduceTask ?d" using accepted(6) R by (simp add: c' jobs_of_def set_jobs_def)
      moreover have "map_done (TaskTransitionManager ReduceTask ?d) i = map_done c i"
        by (auto simp: TaskTransitionManager_def map_done_def)
      moreover have "red_done (TaskTransitionManager ReduceTask ?d) p \<Longrightarrow> red_done c p \<or> p = k"
        by (auto simp: TaskTransitionManager_def red_done_def nth_list_update split: if_splits)
      moreover have "phase c \<noteq> MapPhase \<Longrightarrow> phase (TaskTransitionManager ReduceTask ?d) \<noteq> MapPhase"
        by (auto simp: TaskTransitionManager_def)
      ultimately show ?thesis using R k by auto
    qed
  qed
  then show "phase c \<noteq> MapPhase \<Longrightarrow> phase c' \<noteq> MapPhase"
    "map_done c' i \<Longrightarrow> map_done c i \<or> updType args = MapTask \<and> updTaskId args = task_name i"
    "red_done c' p \<Longrightarrow> red_done c p \<or> updType args = ReduceTask \<and> updTaskId args = task_name p" by blast+
qed

end
