(* ===== verification/MrInvariant.thy ===== *)
theory MrInvariant
  imports MrSystem
begin

text \<open>
  Every step of the MapReduce system keeps its invariant. From it: once the coordinator has
  finished, every output file that no worker is writing holds the lines of its partition.
\<close>

section \<open>Calls\<close>

lemma proc_atD: "proc_at s k = Some (w, x) \<Longrightarrow> k < length (procs s) \<and> procs s ! k = (w, x)"
  by (auto simp: proc_at_def split: if_splits)

lemma mr_invD:
  assumes "mr_inv J m red s"
  shows "coord_inv (inputs J) (nRed J) (coord s)" "disk_ok J (disk s)"
    "\<And>i. map_done (coord s) i \<Longrightarrow> map_written J m (disk s) i"
    "\<And>p. red_done (coord s) p \<Longrightarrow> out_ok J m red s p"
    "\<And>k w x. proc_at s k = Some (w, x) \<Longrightarrow> proc_ok J m red s x"
  using assms by (auto simp: mr_inv_def dest!: proc_atD)

lemma same_coord: "s\<lparr>coord := coord s\<rparr> = s"
  by simp

lemma if_coord: "(if b then s\<lparr>coord := c\<rparr> else s) = s\<lparr>coord := if b then c else coord s\<rparr>"
  by simp

lemma quiet_step_inv:
  assumes "mr_inv J m red s" and "proc_at s k = Some (w, y)" and "\<not> (\<exists>r out. y = Writing r out)" and "\<And>s. proc_ok J m red s x"
  shows "mr_inv J m red (set_proc k x s)"
proof -
  have k: "k < length (procs s)" "\<not> (\<exists>r out. snd (procs s ! k) = Writing r out)" using assms(2,3) proc_atD by auto
  have "mr_inv J m red (set_proc k x (s\<lparr>coord := coord s\<rparr>))"
    by (rule call_step_inv [OF assms(1) k mr_invD(1) [OF assms(1)]]) (use assms(4) in simp_all)
  then show ?thesis by (simp only: same_coord)
qed

lemma registration_ok: "proc_ok J m red s (WorkerRegistrationRequest d b)"
  by (simp add: WorkerRegistrationRequest_def call_def proc_ok_def split: delivery.split)

lemma update_reply_ok: "proc_ok J m red s (DoWorkerTaskUpdate d u)"
  by (simp add: DoWorkerTaskUpdate_def call_def proc_ok_def split: delivery.split)

lemma start_inv:
  assumes inv: "mr_inv J m red s"
  shows "mr_inv J m red (s\<lparr>procs := procs s @ [(w, Registering)]\<rparr>)" (is "mr_inv J m red ?s")
proof (rule mr_inv_step [OF inv])
  have w: "writer s p k \<Longrightarrow> writer ?s p k" for p k by (auto simp: writer_def nth_append)
  have "out_ok J m red s p \<Longrightarrow> out_ok J m red ?s p" for p unfolding out_ok_def using w by auto
  then show "mr_le J m red s ?s" by (simp add: mr_le_def)
  show "k < length (procs s) \<and> procs ?s ! k = procs s ! k \<or> proc_ok J m red ?s (snd (procs ?s ! k))" if "k < length (procs ?s)" for k
    using that by (cases "k < length (procs s)") (auto simp: nth_append proc_ok_def)
qed (use mr_invD(1,2) [OF inv] in simp_all)

lemma reg_write_inv:
  assumes inv: "mr_inv J m red s" and k: "proc_at s k = Some (w, Appending ws)"
  shows "mr_inv J m red (set_proc k (WorkerRegistrationRequest d b) (s\<lparr>coord := register_write shared (coord s) ws args now\<rparr>))"
proof (rule call_step_inv [OF inv])
  show "coord_inv (inputs J) (nRed J) (register_write shared (coord s) ws args now)"
    using mr_invD(1) [OF inv] by (simp add: register_write_def workers_inv)
qed (use proc_atD [OF k] in \<open>simp_all add: register_write_def registration_ok\<close>)

lemma fetch_inv:
  assumes ok: "mr_ok J m red" and inv: "mr_inv J m red s" and k: "proc_at s k = Some (w, Fetching)"
    and req: "TaskRequestByWorker (coord s) (request_args w) zeroRequestReply = (c', r)"
  shows "mr_inv J m red (set_proc k (WorkerFetchTasks d r) (s\<lparr>coord := if handled d then c' else coord s\<rparr>))"
proof -
  note eff = request_effect [OF req mr_invD(1) [OF inv] mr_okD(4) [OF ok]]
  have c': "coord_inv (inputs J) (nRed J) c'" using TaskRequestByWorker_inv [OF mr_invD(1) [OF inv], of "request_args w" zeroRequestReply] req by simp
  let ?c = "if handled d then c' else coord s"
  have x: "proc_ok J m red (s\<lparr>coord := ?c\<rparr>) (WorkerFetchTasks d r)"
  proof (cases d)
    case Delivered
    then show ?thesis using eff by (auto simp: WorkerFetchTasks_def call_def handled_def proc_ok_def)
  qed (simp_all add: WorkerFetchTasks_def call_def proc_ok_def)
  show ?thesis
    by (rule call_step_inv [OF inv _ _ _ _ _ _ x])
       (use proc_atD [OF k] c' mr_invD(1) [OF inv] eff in \<open>auto split: if_splits\<close>)
qed

lemma report_inv:
  assumes ok: "mr_ok J m red" and inv: "mr_inv J m red s" and k: "proc_at s k = Some (w, Reporting r)"
    and c': "c' = fst (TaskUpdateByWorker (coord s) (update_args w r) zeroUpdateReply)"
  shows "mr_inv J m red (set_proc k (DoWorkerTaskUpdate d u) (s\<lparr>coord := if handled d then c' else coord s\<rparr>))"
proof -
  note eff = update_effect [OF mr_invD(1) [OF inv] c'] and p = mr_invD(5) [OF inv k]
  have ci: "coord_inv (inputs J) (nRed J) c'" unfolding c' by (rule TaskUpdateByWorker_inv [OF mr_invD(1) [OF inv]])
  have M: "map_done (coord s) i \<or> map_written J m (disk s) i" if "map_done c' i" for i
    using eff(2) [OF that] p by (auto simp: update_args_def proc_ok_def map_reply_def red_reply_def)
  have R: "red_done (coord s) q \<or> out_ok J m red s q" if "red_done c' q" for q
    using eff(3) [OF that] p by (auto simp: update_args_def proc_ok_def map_reply_def red_reply_def)
  show ?thesis
    by (rule call_step_inv [OF inv])
       (use proc_atD [OF k] ci mr_invD(1) [OF inv] eff(1) M R update_reply_ok in \<open>simp_all split: if_splits\<close>)
qed

lemma health_inv:
  assumes inv: "mr_inv J m red s" and "WorkerSync dial ping (coord s) wid port idx now = Some c"
  shows "mr_inv J m red (s\<lparr>coord := c\<rparr>)"
proof -
  obtain ws where c: "c = (coord s)\<lparr>workers := ws\<rparr>" using WorkerSync_tables [OF assms(2)] by blast
  have "coord_inv (inputs J) (nRed J) c" by (rule WorkerSync_inv [OF mr_invD(1) [OF inv] assms(2)])
  then show ?thesis
    by (intro mr_inv_step [OF inv coord_le]) (use mr_invD(2) [OF inv] in \<open>auto simp: c\<close>)
qed

section \<open>Map tasks\<close>

lemma iname_not_output [simp]: "iname i p \<noteq> output_name (int q)" "output_name (int q) \<noteq> iname i p"
proof -
  have "parent (iname i p) \<noteq> parent (output_name (int q))"
    unfolding intermediate_parent output_parent by (simp add: intermediate_dir_def)
  then show "iname i p \<noteq> output_name (int q)" "output_name (int q) \<noteq> iname i p" by metis+
qed

lemma disk_step_inv:
  assumes inv: "mr_inv J m red s" and k: "k < length (procs s)" and "disk_ok J fs'"
    and le: "mr_le J m red s (set_proc k x (s\<lparr>disk := fs'\<rparr>))" and "proc_ok J m red (set_proc k x (s\<lparr>disk := fs'\<rparr>)) x"
  shows "mr_inv J m red (set_proc k x (s\<lparr>disk := fs'\<rparr>))"
proof (rule mr_inv_step [OF inv le])
  show "j < length (procs s) \<and> procs (set_proc k x (s\<lparr>disk := fs'\<rparr>)) ! j = procs s ! j
      \<or> proc_ok J m red (set_proc k x (s\<lparr>disk := fs'\<rparr>)) (snd (procs (set_proc k x (s\<lparr>disk := fs'\<rparr>)) ! j))"
    if "j < length (procs (set_proc k x (s\<lparr>disk := fs'\<rparr>)))" for j
    using that k assms(5) by (cases "j = k") (simp_all add: set_proc_def)
qed (use assms(3) mr_invD(1) [OF inv] in simp_all)

lemma pairs_of_input:
  assumes "mr_ok J m red" and "disk_ok J fs" and "i < length (inputs J)"
  obtains content where "ReadFile fs (inputs J ! i) = Some content" and "pairs_of J m i = m (inputs J ! i) content"
    and "list_all utf8_kv (pairs_of J m i)"
proof -
  have f: "inputs J ! i \<in> set (inputs J)" using assms(3) by simp
  obtain content where c: "ReadFile (disk0 J) (inputs J ! i) = Some content" "list_all utf8_kv (m (inputs J ! i) content)"
    using mr_okD(10) [OF assms(1) f] by blast
  with assms(2) f that [of content] show thesis by (simp add: disk_ok_def pairs_of_def)
qed

lemma map_writes_keep:
  assumes ok: "mr_ok J m red" and d: "disk_ok J fs" and i: "i < length (inputs J)" and "dirs fs' = dirs fs"
    and mine: "map_written J m fs' i" and rest: "\<And>q. (\<forall>p. q \<noteq> iname i p) \<Longrightarrow> ReadFile fs' q = ReadFile fs q"
  shows "disk_ok J fs'" and "map_written J m fs j \<Longrightarrow> map_written J m fs' j"
    and "ReadFile fs' (output_name (int p)) = ReadFile fs (output_name (int p))"
proof -
  show "ReadFile fs' (output_name (int p)) = ReadFile fs (output_name (int p))" by (rule rest) simp
  show "map_written J m fs' j" if "map_written J m fs j"
    using that mine rest by (cases "j = i") (auto simp: map_written_def)
  have "ReadFile fs' f = ReadFile fs f" if "f \<in> set (inputs J)" for f
    by (rule rest) (use mr_okD(8) [OF ok that] in auto)
  moreover have "clean (length (inputs J)) fs'"
    unfolding clean_def
  proof (intro allI impI)
    fix q assume q: "ReadFile fs' q \<noteq> None" "parent q = intermediate_dir"
    show "\<exists>i p. i < length (inputs J) \<and> q = iname i p"
    proof (cases "\<exists>p. q = iname i p")
      case True
      with i show ?thesis by blast
    next
      case False
      then have "ReadFile fs q \<noteq> None" using q(1) rest [of q] by auto
      with q(2) d show ?thesis unfolding disk_ok_def clean_def by blast
    qed
  qed
  ultimately show "disk_ok J fs'" using d assms(4) by (simp add: disk_ok_def)
qed

lemma map_inv:
  assumes ok: "mr_ok J m red" and inv: "mr_inv J m red s" and k: "proc_at s k = Some (w, Mapping r)"
  shows "\<exists>fs'. MapperTask (plug J) (plugArg J) r (disk s) = (fs', None) \<and> mr_inv J m red (set_proc k (Reporting r) (s\<lparr>disk := fs'\<rparr>))"
proof -
  obtain i where i: "map_reply J i r" using mr_invD(5) [OF inv k] by (auto simp: proc_ok_def)
  then have len: "i < length (inputs J)" and r: "rFilePath r = inputs J ! i" "rNReduce r = nRed J" "rTaskId r = task_name i"
    by (simp_all add: map_reply_def)
  note d = mr_invD(2) [OF inv]
  obtain content where c: "ReadFile (disk s) (inputs J ! i) = Some content" "pairs_of J m i = m (inputs J ! i) content"
    by (rule pairs_of_input [OF ok d len])
  have dirs: "intermediate_dir \<in> set (dirs (disk s))" using d mr_okD(5) [OF ok] by (simp add: disk_ok_def)
  obtain fs' where fs': "MapperTask (plug J) (plugArg J) r (disk s) = (fs', None)" "dirs fs' = dirs (disk s)"
    "\<And>p. p < nat (nRed J) \<Longrightarrow> ReadFile fs' (iname i p) = Some (concat (map Encode (share J m i p)))"
    "\<And>q. (\<forall>p. p < nat (nRed J) \<longrightarrow> q \<noteq> iname i p) \<Longrightarrow> ReadFile fs' q = ReadFile (disk s) q"
    using MapperTask_ok [OF mr_okD(1) [OF ok], of "disk s" r content i] c r mr_okD(4) [OF ok] dirs
    by (auto simp: share_def)
  have mine: "map_written J m fs' i" using fs'(3) by (simp add: map_written_def)
  have rest: "ReadFile fs' q = ReadFile (disk s) q" if "\<forall>p. q \<noteq> iname i p" for q by (rule fs'(4)) (use that in blast)
  note keep = map_writes_keep [OF ok d len fs'(2) mine rest]
  have nw: "\<not> (\<exists>r out. snd (procs (s\<lparr>disk := fs'\<rparr>) ! k) = Writing r out)" using proc_atD [OF k] by simp
  have "mr_le J m red s (s\<lparr>disk := fs'\<rparr>)"
    using keep(2,3) by (simp add: mr_le_def half_written_def out_ok_def)
  then have le: "mr_le J m red s (set_proc k (Reporting r) (s\<lparr>disk := fs'\<rparr>))" by (rule mr_le_trans [OF _ set_proc_le [OF nw]])
  have "mr_inv J m red (set_proc k (Reporting r) (s\<lparr>disk := fs'\<rparr>))"
    by (rule disk_step_inv [OF inv _ keep(1) le]) (use proc_atD [OF k] i mine in \<open>auto simp: proc_ok_def\<close>)
  with fs'(1) show ?thesis by blast
qed

section \<open>Reduce tasks\<close>

lemma maps_written:
  assumes inv: "mr_inv J m red s" and "phase (coord s) \<noteq> MapPhase" and "i < length (inputs J)"
  shows "map_written J m (disk s) i"
proof -
  note invD = coord_invD [OF mr_invD(1) [OF inv]]
  have "all_done (mapTasks (coord s))" using invD(7) assms(2) by (auto simp: phase_ok_def split: CoordinatorPhase.splits)
  moreover have "length (mapTasks (coord s)) = length (inputs J)" using invD(2) by (metis length_map)
  ultimately have "map_done (coord s) i" using assms(3) by (simp add: map_done_def all_done_nth)
  then show ?thesis by (rule mr_invD(3) [OF inv])
qed

text \<open>What a reduce task that is started after the map phase is going to write.\<close>

lemma reducer_open_ok:
  assumes ok: "mr_ok J m red" and inv: "mr_inv J m red s" and ph: "phase (coord s) \<noteq> MapPhase" and r: "red_reply J p r"
  shows "reducer_open (plug J) (plugArg J) (sorting J) r (disk s)
    = (write_file (output_name (int p)) [] (disk s), Inr (out_lines J m red p))"
proof -
  note d = mr_invD(2) [OF inv] and red = mr_okD(3) [OF ok]
  have p: "p < nat (nRed J)" "rPartition r = int p" using r by (simp_all add: red_reply_def)
  have "ReadFile (disk s) (iname i p) = Some (concat (map Encode (share J m i p)))" if "i < length (inputs J)" for i
    using maps_written [OF inv ph that] p(1) by (simp add: map_written_def)
  moreover have "list_all utf8_kv (share J m i p)" if "i < length (inputs J)" for i
    by (rule pairs_of_input [OF ok d that]) (auto simp: share_def bucket_of_def list_all_iff)
  ultimately obtain kvs where kvs:
    "read_intermediate (disk s) (Glob (disk s) intermediate_dir (''mr-task-*-'' @ sprint_int (int p))) = Inr kvs"
    "mset kvs = mset (concat (map (\<lambda>i. share J m i p) [0..<length (inputs J)]))"
    using reducer_reads [of "length (inputs J)" "disk s" p "\<lambda>i. share J m i p"] d unfolding disk_ok_def by blast
  have "reduce_loop red (sorting J Less kvs) 0 [] = reduce_lines red kvs"
    using reduce_sorted_lines [OF mr_okD(2) [OF ok] red] by (simp add: reduce_loop_groups)
  also have "\<dots> = out_lines J m red p" unfolding out_lines_def by (rule reduce_lines_mset [OF red kvs(2)])
  finally have l: "reduce_loop red (sorting J Less kvs) 0 [] = out_lines J m red p" .
  have "Create (disk s) (output_name (int p)) = Inr (write_file (output_name (int p)) [] (disk s))"
    by (rule Create_ok) (use d mr_okD(6) [OF ok] in \<open>simp add: disk_ok_def\<close>)
  then show ?thesis using kvs(1) l mr_okD(1) [OF ok] p(2) by (simp add: reducer_open_def)
qed

lemma output_write_keeps:
  assumes ok: "mr_ok J m red" and d: "disk_ok J fs"
  shows "disk_ok J (write_file (output_name (int p)) c fs)"
    and "map_written J m (write_file (output_name (int p)) c fs) i = map_written J m fs i"
    and "q \<noteq> p \<Longrightarrow> half_written J m red (write_file (output_name (int p)) c fs) q = half_written J m red fs q"
proof -
  have out: "parent (output_name (int p)) \<noteq> intermediate_dir" unfolding output_parent by (simp add: intermediate_dir_def)
  have "f \<noteq> output_name (int p)" if "f \<in> set (inputs J)" for f using mr_okD(9) [OF ok that] by auto
  moreover have "clean (length (inputs J)) (write_file (output_name (int p)) c fs)"
    using d out unfolding disk_ok_def clean_def by auto
  ultimately show "disk_ok J (write_file (output_name (int p)) c fs)" using d by (simp add: disk_ok_def)
qed (simp_all add: map_written_def half_written_def)

lemma open_inv:
  assumes ok: "mr_ok J m red" and inv: "mr_inv J m red s" and k: "proc_at s k = Some (w, Reducing r)"
  shows "\<exists>fs' out. reducer_open (plug J) (plugArg J) (sorting J) r (disk s) = (fs', Inr out)
    \<and> mr_inv J m red (set_proc k (Writing r out) (s\<lparr>disk := fs'\<rparr>))"
proof -
  obtain p where ph: "phase (coord s) \<noteq> MapPhase" and r: "red_reply J p r" using mr_invD(5) [OF inv k] by (auto simp: proc_ok_def)
  let ?fs = "write_file (output_name (int p)) [] (disk s)" and ?out = "out_lines J m red p"
  let ?s = "set_proc k (Writing r ?out) (s\<lparr>disk := ?fs\<rparr>)"
  note keep = output_write_keeps [where p = p and c = "[]", OF ok mr_invD(2) [OF inv]] and kl = proc_atD [OF k]
  have half: "half_written J m red ?fs p" by (simp add: half_written_def)
  have nw: "\<not> (\<exists>r out. snd (procs (s\<lparr>disk := ?fs\<rparr>) ! k) = Writing r out)" using kl by simp
  have me: "writer ?s p k" using kl r by (simp add: writer_def set_proc_def red_reply_def)
  have "out_ok J m red ?s q" if "out_ok J m red s q" for q
  proof (cases "q = p")
    case True
    with me half show ?thesis unfolding out_ok_def by auto
  next
    case False
    have "writer s q j \<Longrightarrow> writer ?s q j" for j using writer_set_proc [OF _ nw] by simp
    with that False keep(3) [OF False] show ?thesis unfolding out_ok_def by auto
  qed
  moreover have "half_written J m red ?fs q" if "half_written J m red (disk s) q" for q
    using that half keep(3) [of q] by (cases "q = p") simp_all
  ultimately have "mr_le J m red s ?s" using keep(2) by (simp add: mr_le_def)
  then have "mr_inv J m red ?s"
    by (intro disk_step_inv [OF inv _ keep(1)]) (use kl ph r half in \<open>auto simp: proc_ok_def\<close>)
  with reducer_open_ok [OF ok inv ph r] show ?thesis by blast
qed

lemma write_inv:
  assumes ok: "mr_ok J m red" and inv: "mr_inv J m red s" and k: "proc_at s k = Some (w, Writing r out)"
  shows "mr_inv J m red (set_proc k (Reporting r) (s\<lparr>disk := reducer_write r out (disk s)\<rparr>))"
proof -
  obtain p where r: "red_reply J p r" and out: "out = out_lines J m red p" and half: "half_written J m red (disk s) p"
    using mr_invD(5) [OF inv k] by (auto simp: proc_ok_def)
  let ?fs = "write_file (output_name (int p)) (concat (out_lines J m red p)) (disk s)" and ?s = "set_proc k (Reporting r) (s\<lparr>disk := reducer_write r out (disk s)\<rparr>)"
  note keep = output_write_keeps [where p = p and c = "concat (out_lines J m red p)", OF ok mr_invD(2) [OF inv]] and kl = proc_atD [OF k]
  have p: "rPartition r = int p" using r by (simp add: red_reply_def)
  have fs: "reducer_write r out (disk s) = ?fs"
    using half by (auto simp: reducer_write_def write_at_start_def half_written_def out p)
  have fin: "ReadFile (disk ?s) (output_name (int p)) = Some (concat (out_lines J m red p))" by (simp add: fs)
  have "out_ok J m red ?s q" if "out_ok J m red s q" for q
  proof (cases "q = p")
    case True
    with fin show ?thesis unfolding out_ok_def by simp
  next
    case False
    have "writer ?s q j" if "writer s q j" for j
      using that False kl p by (cases "j = k") (auto simp: writer_def set_proc_def)
    with that False keep(3) [OF False] show ?thesis unfolding out_ok_def by (auto simp: fs)
  qed
  moreover have "half_written J m red ?fs q" if "half_written J m red (disk s) q" for q
    using that keep(3) [of q] by (cases "q = p") (simp_all add: half_written_def)
  ultimately have "mr_le J m red s ?s" using keep(2) by (simp add: mr_le_def fs)
  then show ?thesis
    by (intro disk_step_inv [OF inv]) (use kl r fin keep(1) fs in \<open>auto simp: proc_ok_def out_ok_def\<close>)
qed

section \<open>Every reachable state\<close>

lemma initial_inv:
  assumes ok: "mr_ok J m red"
  shows "mr_inv J m red (mr_initial J)"
proof -
  have "\<not> map_done (MakeCoordinator (inputs J) (nRed J)) i" for i
    by (auto simp: map_done_def MakeCoordinator_def newMapTask_def split: prod.splits)
  moreover have "\<not> red_done (MakeCoordinator (inputs J) (nRed J)) p" for p by (simp add: red_done_def MakeCoordinator_def)
  moreover have "clean (length (inputs J)) (disk0 J)" using mr_okD(7) [OF ok] by (auto simp: clean_def)
  ultimately show ?thesis by (simp add: mr_inv_def mr_initial_def MakeCoordinator_inv disk_ok_def)
qed

lemma exec_inv:
  assumes ok: "mr_ok J m red" and inv: "mr_inv J m red s" and "mr_exec J s e = Some s'"
  shows "mr_inv J m red s'"
proof (cases e)
  case (Start w)
  then show ?thesis using assms(3) start_inv [OF inv] by auto
next
  case (RegRead k)
  then show ?thesis using assms(3) quiet_step_inv [OF inv]
    by (auto simp: proc_ok_def split: option.splits proc.splits)
next
  case (RegWrite k now sh b)
  then show ?thesis using assms(3) reg_write_inv [OF inv] by (auto split: option.splits proc.splits)
next
  case (RegFail k b)
  then show ?thesis using assms(3) quiet_step_inv [OF inv _ _ registration_ok]
    by (auto split: option.splits proc.splits)
next
  case (Fetch k d)
  then show ?thesis using assms(3) fetch_inv [OF ok inv]
    by (auto simp only: mr_exec.simps if_coord option.inject split: option.splits proc.splits prod.splits)
next
  case (RunMap k)
  then show ?thesis using assms(3) map_inv [OF ok inv, of k] by (fastforce split: option.splits proc.splits prod.splits)
next
  case (OpenReduce k)
  then show ?thesis using assms(3) open_inv [OF ok inv, of k] by (fastforce split: option.splits proc.splits prod.splits sum.splits)
next
  case (WriteReduce k)
  then show ?thesis using assms(3) write_inv [OF ok inv] by (auto split: option.splits proc.splits)
next
  case (Report k d)
  then obtain w r where k: "proc_at s k = Some (w, Reporting r)" using assms(3) by (auto split: option.splits proc.splits)
  obtain c' u where u: "TaskUpdateByWorker (coord s) (update_args w r) zeroUpdateReply = (c', u)" by (meson surj_pair)
  have "s' = set_proc k (DoWorkerTaskUpdate d u) (s\<lparr>coord := if handled d then c' else coord s\<rparr>)"
    using assms(3) Report k u by (simp add: if_coord)
  with report_inv [OF ok inv k, of c' d u] u show ?thesis by simp
next
  case (Health dial ping wid port idx now)
  then show ?thesis using assms(3) health_inv [OF inv] by auto
qed

inductive_cases mr_stepE: "mr_step J s s'"

interpretation mr: invariant_system "\<lambda>s. mr_ok J m red \<and> mr_start J s" "mr_step J" "\<lambda>s. mr_ok J m red \<and> mr_inv J m red s" for J m red
  by unfold_locales (auto simp: mr_start_def initial_inv elim!: mr_stepE dest: exec_inv)

lemma mr_reach_inv:
  assumes "mr_ok J m red" and "reach (mr_start J) (mr_step J) s"
  shows "mr_inv J m red s"
proof -
  have "reach (\<lambda>s. mr_ok J m red \<and> mr_start J s) (mr_step J) s"
    using assms(2) by (induction rule: reach.induct) (auto intro: reach_start reach_move assms(1))
  from mr.reach_inv [OF this] show ?thesis by blast
qed

lemma finished_output:
  assumes "mr_inv J m red s" and "phase (coord s) = FinishedPhase" and "\<And>k. \<not> writer s p k" and "p < nat (nRed J)"
  shows "ReadFile (disk s) (output_name (int p)) = Some (concat (out_lines J m red p))"
proof -
  have "red_done (coord s) p"
    using coord_invD(7) [OF mr_invD(1) [OF assms(1)]] assms(2,4) by (simp add: phase_ok_def red_done_def all_done_nth)
  with mr_invD(4) [OF assms(1)] assms(3) show ?thesis by (auto simp: out_ok_def)
qed

end
