(* ===== verification/MrApps.thy ===== *)
theory MrApps
  imports Grouping
begin

text \<open>
  The MapReduce applications of \<open>mrapps/\<close>. Randomness, the process id, the clock and the order in
  which Go iterates over a map are arguments. A function that can end the process returns an
  option, and one that sleeps also returns how long, in milliseconds.
\<close>

abbreviation pair :: "string \<Rightarrow> string \<Rightarrow> KeyValue" where
  "pair k v \<equiv> \<lparr>Key = k, Value = v\<rparr>"

section \<open>wc\<close>

definition words :: "(nat \<Rightarrow> bool) \<Rightarrow> string \<Rightarrow> string list" where
  "words tables contents = FieldsFunc contents (\<lambda>r. \<not> IsLetter tables r)"

definition wc_Map :: "(nat \<Rightarrow> bool) \<Rightarrow> mapf" where
  "wc_Map tables filename contents = map (\<lambda>w. pair w ''1'') (words tables contents)"

definition wc_Reduce :: reducef where
  "wc_Reduce key vals = itoa (length vals)"

section \<open>indexer\<close>

text \<open>\<open>order\<close> is the order in which the loop over the map \<open>m\<close> meets its keys.\<close>

definition indexer_Map :: "(nat \<Rightarrow> bool) \<Rightarrow> (string list \<Rightarrow> string list) \<Rightarrow> mapf" where
  "indexer_Map tables order document val = map (\<lambda>w. pair w document) (order (remdups (words tables val)))"

definition indexer_Reduce :: reducef where
  "indexer_Reduce key vals = itoa (length vals) @ '' '' @ Join (sort vals) '',''"

section \<open>crash and nocrash\<close>

text \<open>\<open>maybeCrash\<close>: \<open>None\<close> is \<open>os.Exit(1)\<close>; \<open>rr\<close> and \<open>ms\<close> are the random numbers.\<close>

definition crash_maybeCrash :: "nat \<Rightarrow> nat \<Rightarrow> nat option" where
  "crash_maybeCrash rr ms = (if rr < 330 then None else if rr < 660 then Some ms else Some 0)"

definition nocrash_maybeCrash :: "nat \<Rightarrow> nat option" where
  "nocrash_maybeCrash rr = (if False \<and> rr < 500 then None else Some 0)"

definition crash_pairs :: mapf where
  "crash_pairs filename contents = [pair ''a'' filename, pair ''b'' (itoa (length filename)),
     pair ''c'' (itoa (length contents)), pair ''d'' ''xyzzy'']"

definition crash_Map :: "nat \<Rightarrow> nat \<Rightarrow> string \<Rightarrow> string \<Rightarrow> KeyValue list option" where
  "crash_Map rr ms filename contents = map_option (\<lambda>_. crash_pairs filename contents) (crash_maybeCrash rr ms)"

definition nocrash_Map :: "nat \<Rightarrow> string \<Rightarrow> string \<Rightarrow> KeyValue list option" where
  "nocrash_Map rr filename contents = map_option (\<lambda>_. crash_pairs filename contents) (nocrash_maybeCrash rr)"

definition join_sorted :: reducef where
  "join_sorted key vals = Join (sort vals) '' ''"

definition crash_Reduce :: "nat \<Rightarrow> nat \<Rightarrow> string \<Rightarrow> string list \<Rightarrow> string option" where
  "crash_Reduce rr ms key vals = map_option (\<lambda>_. join_sorted key vals) (crash_maybeCrash rr ms)"

definition nocrash_Reduce :: "nat \<Rightarrow> string \<Rightarrow> string list \<Rightarrow> string option" where
  "nocrash_Reduce rr key vals = map_option (\<lambda>_. join_sorted key vals) (nocrash_maybeCrash rr)"

section \<open>early\_exit\<close>

definition early_exit_Map :: mapf where
  "early_exit_Map filename contents = [pair filename ''1'']"

fun Contains :: "string \<Rightarrow> string \<Rightarrow> bool" where
  "Contains [] sub = (sub = [])"
| "Contains (c # cs) sub = (take (length sub) (c # cs) = sub \<or> Contains cs sub)"

definition early_exit_Reduce :: "string \<Rightarrow> string list \<Rightarrow> nat \<times> string" where
  "early_exit_Reduce key vals =
     (if Contains key ''sherlock'' \<or> Contains key ''tom'' then 3000 else 0, itoa (length vals))"

section \<open>jobcount\<close>

text \<open>The state is the counter of the process and the files; \<open>None\<close> is the panic of a failed write.\<close>

definition jobcount_Map ::
  "nat \<Rightarrow> nat \<Rightarrow> nat \<times> FileSystem \<Rightarrow> string \<Rightarrow> string \<Rightarrow> ((nat \<times> FileSystem) \<times> nat \<times> KeyValue list) option" where
  "jobcount_Map pid rnd st filename contents = (let (count, fs) = st;
      f = ''mr-worker-jobcount-'' @ itoa pid @ ''-'' @ itoa count in
     case Create fs f of Inl _ \<Rightarrow> None
     | Inr fs' \<Rightarrow> Some ((count + 1, write_file f ''x'' fs'), 2000 + rnd, [pair ''a'' ''x'']))"

definition HasPrefix :: "string \<Rightarrow> string \<Rightarrow> bool" where
  "HasPrefix s prefix \<longleftrightarrow> take (length prefix) s = prefix"

definition names_here :: "FileSystem \<Rightarrow> string list" where
  "names_here fs = map base (filter (\<lambda>p. parent p = ''.'') (map fst (files fs)))"

definition jobcount_Reduce :: "FileSystem \<Rightarrow> string \<Rightarrow> string list \<Rightarrow> string" where
  "jobcount_Reduce fs key vals = itoa (length (filter (\<lambda>name. HasPrefix name ''mr-worker-jobcount'') (names_here fs)))"

section \<open>mtiming and rtiming\<close>

text \<open>
  \<open>fmt.Sscanf(name, "mr-worker-<phase>-%d", &xpid)\<close>: the literal text, spaces, a sign, and at
  least one digit; what follows the number is not read.
\<close>

definition digit :: "char \<Rightarrow> bool" where
  "digit c \<longleftrightarrow> 48 \<le> (of_char c :: nat) \<and> (of_char c :: nat) < 58"

definition scan_pid :: "string \<Rightarrow> string \<Rightarrow> int option" where
  "scan_pid phase_name name = (let lit = ''mr-worker-'' @ phase_name @ ''-'' in
     if \<not> HasPrefix name lit then None
     else let t = dropWhile (\<lambda>c. c = CHR '' '') (drop (length lit) name);
              neg = (t \<noteq> [] \<and> hd t = CHR ''-'');
              u = (if t \<noteq> [] \<and> (hd t = CHR ''-'' \<or> hd t = CHR ''+'') then tl t else t);
              d = takeWhile digit u;
              v = (if neg then - int (atoi_acc 0 d) else int (atoi_acc 0 d)) in
          if d = [] \<or> v \<ge> 2 ^ 63 \<or> v < - (2 ^ 63) then None else Some v)"

text \<open>
  \<open>nparallel\<close> up to its sleep: the file of this process and the number of processes alive among
  those that have one; then the removal of the file. \<open>None\<close> is a panic.
\<close>

definition nparallel_name :: "string \<Rightarrow> nat \<Rightarrow> string" where
  "nparallel_name phase_name pid = ''mr-worker-'' @ phase_name @ ''-'' @ itoa pid"

definition nparallel :: "(int \<Rightarrow> bool) \<Rightarrow> nat \<Rightarrow> string \<Rightarrow> FileSystem \<Rightarrow> (FileSystem \<times> nat) option" where
  "nparallel alive pid phase_name fs = (case Create fs (nparallel_name phase_name pid) of Inl _ \<Rightarrow> None
     | Inr fs1 \<Rightarrow> (let fs2 = write_file (nparallel_name phase_name pid) ''x'' fs1;
          ret = length (filter (\<lambda>name. case scan_pid phase_name name of None \<Rightarrow> False | Some xpid \<Rightarrow> alive xpid) (names_here fs2)) in
        Some (fs2, ret)))"

definition nparallel_remove :: "nat \<Rightarrow> string \<Rightarrow> FileSystem \<Rightarrow> FileSystem option" where
  "nparallel_remove pid phase_name fs = (if ReadFile fs (nparallel_name phase_name pid) = None then None
     else Some (fs\<lparr>files := AList.delete (nparallel_name phase_name pid) (files fs)\<rparr>))"

definition rtiming_Map :: mapf where
  "rtiming_Map filename contents = map (\<lambda>c. pair [c] ''1'') ''abcdefghij''"

text \<open>The result of Reduce; its file is removed by \<open>nparallel_remove\<close> after the sleep.\<close>

definition rtiming_Reduce :: "(int \<Rightarrow> bool) \<Rightarrow> nat \<Rightarrow> FileSystem \<Rightarrow> (FileSystem \<times> string) option" where
  "rtiming_Reduce alive pid fs = map_option (\<lambda>(fs', n). (fs', itoa n)) (nparallel alive pid ''reduce'' fs)"

text \<open>\<open>mtiming.go\<close> has its own copy of \<open>nparallel\<close>; \<open>ts\<close> is the time as \<open>"%.1f"\<close> prints it.\<close>

definition mtiming_nparallel :: "(int \<Rightarrow> bool) \<Rightarrow> nat \<Rightarrow> string \<Rightarrow> FileSystem \<Rightarrow> (FileSystem \<times> nat) option" where
  "mtiming_nparallel = nparallel"

definition mtiming_Map :: "(int \<Rightarrow> bool) \<Rightarrow> nat \<Rightarrow> string \<Rightarrow> FileSystem \<Rightarrow> (FileSystem \<times> KeyValue list) option" where
  "mtiming_Map alive pid ts fs = map_option
     (\<lambda>(fs', n). (fs', [pair (''times-'' @ itoa pid) ts, pair (''parallel-'' @ itoa pid) (itoa n)]))
     (mtiming_nparallel alive pid ''map'' fs)"

definition mtiming_Reduce :: reducef where
  "mtiming_Reduce = join_sorted"

section \<open>Their reduce functions do not depend on the order of the values\<close>

lemma sort_mset_eq: "mset (xs :: string list) = mset ys \<Longrightarrow> sort xs = sort ys"
  by (metis sorted_list_of_multiset_mset)

lemma order_free_apps: "order_free wc_Reduce" "order_free indexer_Reduce" "order_free join_sorted"
proof -
  have "length vs = length vs' \<and> sort vs = sort vs'" if "mset vs = mset vs'" for vs vs' :: "string list"
    using mset_eq_length [OF that] sort_mset_eq [OF that] by blast
  then show "order_free wc_Reduce" "order_free indexer_Reduce" "order_free join_sorted"
    unfolding order_free_def wc_Reduce_def indexer_Reduce_def join_sorted_def by metis+
qed

section \<open>Words are well formed\<close>

lemma valid_utf8_Nil [simp]: "valid_utf8 []"
  by (simp add: valid_utf8.simps)

lemma good_rune_prefix: "good_rune s \<Longrightarrow> good_rune (take (snd (DecodeRune s)) s @ t)"
  using DecodeRune_prefix [of s t] DecodeRune_size [of s] by (auto simp: good_rune_def case_prod_beta)

lemma valid_utf8_rune:
  assumes "good_rune s" and "valid_utf8 t"
  shows "valid_utf8 (take (snd (DecodeRune s)) s @ t)"
proof -
  let ?n = "snd (DecodeRune s)"
  have "s \<noteq> []" using assms(1) by (auto simp: good_rune_def)
  then have n: "?n \<le> length s" using DecodeRune_size [of s] by (auto simp: case_prod_beta)
  have "drop ?n (take ?n s @ t) = t" using n by simp
  then show ?thesis
    using good_rune_prefix [OF assms(1), of t] assms(2) DecodeRune_prefix [OF assms(1), of t]
    by (subst valid_utf8.simps) simp
qed

lemma valid_utf8_append: "valid_utf8 s \<Longrightarrow> valid_utf8 t \<Longrightarrow> valid_utf8 (s @ t)"
proof (induction s rule: valid_utf8.induct)
  case (1 s)
  show ?case
  proof (cases "s = []")
    case False
    let ?n = "snd (DecodeRune s)"
    have g: "good_rune s" "valid_utf8 (drop ?n s)" using 1(2) False by (simp_all add: valid_utf8.simps [of s])
    with 1(1,3) False have "valid_utf8 (drop ?n s @ t)" by blast
    from valid_utf8_rune [OF g(1) this] show ?thesis by (simp flip: append_assoc)
  qed (use 1 in simp)
qed

lemma fields_loop_valid:
  "f RuneError \<Longrightarrow> valid_utf8 cur \<Longrightarrow> w \<in> set (fields_loop f cur s) \<Longrightarrow> valid_utf8 w"
proof (induction f cur s rule: fields_loop.induct)
  case (1 f cur s)
  show ?case
  proof (cases "s = []")
    case True
    then show ?thesis using 1(4,5) by (auto simp: fields_loop.simps split: if_splits)
  next
    case False
    obtain r n where d: "DecodeRune s = (r, n)" by (cases "DecodeRune s")
    show ?thesis
    proof (cases "f r")
      case True
      then show ?thesis using 1(1) [OF False d [symmetric] refl True 1(3)] 1(4,5) False d
        by (auto simp: fields_loop.simps [of f cur s] split: if_splits)
    next
      case nf: False
      then have "good_rune s" using 1(3) False d by (auto simp: good_rune_def)
      with d valid_utf8_rune [of s "[]"] have "valid_utf8 (take n s)" by simp
      then have "valid_utf8 (cur @ take n s)" by (rule valid_utf8_append [OF 1(4)])
      with 1(2) [OF False d [symmetric] refl nf 1(3)] 1(5) False d nf show ?thesis
        by (simp add: fields_loop.simps [of f cur s])
    qed
  qed
qed

lemma wc_Map_utf8: "\<not> tables RuneError \<Longrightarrow> list_all utf8_kv (wc_Map tables f contents)"
proof -
  assume t: "\<not> tables RuneError"
  have "valid_utf8 w" if "w \<in> set (words tables contents)" for w
    using that t fields_loop_valid [of "\<lambda>r. \<not> IsLetter tables r" "[]" w contents]
    by (simp add: words_def FieldsFunc_def IsLetter_def RuneError_def)
  moreover have "valid_utf8 ''1''" by (simp add: valid_utf8.simps good_rune_def DecodeRune.simps RuneError_def)
  ultimately show ?thesis by (auto simp: wc_Map_def list_all_iff utf8_kv_def)
qed

end
