(* ===== verification/MrProps.thy ===== *)
theory MrProps
  imports MrInvariant MrApps
begin

text \<open>
  The properties of the MapReduce system as a whole: a finished run leaves the lines that the
  sequential program prints, the intermediate files are read back as they were written, and what
  an idle worker does.
\<close>

section \<open>The sequential program\<close>

lemma map_inputs_eq:
  "(\<And>f. f \<in> set fl \<Longrightarrow> ReadFile fs f \<noteq> None)
    \<Longrightarrow> map_inputs m fs fl acc = Inr (acc @ concat (map (\<lambda>f. m f (the (ReadFile fs f))) fl))"
proof (induction fl arbitrary: acc)
  case (Cons f fl)
  then obtain c where "ReadFile fs f = Some c" by fastforce
  with Cons show ?case by simp
qed simp

definition all_lines :: "mr_job \<Rightarrow> mapf \<Rightarrow> reducef \<Rightarrow> string list" where
  "all_lines J m red = reduce_lines red (concat (map (pairs_of J m) [0..<length (inputs J)]))"

lemma pairs_of_inputs: "concat (map (\<lambda>f. m f (the (ReadFile (disk0 J) f))) (inputs J)) = concat (map (pairs_of J m) [0..<length (inputs J)])"
proof -
  have "map (pairs_of J m) [0..<length (inputs J)] = map (\<lambda>f. m f (the (ReadFile (disk0 J) f))) (map ((!) (inputs J)) [0..<length (inputs J)])"
    by (simp add: pairs_of_def)
  then show ?thesis by (simp add: map_nth)
qed

lemma mrsequential_ok:
  assumes ok: "mr_ok J m red" and "inputs J \<noteq> []" and "''.'' \<in> set (dirs (disk0 J))"
  shows "\<exists>fs'. mrsequential (plug J) (sorting J) (prog # plugArg J # inputs J) (disk0 J) = (fs', None)
    \<and> ReadFile fs' ''mr-out-0'' = Some (concat (all_lines J m red))"
proof -
  let ?kvs = "concat (map (pairs_of J m) [0..<length (inputs J)])"
  have "map_inputs m (disk0 J) (inputs J) [] = Inr ?kvs"
    using map_inputs_eq [of "inputs J" "disk0 J" m "[]"] mr_okD(10) [OF ok] by (force simp: pairs_of_inputs)
  moreover have "sequential_loop red (sorting J Less ?kvs) 0 [] = all_lines J m red"
    using reduce_sorted_lines [OF mr_okD(2,3) [OF ok]] by (simp add: sequential_loop_groups all_lines_def)
  moreover have "parent ''mr-out-0'' = ''.''" by (simp add: parent_def slash_def)
  then have "Create (disk0 J) ''mr-out-0'' = Inr (write_file ''mr-out-0'' [] (disk0 J))"
    by (intro Create_ok) (simp add: assms(3))
  moreover have "\<not> length (prog # plugArg J # inputs J) < 3" using assms(2) by (cases "inputs J") auto
  ultimately show ?thesis
    using mr_okD(1) [OF ok] by (simp add: mrsequential_def write_at_start_def)
qed

section \<open>Lines of text\<close>

fun split_lines :: "string \<Rightarrow> string list" where
  "split_lines [] = []"
| "split_lines (c # cs) = (if c = CHR 10 then [] # split_lines cs
     else case split_lines cs of [] \<Rightarrow> [[c]] | l # ls \<Rightarrow> (c # l) # ls)"

lemma split_lines_newline: "split_lines (x @ CHR 10 # y) = split_lines (x @ [CHR 10]) @ split_lines y"
proof (induction x)
  case (Cons c x)
  have "split_lines (x @ [CHR 10]) \<noteq> []" by (cases x) (auto split: list.splits)
  with Cons show ?case by (auto split: list.splits)
qed simp

lemma split_lines_output: "split_lines (output_line k v @ y) = split_lines (output_line k v) @ split_lines y"
  using split_lines_newline [of "k @ '' '' @ v" y] by (simp add: output_line_def)

lemma split_lines_concat:
  assumes "\<And>l. l \<in> set ls \<Longrightarrow> \<exists>k v. l = output_line k v"
  shows "split_lines (concat ls) = concat (map split_lines ls)"
  using assms by (induction ls) (auto, metis split_lines_output)

lemma reduce_lines_output: "l \<in> set (reduce_lines red kvs) \<Longrightarrow> \<exists>k v. l = output_line k v"
  by (auto simp: reduce_lines_def line_of_def)

text \<open>The partitions have between them the lines of the sequential program.\<close>

lemma out_lines_partition:
  assumes "0 < nRed J"
  shows "mset (all_lines J m red) = (\<Sum>p<nat (nRed J). mset (out_lines J m red p))"
proof -
  let ?kvs = "concat (map (pairs_of J m) [0..<length (inputs J)])" and ?h = "\<lambda>k. nat (bucket (nRed J) k)"
  have h: "?h k = p \<longleftrightarrow> bucket (nRed J) k = int p" for k p using bucket_range(1) [OF assms, of k] by auto
  have "filter (\<lambda>kv. ?h (Key kv) = p) ?kvs = concat (map (\<lambda>i. share J m i p) [0..<length (inputs J)])" for p
    by (simp add: filter_concat h share_def bucket_of_def comp_def)
  moreover have "?h (Key kv) \<in> {..<nat (nRed J)}" for kv using bucket_range [OF assms, of "Key kv"] by auto
  then have "mset (reduce_lines red ?kvs) = (\<Sum>p<nat (nRed J). mset (reduce_lines red (filter (\<lambda>kv. ?h (Key kv) = p) ?kvs)))"
    by (rule reduce_lines_partition)
  ultimately show ?thesis by (simp only: all_lines_def out_lines_def)
qed

lemma concat_map_concat: "concat (map g (concat xss)) = concat (map (\<lambda>xs. concat (map g xs)) xss)"
  by (induction xss) simp_all

lemma split_lines_partition:
  assumes "0 < nRed J"
  shows "mset (split_lines (concat (all_lines J m red)))
    = (\<Sum>p<nat (nRed J). mset (split_lines (concat (out_lines J m red p))))"
proof -
  let ?L = "concat (map (out_lines J m red) [0..<nat (nRed J)])"
  have sum: "(\<Sum>p<k. mset (f p)) = mset (concat (map f [0..<k]))" for f :: "nat \<Rightarrow> string list" and k by (induction k) simp_all
  have "mset (all_lines J m red) = mset ?L" using out_lines_partition [OF assms] by (simp only: sum)
  then have "mset (concat (map split_lines (all_lines J m red))) = mset (concat (map split_lines ?L))" by (rule mset_concat_map)
  also have "\<dots> = mset (concat (map (\<lambda>p. split_lines (concat (out_lines J m red p))) [0..<nat (nRed J)]))"
    unfolding out_lines_def concat_map_concat
    by (subst split_lines_concat) (auto dest: reduce_lines_output simp: comp_def)
  finally show ?thesis
    unfolding all_lines_def by (subst split_lines_concat) (auto dest: reduce_lines_output simp: sum)
qed

section \<open>A run of the word count\<close>

fun mr_run :: "mr_job \<Rightarrow> mr_state \<Rightarrow> mr_event list \<Rightarrow> mr_state option" where
  "mr_run J s [] = Some s"
| "mr_run J s (e # es) = (case mr_exec J s e of None \<Rightarrow> None | Some s' \<Rightarrow> mr_run J s' es)"

lemma mr_run_reach_from: "reach (mr_start J) (mr_step J) s \<Longrightarrow> mr_run J s es = Some t \<Longrightarrow> reach (mr_start J) (mr_step J) t"
proof (induction es arbitrary: s)
  case (Cons e es)
  then obtain s' where s': "mr_exec J s e = Some s'" "mr_run J s' es = Some t" by (auto split: option.splits)
  from Cons.prems(1) mr_step_exec [OF s'(1)] have "reach (mr_start J) (mr_step J) s'" by (rule reach_move)
  then show ?case using s'(2) by (rule Cons.IH)
qed simp

lemma mr_run_reach: "mr_run J (mr_initial J) es = Some t \<Longrightarrow> reach (mr_start J) (mr_step J) t"
  by (rule mr_run_reach_from [rotated]) (auto intro: reach_start simp: mr_start_def)

definition wc_plugin :: plugins where
  "wc_plugin filename = Some (\<lambda>name. if name = ''Map'' then Some (MapSym (wc_Map (\<lambda>_. False)))
     else if name = ''Reduce'' then Some (ReduceSym wc_Reduce) else None)"

definition wc_job :: mr_job where
  "wc_job = \<lparr>plug = wc_plugin, plugArg = ''wc.so'', sorting = insertionSort, inputs = [''in''], nRed = 1,
     disk0 = \<lparr>dirs = [''.'', intermediate_dir, ''mr-data/output''], files = [(''in'', ''b a b'')]\<rparr>\<rparr>"

definition worker_A :: Workers where
  "worker_A = \<lparr>ID = ''A'', RPCAddr = ''h'', wPort = ''1''\<rparr>"

definition worker_B :: Workers where
  "worker_B = \<lparr>ID = ''B'', RPCAddr = ''h'', wPort = ''2''\<rparr>"

definition wc_events :: "mr_event list" where
  "wc_events = [Start worker_A, RegRead 0, RegWrite 0 0 False True, Fetch 0 Delivered, RunMap 0, Report 0 Delivered,
     Fetch 0 Delivered, OpenReduce 0, WriteReduce 0, Report 0 Delivered]"

definition writing_now :: "mr_state \<Rightarrow> bool" where
  "writing_now s = list_ex (\<lambda>(w, x). case x of Writing r out \<Rightarrow> True | _ \<Rightarrow> False) (procs s)"

lemma not_writing_now: "\<not> writing_now s \<Longrightarrow> \<not> writer s p k"
proof
  assume n: "\<not> writing_now s" and "writer s p k"
  then obtain r out where k: "k < length (procs s)" "snd (procs s ! k) = Writing r out" by (auto simp: writer_def)
  have "writing_now s" unfolding writing_now_def list_ex_length
    by (rule exI [of _ k]) (use k in \<open>simp add: case_prod_beta\<close>)
  with n show False by simp
qed

definition wc_summary :: "mr_state option \<Rightarrow> (CoordinatorPhase \<times> string option \<times> bool) option" where
  "wc_summary x = map_option (\<lambda>s. (phase (coord s), ReadFile (disk s) (output_name 0), writing_now s)) x"

lemma wc_summaryE:
  assumes "wc_summary (mr_run J (mr_initial J) es) = Some (ph, content, wr)"
  obtains s where "reach (mr_start J) (mr_step J) s" and "phase (coord s) = ph"
    and "ReadFile (disk s) (output_name 0) = content" and "writing_now s = wr"
  using assms mr_run_reach by (auto simp: wc_summary_def)

lemma wc_run: "wc_summary (mr_run wc_job (mr_initial wc_job) wc_events) = Some (FinishedPhase, Some (''a 1'' @ [CHR 10] @ ''b 2'' @ [CHR 10]), False)"
  by code_simp

definition idle_events :: "mr_event list" where
  "idle_events = [Start worker_A, Start worker_B, RegRead 0, RegWrite 0 0 False True, RegRead 1, RegWrite 1 0 False True, Fetch 0 Delivered,
     RunMap 0, Report 0 Delivered, Fetch 0 Delivered, Fetch 1 Delivered, OpenReduce 0, WriteReduce 0, OpenReduce 1, Report 0 Delivered]"

lemma idle_run: "wc_summary (mr_run wc_job (mr_initial wc_job) idle_events) = Some (FinishedPhase, Some [], True)"
  by code_simp

lemma insertionSort_sorter: "sorter insertionSort"
  by unfold_locales

lemma wc_job_ok: "mr_ok wc_job (wc_Map (\<lambda>_. False)) wc_Reduce"
proof -
  have "parent ''in'' = ''.''" by (simp add: parent_def slash_def)
  then show ?thesis
    by (simp add: mr_ok_def wc_job_def wc_plugin_def loadPlugin_def order_free_apps(1) insertionSort_sorter clean_def ReadFile_def
        wc_Map_utf8 intermediate_dir_def)
qed

section \<open>Properties\<close>

text \<open>
  (C21) A finished job has the output of the sequential program. Take any run of the system, with any
  number of workers, any interleaving, lost replies and failed dials, of a job whose plugin loads,
  whose reduce function does not depend on the order of the values and whose pairs are valid UTF-8,
  on a disk whose intermediate directory is empty at the start. When the coordinator is in the
  finished phase and no worker has an output file open, every output file \<open>mr-out-p\<close> exists, and
  their lines are, as a multiset, the lines that \<open>mrsequential\<close> writes for the same inputs.
\<close>

theorem distributed_matches_sequential:
  assumes "mr_ok J m red" and "''.'' \<in> set (dirs (disk0 J))" and "reach (mr_start J) (mr_step J) s"
    and "phase (coord s) = FinishedPhase" and "\<not> writing_now s"
  shows "\<exists>fs' seq. mrsequential (plug J) (sorting J) (prog # plugArg J # inputs J) (disk0 J) = (fs', None)
    \<and> ReadFile fs' ''mr-out-0'' = Some seq
    \<and> (\<forall>p<nat (nRed J). ReadFile (disk s) (output_name (int p)) \<noteq> None)
    \<and> mset (split_lines seq) = (\<Sum>p<nat (nRed J). mset (split_lines (the (ReadFile (disk s) (output_name (int p))))))"
proof -
  have inv: "mr_inv J m red s" using assms(1,3) by (rule mr_reach_inv)
  have out: "ReadFile (disk s) (output_name (int p)) = Some (concat (out_lines J m red p))" if "p < nat (nRed J)" for p
    by (rule finished_output [OF inv assms(4) not_writing_now [OF assms(5)] that])
  have "inputs J \<noteq> []" using coord_invD(7) [OF mr_invD(1) [OF inv]] assms(4) by (simp add: phase_ok_def)
  then obtain fs' where "mrsequential (plug J) (sorting J) (prog # plugArg J # inputs J) (disk0 J) = (fs', None)"
    "ReadFile fs' ''mr-out-0'' = Some (concat (all_lines J m red))"
    using mrsequential_ok [OF assms(1) _ assms(2)] by blast
  moreover have "mset (split_lines (concat (all_lines J m red)))
      = (\<Sum>p<nat (nRed J). mset (split_lines (the (ReadFile (disk s) (output_name (int p))))))"
    unfolding split_lines_partition [OF mr_okD(4) [OF assms(1)]] by (rule sum.cong) (simp_all add: out)
  ultimately show ?thesis using out by blast
qed

theorem distributed_matches_sequential_witness:
  "\<exists>s fs' seq. reach (mr_start wc_job) (mr_step wc_job) s \<and> phase (coord s) = FinishedPhase
    \<and> mrsequential (plug wc_job) (sorting wc_job) (''mrsequential'' # plugArg wc_job # inputs wc_job) (disk0 wc_job) = (fs', None)
    \<and> ReadFile fs' ''mr-out-0'' = Some seq
    \<and> mset (split_lines seq) = mset [''a 1'', ''b 2'']"
proof (rule wc_summaryE [OF wc_run])
  fix s
  assume s: "reach (mr_start wc_job) (mr_step wc_job) s" "phase (coord s) = FinishedPhase"
    "ReadFile (disk s) (output_name 0) = Some (''a 1'' @ [CHR 10] @ ''b 2'' @ [CHR 10])" "writing_now s = False"
  have d: "''.'' \<in> set (dirs (disk0 wc_job))" "nat (nRed wc_job) = 1" by (simp_all add: wc_job_def)
  have "split_lines (''a 1'' @ [CHR 10] @ ''b 2'' @ [CHR 10]) = [''a 1'', ''b 2'']" by simp
  with s distributed_matches_sequential [OF wc_job_ok d(1) s(1,2), of "''mrsequential''"] d(2) show ?thesis by auto
qed

definition input_words :: "(nat \<Rightarrow> bool) \<Rightarrow> mr_job \<Rightarrow> string list" where
  "input_words tables J = concat (map (\<lambda>f. words tables (the (ReadFile (disk0 J) f))) (inputs J))"

lemma wc_values: "length (values_of w (map (\<lambda>w. pair w ''1'') ws)) = count_list ws w"
  by (induction ws) (auto simp: values_of_def)

lemma count_list_filter_in: "P w \<Longrightarrow> count_list (filter P ws) w = count_list ws w"
  by (induction ws) auto

lemma wc_out_lines:
  "out_lines J (wc_Map tables) wc_Reduce p = (let ws = input_words tables J in
     map (\<lambda>w. output_line w (itoa (count_list ws w))) (sorted_list_of_set {w \<in> set ws. bucket (nRed J) w = int p}))"
proof -
  let ?ws = "input_words tables J" and ?in = "\<lambda>w. bucket (nRed J) w = int p"
  have "concat (map (pairs_of J (wc_Map tables)) [0..<length (inputs J)]) = map (\<lambda>w. pair w ''1'') ?ws"
    unfolding pairs_of_inputs [symmetric] by (simp add: wc_Map_def input_words_def map_concat comp_def)
  moreover have "concat (map (\<lambda>i. share J (wc_Map tables) i p) [0..<length (inputs J)])
      = filter (\<lambda>kv. bucket (nRed J) (Key kv) = int p) (concat (map (pairs_of J (wc_Map tables)) [0..<length (inputs J)]))"
    by (simp add: filter_concat share_def bucket_of_def comp_def)
  ultimately have l: "concat (map (\<lambda>i. share J (wc_Map tables) i p) [0..<length (inputs J)])
      = map (\<lambda>w. pair w ''1'') (filter ?in ?ws)" by (simp add: filter_map comp_def)
  have k: "Key ` set (map (\<lambda>w. pair w ''1'') (filter ?in ?ws)) = {w \<in> set ?ws. ?in w}" by (auto simp: image_iff)
  have c: "count_list (filter ?in ?ws) w = count_list ?ws w" if "?in w" for w using that by (rule count_list_filter_in)
  show ?thesis
    unfolding out_lines_def l reduce_lines_def k
    by (auto simp: line_of_def wc_Reduce_def wc_values c Let_def)
qed

text \<open>
  (C22) The word count counts words: in a finished run of \<open>wc\<close> the file of partition \<open>p\<close> lists, in
  order, the words of the inputs that hash to \<open>p\<close>, each with its number of occurrences.
\<close>

theorem word_count_output:
  assumes "mr_ok J (wc_Map tables) wc_Reduce" and "reach (mr_start J) (mr_step J) s"
    and "phase (coord s) = FinishedPhase" and "\<not> writing_now s" and "p < nat (nRed J)"
  shows "ReadFile (disk s) (output_name (int p)) = Some (let ws = input_words tables J in
    concat (map (\<lambda>w. output_line w (itoa (count_list ws w)))
      (sorted_list_of_set {w \<in> set ws. ihash w smod nRed J = int p})))"
  using finished_output [OF mr_reach_inv [OF assms(1,2)] assms(3) not_writing_now [OF assms(4)] assms(5)]
  by (simp add: wc_out_lines Let_def bucket_def)

theorem word_count_output_witness:
  "\<exists>s. reach (mr_start wc_job) (mr_step wc_job) s \<and> ReadFile (disk s) (output_name (int 0)) = Some (let ws = input_words (\<lambda>_. False) wc_job in
    concat (map (\<lambda>w. output_line w (itoa (count_list ws w)))
      (sorted_list_of_set {w \<in> set ws. ihash w smod nRed wc_job = int 0})))"
proof (rule wc_summaryE [OF wc_run])
  fix s
  assume s: "reach (mr_start wc_job) (mr_step wc_job) s" "phase (coord s) = FinishedPhase" "writing_now s = False"
  have "0 < nat (nRed wc_job)" by (simp add: wc_job_def)
  with s(3) show ?thesis by (intro exI [of _ s] conjI s(1) word_count_output [OF wc_job_ok s(1,2)]) simp_all
qed

text \<open>
  (C23) An idle worker can leave the output of a finished job empty. A worker that asks for a task in
  the reduce phase when none is waiting is told that none is available, does not look at that, and
  runs the reduce of partition 0: it truncates \<open>mr-out-0\<close>. The run has two workers and one input;
  the coordinator is in the finished phase, the job has output, and the file is empty.
\<close>

theorem finished_with_empty_output:
  "\<exists>s. reach (mr_start wc_job) (mr_step wc_job) s \<and> phase (coord s) = FinishedPhase
    \<and> ReadFile (disk s) (output_name 0) = Some [] \<and> length (split_lines (concat (all_lines wc_job (wc_Map (\<lambda>_. False)) wc_Reduce))) = 2"
proof (rule wc_summaryE [OF idle_run])
  fix s
  assume s: "reach (mr_start wc_job) (mr_step wc_job) s" "phase (coord s) = FinishedPhase" "ReadFile (disk s) (output_name 0) = Some []"
  have "mset (split_lines (concat (all_lines wc_job (wc_Map (\<lambda>_. False)) wc_Reduce))) = mset [''a 1'', ''b 2'']"
  proof (rule wc_summaryE [OF wc_run])
    fix t
    assume t: "reach (mr_start wc_job) (mr_step wc_job) t" "phase (coord t) = FinishedPhase"
      "ReadFile (disk t) (output_name 0) = Some (''a 1'' @ [CHR 10] @ ''b 2'' @ [CHR 10])" "writing_now t = False"
    have n: "nat (nRed wc_job) = 1" "0 < nRed wc_job" by (simp_all add: wc_job_def)
    have "concat (out_lines wc_job (wc_Map (\<lambda>_. False)) wc_Reduce 0) = ''a 1'' @ [CHR 10] @ ''b 2'' @ [CHR 10]"
      using finished_output [OF mr_reach_inv [OF wc_job_ok t(1)] t(2) not_writing_now, of 0] t(3,4) n(1) by simp
    then show ?thesis using split_lines_partition [OF n(2)] n(1) by simp
  qed
  then have "length (split_lines (concat (all_lines wc_job (wc_Map (\<lambda>_. False)) wc_Reduce))) = 2"
    by (metis length_Cons list.size(3) mset_eq_length numeral_2_eq_2)
  with s show ?thesis by blast
qed

text \<open>
  (C24) What a registered worker does when no task is waiting. In the map phase the reply has no phase
  and the worker stops for good. In the reduce phase it runs the reduce of partition 0 without a task
  id, its report is refused without a change of the coordinator, and it asks again.
\<close>

theorem idle_worker:
  assumes "\<exists>x\<in>set (workers c). workerId x = ID w"
    and "\<not> (\<exists>j\<in>set (jobs_of (served_type (phase c)) c). status j = Waiting)"
    and "TaskRequestByWorker c (request_args w) zeroRequestReply = (c', r)"
  shows "c' = c \<and> (phase c = MapPhase \<longrightarrow> WorkerFetchTasks Delivered r = Stopped)
    \<and> (phase c = ReducePhase \<longrightarrow> WorkerFetchTasks Delivered r = Reducing r \<and> rPartition r = 0
      \<and> TaskUpdateByWorker c (update_args w r) zeroUpdateReply
          = (c, zeroUpdateReply\<lparr>uStatus := Invalid, uMessage := ''Task ID is required''\<rparr>)
      \<and> DoWorkerTaskUpdate Delivered (snd (TaskUpdateByWorker c (update_args w r) zeroUpdateReply)) = Fetching)"
proof (intro conjI impI)
  obtain k where k: "find_index (\<lambda>x. workerId x = ID w) (workers c) = Some k" using assms(1) unfolding Bex_set_find_index by blast
  have none: "phase c = MapPhase \<Longrightarrow> find_index (\<lambda>t. status t = Waiting) (mapTasks c) = None"
    "phase c = ReducePhase \<Longrightarrow> find_index (\<lambda>t. status t = Waiting) (reduceTasks c) = None"
    using assms(2) by (auto simp: find_index_None_iff served_type_def jobs_of_def)
  let ?z = "zeroRequestReply\<lparr>rTaskAvailable := False\<rparr>"
  note unf = TaskRequestByWorker_def assignMapTask_def assignReduceTask_def request_args_def Let_def k
  have M: "TaskRequestByWorker c (request_args w) zeroRequestReply = (c, ?z)" if "phase c = MapPhase"
    by (simp add: unf that none(1) [OF that])
  have R: "TaskRequestByWorker c (request_args w) zeroRequestReply = (c, ?z\<lparr>rPhase := ReducePhase\<rparr>)" if "phase c = ReducePhase"
    by (simp add: unf that none(2) [OF that])
  show "c' = c"
  proof (cases "phase c")
    case FinishedPhase
    then show ?thesis using assms(3) by (simp add: unf)
  qed (use assms(3) M R in \<open>simp_all add: unf\<close>)
  show "WorkerFetchTasks Delivered r = Stopped" if "phase c = MapPhase"
  proof -
    have "r = ?z" using assms(3) M [OF that] by simp
    then show ?thesis by (simp add: WorkerFetchTasks_def call_def zeroRequestReply_def)
  qed
  assume ph: "phase c = ReducePhase"
  have r: "r = ?z\<lparr>rPhase := ReducePhase\<rparr>" using assms(3) R [OF ph] by simp
  show "WorkerFetchTasks Delivered r = Reducing r" "rPartition r = 0"
    by (simp_all add: r WorkerFetchTasks_def call_def zeroRequestReply_def)
  show u: "TaskUpdateByWorker c (update_args w r) zeroUpdateReply
      = (c, zeroUpdateReply\<lparr>uStatus := Invalid, uMessage := ''Task ID is required''\<rparr>)"
    by (simp add: r TaskUpdateByWorker_def update_args_def zeroRequestReply_def Let_def)
  show "DoWorkerTaskUpdate Delivered (snd (TaskUpdateByWorker c (update_args w r) zeroUpdateReply)) = Fetching"
    unfolding u by (simp add: DoWorkerTaskUpdate_def call_def zeroUpdateReply_def)
qed

definition idle_coordinator :: Coordinator where
  "idle_coordinator = \<lparr>noOfReduceTasks = 1, mapTasks = [], reduceTasks = [(newReduceTask 0)\<lparr>status := Pending\<rparr>],
     phase = ReducePhase, workers = [zeroWorker\<lparr>workerId := ''A''\<rparr>]\<rparr>"

theorem idle_worker_witness:
  "WorkerFetchTasks Delivered (snd (TaskRequestByWorker idle_coordinator (request_args worker_A) zeroRequestReply))
    = Reducing (snd (TaskRequestByWorker idle_coordinator (request_args worker_A) zeroRequestReply))"
  using idle_worker [of idle_coordinator worker_A, OF _ _ surjective_pairing]
  by (simp add: idle_coordinator_def worker_A_def served_type_def jobs_of_def newReduceTask_def)

text \<open>The reducing loop of the worker and that of the sequential program compute the same lines.\<close>

theorem reduce_loops_agree: "reduce_loop red kvs i out = sequential_loop red kvs i out"
  by (simp add: reduce_loop_groups sequential_loop_groups)

text \<open>(C25) An intermediate file of pairs in valid UTF-8 is read back as it was written.\<close>

theorem intermediate_roundtrip: "list_all utf8_kv kvs \<Longrightarrow> decode_loop (concat (map Encode kvs)) = kvs"
  by (rule decode_loop_encoded)

theorem intermediate_roundtrip_witness:
  "decode_loop (concat (map Encode (wc_Map (\<lambda>_. False) ''in'' ''b a b''))) = wc_Map (\<lambda>_. False) ''in'' ''b a b''"
  by (rule intermediate_roundtrip) (simp add: wc_Map_utf8)

text \<open>
  (C26) The partition of a pair is in range, and every pair is in exactly one partition: for a positive
  number of reduce tasks the hash is below \<open>2^31\<close>, the partitions in use are among \<open>0..n-1\<close>, and a
  pair occurs in the partition of its key as often as in the output of Map.
\<close>

theorem partitions_in_range:
  assumes "0 < n"
  shows "\<exists>ps. add_partitions n kvs (\<lambda>_. []) = Inr ps \<and> (\<forall>p. ps p \<noteq> [] \<longrightarrow> 0 \<le> p \<and> p < n)
    \<and> (\<forall>p kv. count_list (ps p) kv = (if p = ihash (Key kv) smod n then count_list kvs kv else 0))
    \<and> (\<forall>key. 0 \<le> ihash key \<and> ihash key < 2 ^ 31)"
proof (intro exI conjI allI impI)
  show "add_partitions n kvs (\<lambda>_. []) = Inr (bucket_of n kvs)" using assms by (simp add: add_partitions_eq fun_eq_iff)
  show "0 \<le> p" "p < n" if "bucket_of n kvs p \<noteq> []" for p
    using that bucket_range [OF assms] by (auto simp: bucket_of_def filter_empty_conv)
  show "count_list (bucket_of n kvs p) kv = (if p = ihash (Key kv) smod n then count_list kvs kv else 0)" for p kv
    by (auto simp: bucket_of_def bucket_def count_list_filter_in count_list_0_iff)
  show "0 \<le> ihash key" "ihash key < 2 ^ 31" for key by (rule ihash_range)+
qed

theorem partitions_in_range_witness:
  "\<exists>ps. add_partitions 2 [pair ''a'' ''1''] (\<lambda>_. []) = Inr ps \<and> (\<forall>p. ps p \<noteq> [] \<longrightarrow> 0 \<le> p \<and> p < 2)"
  using partitions_in_range [of 2 "[pair ''a'' ''1'']"] by auto

text \<open>
  A map task without reduce tasks: if the number of reduce tasks is zero, the map task panics as
  soon as Map has emitted a pair, and it has written nothing.
\<close>

theorem map_task_without_reducers:
  assumes "loadPlugin open_plugin arg1 = Inr (m, red)" and "ReadFile fs (rFilePath r) = Some content"
    and "rNReduce r = 0" and "m (rFilePath r) content \<noteq> []"
  shows "MapperTask open_plugin arg1 r fs = (fs, Some (Panic ''integer divide by zero''))"
  using assms by (cases "m (rFilePath r) content") (simp_all add: MapperTask_def)

theorem map_task_without_reducers_witness:
  "MapperTask wc_plugin ''wc.so'' (zeroRequestReply\<lparr>rFilePath := ''in''\<rparr>) (disk0 wc_job)
    = (disk0 wc_job, Some (Panic ''integer divide by zero''))"
proof (rule map_task_without_reducers [of _ _ "wc_Map (\<lambda>_. False)" wc_Reduce _ _ "''b a b''"])
  show "wc_Map (\<lambda>_. False) (rFilePath (zeroRequestReply\<lparr>rFilePath := ''in''\<rparr>)) ''b a b'' \<noteq> []" by code_simp
qed (simp_all add: loadPlugin_def wc_plugin_def ReadFile_def wc_job_def zeroRequestReply_def)

end
