(* ===== verification/LabGob.thy ===== *)
theory LabGob
  imports Utf8
begin

text \<open>
  \<open>labgob/labgob.go\<close>: the checks around \<open>encoding/gob\<close>. Types are indices into a table, so that a
  type can refer to itself; the table is what \<open>reflect\<close> knows of a program. Values live in a memory,
  so that pointers can be cyclic. The state is that of the package: the set \<open>checked\<close>, the counter
  \<open>errorCount\<close>, and what has been printed.
\<close>

section \<open>Types and values as reflect sees them\<close>

datatype tinfo =
    TStruct string "(string \<times> nat) list"
  | TElem nat
  | TMap nat nat
  | TOther

datatype goval =
    VStruct "(string \<times> bool \<times> goval) list"
  | VPtr "nat option"
  | VBasic string bool
  | VOtherVal

text \<open>
  A field of a struct value has its name, whether it is embedded, and its value. \<open>VBasic t z\<close> is a
  value of the basic type named \<open>t\<close>; \<open>z\<close> tells whether it is the zero value.
\<close>

datatype message =
    LowerCase string string
  | NonDefault string

record labgob =
  checked :: "nat list"
  errorCount :: nat
  printed :: "message list"

text \<open>
  \<open>unicode.IsUpper\<close>: beyond ASCII a table decides, except that the replacement character is a symbol.
\<close>

definition IsUpper :: "(nat \<Rightarrow> bool) \<Rightarrow> nat \<Rightarrow> bool" where
  "IsUpper tables r = (if r < 128 then 65 \<le> r \<and> r \<le> 90 else r \<noteq> RuneError \<and> tables r)"

definition lower_case :: "(nat \<Rightarrow> bool) \<Rightarrow> string \<Rightarrow> bool" where
  "lower_case tables f \<longleftrightarrow> IsUpper tables (fst (DecodeRune f)) = False"

section \<open>checkType\<close>

text \<open>
  The recursion of \<open>checkType\<close>, as a stack of what is still to do: visit a type, or complain about
  a field and then visit its type. A type is marked before its components are visited.
\<close>

datatype todo = Visit nat | Field string string nat

fun todo_weight :: "todo \<Rightarrow> nat" where
  "todo_weight (Visit t) = 1"
| "todo_weight (Field f name t) = 2"

definition complain :: "(nat \<Rightarrow> bool) \<Rightarrow> string \<Rightarrow> string \<Rightarrow> labgob \<Rightarrow> labgob" where
  "complain tables f t st = (if lower_case tables f
     then st\<lparr>errorCount := errorCount st + 1, printed := printed st @ [LowerCase f t]\<rparr> else st)"

definition components :: "tinfo \<Rightarrow> todo list" where
  "components ti = (case ti of
     TStruct name flds \<Rightarrow> map (\<lambda>(f, t). Field f name t) flds
   | TElem t \<Rightarrow> [Visit t]
   | TMap e k \<Rightarrow> [Visit e, Visit k]
   | TOther \<Rightarrow> [])"

definition remaining :: "tinfo list \<Rightarrow> labgob \<Rightarrow> nat" where
  "remaining T st = card ({..<length T} - set (checked st))"

lemma complain_checked [simp]: "checked (complain tables f t st) = checked st"
  by (simp add: complain_def)

lemma remaining_mark:
  assumes "t < length T" and "t \<notin> set (checked st)"
  shows "remaining T (st\<lparr>checked := t # checked st\<rparr>) < remaining T st"
proof -
  have "{..<length T} - set (t # checked st) \<subset> {..<length T} - set (checked st)" using assms by auto
  then show ?thesis by (simp add: remaining_def psubset_card_mono)
qed

function (sequential) checkTypes :: "(nat \<Rightarrow> bool) \<Rightarrow> tinfo list \<Rightarrow> todo list \<Rightarrow> labgob \<Rightarrow> labgob" where
  "checkTypes tables T [] st = st"
| "checkTypes tables T (Field f name t # todo) st = checkTypes tables T (Visit t # todo) (complain tables f name st)"
| "checkTypes tables T (Visit t # todo) st =
     (if t \<ge> length T \<or> t \<in> set (checked st) then checkTypes tables T todo st
      else checkTypes tables T (components (T ! t) @ todo) (st\<lparr>checked := t # checked st\<rparr>))"
  by pat_completeness auto

termination
proof (relation "measures [\<lambda>(tables, T, todo, st). remaining T st, \<lambda>(tables, T, todo, st). sum_list (map todo_weight todo)]", goal_cases)
  case (4 tables T t todo st)
  then show ?case using remaining_mark [of t T st] by simp
qed (simp_all add: remaining_def)

declare checkTypes.simps(3) [simp del]

definition checkType :: "(nat \<Rightarrow> bool) \<Rightarrow> tinfo list \<Rightarrow> nat \<Rightarrow> labgob \<Rightarrow> labgob" where
  "checkType tables T t st = checkTypes tables T [Visit t] st"

text \<open>\<open>checkValue\<close> of an interface without a value has no type: \<open>t.Kind()\<close> panics.\<close>

definition checkValue :: "(nat \<Rightarrow> bool) \<Rightarrow> tinfo list \<Rightarrow> nat option \<Rightarrow> labgob \<Rightarrow> labgob option" where
  "checkValue tables T t st = (case t of None \<Rightarrow> None | Some t \<Rightarrow> Some (checkType tables T t st))"

section \<open>checkDefault\<close>

definition warn :: "string \<Rightarrow> string \<Rightarrow> labgob \<Rightarrow> labgob" where
  "warn name tname st = (let st' = (if errorCount st < 1
       then st\<lparr>printed := printed st @ [NonDefault (if name = [] then tname else name)]\<rparr> else st) in
     st'\<lparr>errorCount := errorCount st + 1\<rparr>)"

text \<open>
  How \<open>reflect\<close> restricts a value: it was reached through an unexported field that is not embedded
  (\<open>flagStickyRO\<close>), or it is such a field that is embedded (\<open>flagEmbedRO\<close>, which the next field
  selection drops). \<open>Interface\<close> panics on a restricted value.
\<close>

type_synonym ro = "bool \<times> bool"

definition field_ro :: "(nat \<Rightarrow> bool) \<Rightarrow> string \<Rightarrow> bool \<Rightarrow> ro \<Rightarrow> ro" where
  "field_ro tables f embedded r = (fst r \<or> lower_case tables f \<and> \<not> embedded, lower_case tables f \<and> embedded)"

definition restricted :: "ro \<Rightarrow> bool" where
  "restricted r \<longleftrightarrow> fst r \<or> snd r"

function checkDefault1 :: "(nat \<Rightarrow> bool) \<Rightarrow> (nat \<Rightarrow> goval) \<Rightarrow> goval \<Rightarrow> ro \<Rightarrow> nat \<Rightarrow> string \<Rightarrow> labgob \<Rightarrow> labgob option" where
  "checkDefault1 tables mem val r depth name st = (if depth > 3 then Some st
     else case val of
       VStruct flds \<Rightarrow> fold (\<lambda>(f, e, v) res. case res of None \<Rightarrow> None | Some st \<Rightarrow>
         checkDefault1 tables mem v (field_ro tables f e r) (depth + 1) (if name \<noteq> [] then name @ ''.'' @ f else f) st) flds (Some st)
     | VPtr None \<Rightarrow> Some st
     | VPtr (Some a) \<Rightarrow> checkDefault1 tables mem (mem a) r (depth + 1) name st
     | VBasic t zero \<Rightarrow> (if restricted r then None else if \<not> zero then Some (warn name t st) else Some st)
     | VOtherVal \<Rightarrow> Some st)"
  by auto

termination
  by (relation "measure (\<lambda>(tables, mem, val, r, depth, name, st). 4 - depth)") auto

declare checkDefault1.simps [simp del]

definition checkDefault :: "(nat \<Rightarrow> bool) \<Rightarrow> (nat \<Rightarrow> goval) \<Rightarrow> goval option \<Rightarrow> labgob \<Rightarrow> labgob option" where
  "checkDefault tables mem val st = (case val of None \<Rightarrow> Some st | Some v \<Rightarrow> checkDefault1 tables mem v (False, False) 1 [] st)"

section \<open>The encoder and the decoder\<close>

text \<open>
  The wrappers. \<open>gob_encode\<close> and \<open>gob_decode\<close> stand for the streams of \<open>encoding/gob\<close>; \<open>None\<close> is a
  panic, and the second component the result of gob.
\<close>

definition LabEncode ::
  "(nat \<Rightarrow> bool) \<Rightarrow> tinfo list \<Rightarrow> ('v \<Rightarrow> 'b) \<Rightarrow> ('v \<Rightarrow> nat option) \<Rightarrow> 'v \<Rightarrow> labgob \<Rightarrow> (labgob \<times> 'b) option" where
  "LabEncode tables T gob_encode type_of e st =
     map_option (\<lambda>st'. (st', gob_encode e)) (checkValue tables T (type_of e) st)"

definition LabDecode ::
  "(nat \<Rightarrow> bool) \<Rightarrow> tinfo list \<Rightarrow> (nat \<Rightarrow> goval) \<Rightarrow> ('b \<Rightarrow> 'r) \<Rightarrow> nat option \<Rightarrow> goval option \<Rightarrow> 'b \<Rightarrow> labgob \<Rightarrow> (labgob \<times> 'r) option" where
  "LabDecode tables T mem gob_decode t val bytes st =
     Option.bind (checkValue tables T t st) (\<lambda>st'. map_option (\<lambda>st''. (st'', gob_decode bytes)) (checkDefault tables mem val st'))"

definition LabRegister :: "(nat \<Rightarrow> bool) \<Rightarrow> tinfo list \<Rightarrow> nat option \<Rightarrow> labgob \<times> nat list \<Rightarrow> (labgob \<times> nat list) option" where
  "LabRegister tables T t s = (case checkValue tables T t (fst s) of None \<Rightarrow> None
     | Some st \<Rightarrow> Some (st, snd s @ [the t]))"

definition LabRegisterName ::
  "(nat \<Rightarrow> bool) \<Rightarrow> tinfo list \<Rightarrow> string \<Rightarrow> nat option \<Rightarrow> labgob \<times> (string \<times> nat) list \<Rightarrow> (labgob \<times> (string \<times> nat) list) option" where
  "LabRegisterName tables T name t s = (case checkValue tables T t (fst s) of None \<Rightarrow> None
     | Some st \<Rightarrow> Some (st, snd s @ [(name, the t)]))"

section \<open>What checkType visits and counts\<close>

text \<open>The types that a type is built from, read off its description.\<close>

inductive part_of :: "tinfo list \<Rightarrow> nat \<Rightarrow> nat \<Rightarrow> bool" for T :: "tinfo list" where
  of_struct: "T ! t = TStruct name flds \<Longrightarrow> (f, u) \<in> set flds \<Longrightarrow> t < length T \<Longrightarrow> part_of T t u"
| of_elem: "T ! t = TElem u \<Longrightarrow> t < length T \<Longrightarrow> part_of T t u"
| of_map_elem: "T ! t = TMap u k \<Longrightarrow> t < length T \<Longrightarrow> part_of T t u"
| of_map_key: "T ! t = TMap e u \<Longrightarrow> t < length T \<Longrightarrow> part_of T t u"

inductive_simps part_of_iff: "part_of T t u"

text \<open>A name that starts with a capital letter, and the number of fields of a type that do not.\<close>

definition capital_letters :: string where
  "capital_letters = ''ABCDEFGHIJKLMNOPQRSTUVWXYZ''"

definition capital :: "(nat \<Rightarrow> bool) \<Rightarrow> string \<Rightarrow> bool" where
  "capital tables f \<longleftrightarrow> (\<exists>c cs. f = c # cs \<and> c \<in> set capital_letters)
     \<or> (\<exists>r n. DecodeRune f = (r, n) \<and> 128 \<le> r \<and> r \<noteq> RuneError \<and> tables r)"

definition bad_fields :: "(nat \<Rightarrow> bool) \<Rightarrow> tinfo list \<Rightarrow> nat \<Rightarrow> nat" where
  "bad_fields tables T t = (case T ! t of TStruct name flds \<Rightarrow> length (filter (\<lambda>(f, u). \<not> capital tables f) flds) | _ \<Rightarrow> 0)"

fun target :: "todo \<Rightarrow> nat" where
  "target (Visit t) = t"
| "target (Field f name t) = t"

fun bad :: "(nat \<Rightarrow> bool) \<Rightarrow> todo \<Rightarrow> nat" where
  "bad tables (Visit t) = 0"
| "bad tables (Field f name t) = (if lower_case tables f then 1 else 0)"

abbreviation parts :: "tinfo list \<Rightarrow> nat \<Rightarrow> nat set" where
  "parts T t \<equiv> {u. part_of T t u}"

lemma capital_ascii: "c \<in> set capital_letters \<longleftrightarrow> 65 \<le> byte c \<and> byte c \<le> 90"
proof
  assume "65 \<le> byte c \<and> byte c \<le> 90"
  then have "byte c \<in> set [65..<91]" by (simp only: set_upt atLeastLessThan_iff) arith
  then have "char_of (byte c) \<in> char_of ` set [65..<91::nat]" by blast
  also have "char_of ` set [65..<91::nat] = set ''ABCDEFGHIJKLMNOPQRSTUVWXYZ''" by code_simp
  finally show "c \<in> set capital_letters" unfolding capital_letters_def by simp
qed (auto simp: capital_letters_def of_char_def horner_sum_simps)

lemma DecodeRune_large: "s \<noteq> [] \<Longrightarrow> 128 \<le> byte (hd s) \<Longrightarrow> 128 \<le> fst (DecodeRune s)"
proof (cases "good_rune s")
  case True
  assume "128 \<le> byte (hd s)"
  with True show ?thesis by (cases rule: good_rune_cases) (auto simp: second_lo_def split: if_splits)
next
  case False
  assume "s \<noteq> []"
  with False show ?thesis by (simp add: good_rune_def RuneError_def)
qed

lemma lower_case_iff: "lower_case tables f \<longleftrightarrow> \<not> capital tables f"
proof (cases f)
  case Nil
  then show ?thesis by (simp add: lower_case_def capital_def IsUpper_def DecodeRune.simps RuneError_def)
next
  case (Cons c cs)
  show ?thesis
  proof (cases "byte c < 128")
    case True
    then have "DecodeRune f = (byte c, 1)" by (simp add: Cons DecodeRune.simps)
    with True show ?thesis by (auto simp: lower_case_def capital_def IsUpper_def Cons capital_ascii)
  next
    case False
    then have "128 \<le> fst (DecodeRune f)" using DecodeRune_large [of f] by (simp add: Cons)
    with False show ?thesis
      by (cases "DecodeRune f") (auto simp: lower_case_def capital_def IsUpper_def Cons capital_ascii)
  qed
qed

lemma parts_components: "t < length T \<Longrightarrow> target ` set (components (T ! t)) = parts T t"
  by (cases "T ! t") (force simp: components_def part_of_iff)+

lemma bad_fields_components: "bad_fields tables T t = sum_list (map (bad tables) (components (T ! t)))"
proof -
  have "sum_list (map (bad tables) (map (\<lambda>(f, t). Field f name t) flds)) = length (filter (\<lambda>(f, u). \<not> capital tables f) flds)" for name flds
    by (induction flds) (auto simp: lower_case_iff)
  then show ?thesis by (simp add: bad_fields_def components_def split: tinfo.split)
qed

text \<open>What is reachable from a set of types without going through the types in \<open>C\<close>.\<close>

inductive_set new_types :: "tinfo list \<Rightarrow> nat set \<Rightarrow> nat set \<Rightarrow> nat set"
  for T :: "tinfo list" and C :: "nat set" and R :: "nat set" where
  new_root: "t \<in> R \<Longrightarrow> t < length T \<Longrightarrow> t \<notin> C \<Longrightarrow> t \<in> new_types T C R"
| new_part: "t \<in> new_types T C R \<Longrightarrow> part_of T t u \<Longrightarrow> u < length T \<Longrightarrow> u \<notin> C \<Longrightarrow> u \<in> new_types T C R"

lemma new_types_bound: "t \<in> new_types T C R \<Longrightarrow> t < length T \<and> t \<notin> C"
  by (induction rule: new_types.induct) auto

lemma new_types_finite [simp]: "finite (new_types T C R)"
  by (rule finite_subset [of _ "{..<length T}"]) (auto dest: new_types_bound)

lemma new_types_empty [simp]: "new_types T C {} = {}"
proof -
  have "False" if "t \<in> new_types T C {}" for t using that by (induction rule: new_types.induct) auto
  then show ?thesis by blast
qed

lemma new_types_skip: "t \<ge> length T \<or> t \<in> C \<Longrightarrow> new_types T C (insert t R) = new_types T C R"
proof (intro equalityI subsetI)
  fix u assume a: "t \<ge> length T \<or> t \<in> C"
  show "u \<in> new_types T C R" if "u \<in> new_types T C (insert t R)"
    using that a by (induction rule: new_types.induct) (auto intro: new_types.intros)
  show "u \<in> new_types T C (insert t R)" if "u \<in> new_types T C R"
    using that by (induction rule: new_types.induct) (auto intro: new_types.intros)
qed

lemma new_types_visit:
  assumes "t < length T" and "t \<notin> C"
  shows "new_types T C (insert t R) = insert t (new_types T (insert t C) (parts T t \<union> R))"
proof (intro equalityI subsetI)
  fix u assume "u \<in> new_types T C (insert t R)"
  then show "u \<in> insert t (new_types T (insert t C) (parts T t \<union> R))"
  proof (induction rule: new_types.induct)
    case (new_root u)
    then show ?case by (cases "u = t") (auto intro: new_types.new_root)
  next
    case (new_part v u)
    then show ?case by (cases "u = t") (auto intro: new_types.intros)
  qed
next
  fix u assume "u \<in> insert t (new_types T (insert t C) (parts T t \<union> R))"
  moreover have "t \<in> new_types T C (insert t R)" using assms by (auto intro: new_types.new_root)
  moreover have "u \<in> new_types T C (insert t R)" if "u \<in> new_types T (insert t C) (parts T t \<union> R)"
    using that
  proof (induction rule: new_types.induct)
    case (new_root u)
    then show ?case using calculation(2) by (auto intro: new_types.intros)
  qed (auto intro: new_types.new_part)
  ultimately show "u \<in> new_types T C (insert t R)" by blast
qed

lemma checkTypes_effect:
  "set (checked (checkTypes tables T todo st)) = set (checked st) \<union> new_types T (set (checked st)) (target ` set todo)
    \<and> errorCount (checkTypes tables T todo st) = errorCount st + sum_list (map (bad tables) todo)
        + (\<Sum>t\<in>new_types T (set (checked st)) (target ` set todo). bad_fields tables T t)
    \<and> length (printed (checkTypes tables T todo st)) + errorCount st = length (printed st) + errorCount (checkTypes tables T todo st)"
proof (induction tables T todo st rule: checkTypes.induct)
  case (1 tables T st)
  show ?case by simp
next
  case (2 tables T f name t todo st)
  then show ?case by (cases "lower_case tables f") (simp_all add: complain_def)
next
  case (3 tables T t todo st)
  show ?case
  proof (cases "t \<ge> length T \<or> t \<in> set (checked st)")
    case True
    with 3(1) show ?thesis by (simp add: checkTypes.simps(3) new_types_skip [OF True])
  next
    case False
    then have t: "t < length T" "t \<notin> set (checked st)" by auto
    let ?C = "set (checked st)" and ?N = "new_types T (insert t (set (checked st))) (parts T t \<union> target ` set todo)"
    have N: "new_types T ?C (insert t (target ` set todo)) = insert t ?N" by (rule new_types_visit [OF t])
    have nt: "t \<notin> ?N" using new_types_bound by blast
    have p: "target ` set (components (T ! t) @ todo) = parts T t \<union> target ` set todo" using parts_components [OF t(1)] by (simp add: image_Un)
    have s: "(\<Sum>x\<in>insert t ?N. bad_fields tables T x) = bad_fields tables T t + (\<Sum>x\<in>?N. bad_fields tables T x)"
      by (rule sum.insert [OF new_types_finite nt])
    show ?thesis using 3(2) [OF False] t p N s bad_fields_components [of tables T t] by (simp add: checkTypes.simps(3))
  qed
qed

lemma checkType_again: "t \<ge> length T \<or> t \<in> set (checked st) \<Longrightarrow> checkType tables T t st = st"
  unfolding checkType_def by (subst checkTypes.simps(3)) simp

section \<open>Properties\<close>

text \<open>
  (C31) \<open>checkType\<close> visits every type that a type is built from and complains exactly once about each
  lower-case field, also for recursive types. The types that become checked are those reachable from
  the given one without passing through a type that was checked before; the error count goes up by
  the number of their fields whose name does not start with a capital letter, with one message each;
  a second check of the type changes nothing. What a type is built from (\<open>part_of\<close>) and capital
  letters (\<open>capital\<close>) are defined without the functions that the check uses.
\<close>

theorem checkType_complete:
  "set (checked (checkType tables T t st)) = set (checked st) \<union> new_types T (set (checked st)) {t}
    \<and> errorCount (checkType tables T t st) = errorCount st + (\<Sum>u\<in>new_types T (set (checked st)) {t}. bad_fields tables T u)
    \<and> length (printed (checkType tables T t st)) = length (printed st) + (\<Sum>u\<in>new_types T (set (checked st)) {t}. bad_fields tables T u)
    \<and> checkType tables T t (checkType tables T t st) = checkType tables T t st"
proof -
  note eff = checkTypes_effect [of tables T "[Visit t]" st]
  have "t \<in> new_types T (set (checked st)) {t}" if "t < length T" "t \<notin> set (checked st)"
    by (rule new_types.new_root) (use that in simp_all)
  then have "t \<ge> length T \<or> t \<in> set (checked (checkType tables T t st))"
    using eff by (cases "t < length T") (auto simp: checkType_def)
  from checkType_again [OF this] eff show ?thesis by (simp add: checkType_def)
qed

section \<open>What checkDefault counts\<close>

text \<open>
  The value at a path of field selections and dereferences, and the fields that the path crosses. The
  value that \<open>checkDefault\<close> is given has depth 1, so that it looks at paths of length two at most.
\<close>

datatype sel = Sel nat | Deref

fun value_at :: "(nat \<Rightarrow> goval) \<Rightarrow> goval \<Rightarrow> sel list \<Rightarrow> goval option" where
  "value_at mem v [] = Some v"
| "value_at mem (VStruct flds) (Sel i # p) = (if i < length flds then value_at mem (snd (snd (flds ! i))) p else None)"
| "value_at mem (VPtr (Some a)) (Deref # p) = value_at mem (mem a) p"
| "value_at mem _ _ = None"

fun crossed :: "(nat \<Rightarrow> goval) \<Rightarrow> goval \<Rightarrow> sel list \<Rightarrow> (string \<times> bool) list" where
  "crossed mem (VStruct flds) (Sel i # p) = (if i < length flds
     then (fst (flds ! i), fst (snd (flds ! i))) # crossed mem (snd (snd (flds ! i))) p else [])"
| "crossed mem (VPtr (Some a)) (Deref # p) = crossed mem (mem a) p"
| "crossed mem _ _ = []"

text \<open>An unexported field hides what is below it; an embedded one only itself.\<close>

definition hidden :: "(nat \<Rightarrow> bool) \<Rightarrow> (string \<times> bool) list \<Rightarrow> bool" where
  "hidden tables fs \<longleftrightarrow> (\<exists>(f, e) \<in> set fs. \<not> capital tables f \<and> \<not> e) \<or> (fs \<noteq> [] \<and> \<not> capital tables (fst (last fs)) \<and> snd (last fs))"

definition basics :: "(nat \<Rightarrow> goval) \<Rightarrow> goval \<Rightarrow> nat \<Rightarrow> sel list set" where
  "basics mem v n = {p. length p \<le> n \<and> (\<exists>t z. value_at mem v p = Some (VBasic t z))}"

definition nondefaults :: "(nat \<Rightarrow> goval) \<Rightarrow> goval \<Rightarrow> nat \<Rightarrow> sel list set" where
  "nondefaults mem v n = {p. length p \<le> n \<and> (\<exists>t. value_at mem v p = Some (VBasic t False))}"

definition ro_after :: "(nat \<Rightarrow> bool) \<Rightarrow> (string \<times> bool) list \<Rightarrow> ro \<Rightarrow> ro" where
  "ro_after tables fs r = fold (\<lambda>(f, e). field_ro tables f e) fs r"

lemma fst_ro_after: "fst (ro_after tables fs r) \<longleftrightarrow> fst r \<or> (\<exists>(f, e) \<in> set fs. \<not> capital tables f \<and> \<not> e)"
  unfolding ro_after_def by (induction fs arbitrary: r) (auto simp: field_ro_def lower_case_iff)

lemma hidden_iff: "hidden tables fs \<longleftrightarrow> restricted (ro_after tables fs (False, False))"
proof (cases fs rule: rev_cases)
  case (snoc gs g)
  then have "snd (ro_after tables fs (False, False)) \<longleftrightarrow> \<not> capital tables (fst g) \<and> snd g"
    by (cases g) (simp add: ro_after_def field_ro_def lower_case_iff)
  then show ?thesis by (simp add: hidden_def restricted_def fst_ro_after snoc)
qed (simp add: hidden_def restricted_def ro_after_def)

lemma value_at_cases:
  "value_at mem v p = Some (VBasic t z) \<longleftrightarrow> (case v of
     VStruct flds \<Rightarrow> (\<exists>i q. p = Sel i # q \<and> i < length flds \<and> value_at mem (snd (snd (flds ! i))) q = Some (VBasic t z))
   | VPtr (Some a) \<Rightarrow> (\<exists>q. p = Deref # q \<and> value_at mem (mem a) q = Some (VBasic t z))
   | VBasic t' z' \<Rightarrow> p = [] \<and> t' = t \<and> z' = z
   | _ \<Rightarrow> False)"
  by (cases "(mem, v, p)" rule: value_at.cases) (auto split: goval.split option.split)

lemma basics_simps:
  "basics mem (VStruct flds) (Suc n) = (\<Union>i<length flds. (#) (Sel i) ` basics mem (snd (snd (flds ! i))) n)"
  "basics mem (VPtr (Some a)) (Suc n) = (#) Deref ` basics mem (mem a) n"
  "basics mem (VStruct flds) 0 = {}" "basics mem (VPtr b) 0 = {}" "basics mem (VPtr None) n = {}"
  "basics mem (VBasic t z) n = {[]}" "basics mem VOtherVal n = {}"
  unfolding basics_def by (subst value_at_cases; force split: option.split)+

lemma nondefaults_simps:
  "nondefaults mem (VStruct flds) (Suc n) = (\<Union>i<length flds. (#) (Sel i) ` nondefaults mem (snd (snd (flds ! i))) n)"
  "nondefaults mem (VPtr (Some a)) (Suc n) = (#) Deref ` nondefaults mem (mem a) n"
  "nondefaults mem (VStruct flds) 0 = {}" "nondefaults mem (VPtr b) 0 = {}" "nondefaults mem (VPtr None) n = {}"
  "nondefaults mem (VBasic t z) n = (if z then {} else {[]})" "nondefaults mem VOtherVal n = {}"
  unfolding nondefaults_def by (subst value_at_cases; force split: option.split)+

lemma nondefaults_finite: "finite (nondefaults mem v n)"
proof (induction n arbitrary: v)
  case 0
  then show ?case by (cases v) (simp_all add: nondefaults_simps)
next
  case (Suc n)
  show ?case
  proof (cases v)
    case (VPtr a)
    then show ?thesis using Suc by (cases a) (simp_all add: nondefaults_simps)
  qed (use Suc in \<open>simp_all add: nondefaults_simps\<close>)
qed

lemma card_nondefaults_struct:
  "card (nondefaults mem (VStruct flds) (Suc n)) = (\<Sum>i<length flds. card (nondefaults mem (snd (snd (flds ! i))) n))"
proof -
  have "card (\<Union>i<length flds. (#) (Sel i) ` nondefaults mem (snd (snd (flds ! i))) n)
      = (\<Sum>i<length flds. card ((#) (Sel i) ` nondefaults mem (snd (snd (flds ! i))) n))"
    by (rule card_UN_disjoint) (auto simp: nondefaults_finite)
  then show ?thesis by (simp add: nondefaults_simps card_image)
qed

text \<open>\<open>n\<close> errors in a row: the counter goes up by \<open>n\<close>, and only the first error of all prints.\<close>

definition counts :: "nat \<Rightarrow> labgob \<Rightarrow> labgob \<Rightarrow> bool" where
  "counts n st st' \<longleftrightarrow> errorCount st' = errorCount st + n \<and> checked st' = checked st
     \<and> length (printed st') = length (printed st) + (if errorCount st = 0 \<and> 0 < n then 1 else 0)"

lemma counts_0 [simp]: "counts 0 st st"
  by (simp add: counts_def)

lemma counts_trans: "counts m st st' \<Longrightarrow> counts n st' st'' \<Longrightarrow> counts (m + n) st st''"
  by (auto simp: counts_def)

lemma counts_warn: "counts (Suc 0) st (warn name t st)"
  by (simp add: counts_def warn_def Let_def)

text \<open>An outcome: a panic exactly if \<open>b\<close>, and otherwise \<open>n\<close> errors.\<close>

definition outcome :: "bool \<Rightarrow> nat \<Rightarrow> labgob \<Rightarrow> labgob option \<Rightarrow> bool" where
  "outcome b n st res \<longleftrightarrow> (case res of None \<Rightarrow> b | Some st' \<Rightarrow> \<not> b \<and> counts n st st')"

lemma outcome_fold:
  "(\<And>x st. x \<in> set xs \<Longrightarrow> outcome (b x) (n x) st (f x st)) \<Longrightarrow>
     outcome (\<exists>x \<in> set xs. b x) (sum_list (map n xs)) st (fold (\<lambda>x res. case res of None \<Rightarrow> None | Some st \<Rightarrow> f x st) xs (Some st))"
proof (induction xs arbitrary: st)
  case (Cons x xs)
  have none: "fold (\<lambda>x res. case res of None \<Rightarrow> None | Some st \<Rightarrow> f x st) ys None = None" for ys by (induction ys) simp_all
  have x: "outcome (b x) (n x) st (f x st)" by (rule Cons.prems) simp
  show ?case
  proof (cases "f x st")
    case None
    then show ?thesis using x none by (simp add: outcome_def)
  next
    case (Some st')
    have "outcome (\<exists>x \<in> set xs. b x) (sum_list (map n xs)) st' (fold (\<lambda>x res. case res of None \<Rightarrow> None | Some st \<Rightarrow> f x st) xs (Some st'))"
      by (rule Cons.IH) (simp add: Cons.prems)
    then show ?thesis using x Some by (auto simp: outcome_def intro: counts_trans split: option.splits)
  qed
qed (simp add: outcome_def)

definition panics :: "(nat \<Rightarrow> bool) \<Rightarrow> (nat \<Rightarrow> goval) \<Rightarrow> goval \<Rightarrow> ro \<Rightarrow> nat \<Rightarrow> bool" where
  "panics tables mem v r n \<longleftrightarrow> (\<exists>p \<in> basics mem v n. restricted (ro_after tables (crossed mem v p) r))"

lemma panics_simps:
  "panics tables mem (VStruct flds) r (Suc n) \<longleftrightarrow> (\<exists>(f, e, v) \<in> set flds. panics tables mem v (field_ro tables f e r) n)"
  "panics tables mem (VPtr (Some a)) r (Suc n) \<longleftrightarrow> panics tables mem (mem a) r n"
  "\<not> panics tables mem (VStruct flds) r 0" "\<not> panics tables mem (VPtr b) r 0" "\<not> panics tables mem (VPtr None) r n"
  "panics tables mem (VBasic t z) r n \<longleftrightarrow> restricted r" "\<not> panics tables mem VOtherVal r n"
proof -
  have "panics tables mem (VStruct flds) r (Suc n)
      \<longleftrightarrow> (\<exists>i<length flds. panics tables mem (snd (snd (flds ! i))) (field_ro tables (fst (flds ! i)) (fst (snd (flds ! i))) r) n)"
    by (auto simp: panics_def basics_simps ro_after_def)
  also have "\<dots> \<longleftrightarrow> (\<exists>(f, e, v) \<in> set flds. panics tables mem v (field_ro tables f e r) n)"
    by (fastforce simp: in_set_conv_nth)
  finally show "panics tables mem (VStruct flds) r (Suc n) \<longleftrightarrow> (\<exists>(f, e, v) \<in> set flds. panics tables mem v (field_ro tables f e r) n)" .
qed (simp_all add: panics_def basics_simps ro_after_def)

lemma checkDefault1_deep: "depth > 3 \<Longrightarrow> checkDefault1 tables mem v r depth name st = Some st"
  by (subst checkDefault1.simps) simp

lemma checkDefault1_struct:
  "depth \<le> 3 \<Longrightarrow> checkDefault1 tables mem (VStruct flds) r depth name st =
     fold (\<lambda>x res. case res of None \<Rightarrow> None | Some st \<Rightarrow> (\<lambda>(f, e, v). checkDefault1 tables mem v (field_ro tables f e r) (depth + 1)
        (if name \<noteq> [] then name @ ''.'' @ f else f)) x st) flds (Some st)"
  by (subst checkDefault1.simps) (simp, rule fold_cong, auto)

lemma fold_ignore: "(\<And>x st. x \<in> set xs \<Longrightarrow> f x st = Some st) \<Longrightarrow>
    fold (\<lambda>x res. case res of None \<Rightarrow> None | Some st \<Rightarrow> f x st) xs (Some st) = Some st"
  by (induction xs) simp_all

lemma checkDefault1_outcome:
  "depth + n = 3 \<Longrightarrow> outcome (panics tables mem v r n) (card (nondefaults mem v n)) st (checkDefault1 tables mem v r depth name st)"
proof (induction n arbitrary: v r depth name st)
  case 0
  then show ?case
  proof (cases v)
    case (VStruct flds)
    have "fold (\<lambda>x res. case res of None \<Rightarrow> None | Some st \<Rightarrow> (\<lambda>(f, e, v). checkDefault1 tables mem v (field_ro tables f e r) (depth + 1)
        (if name \<noteq> [] then name @ ''.'' @ f else f)) x st) flds (Some st) = Some st"
      using 0 by (intro fold_ignore) (auto simp: checkDefault1_deep)
    moreover have "depth \<le> 3" using 0 by simp
    ultimately have "checkDefault1 tables mem v r depth name st = Some st" by (simp only: VStruct checkDefault1_struct)
    then show ?thesis using VStruct by (simp add: outcome_def panics_simps nondefaults_simps)
  next
    case (VPtr a)
    then show ?thesis using 0
      by (subst checkDefault1.simps, cases a) (simp_all add: outcome_def panics_simps nondefaults_simps checkDefault1_deep)
  next
    case (VBasic t z)
    then show ?thesis using 0 by (subst checkDefault1.simps) (simp add: outcome_def panics_simps nondefaults_simps counts_warn)
  next
    case VOtherVal
    then show ?thesis using 0 by (subst checkDefault1.simps) (simp add: outcome_def panics_simps nondefaults_simps)
  qed
next
  case (Suc n)
  show ?case
  proof (cases v)
    case (VStruct flds)
    let ?f = "\<lambda>(f, e, v). checkDefault1 tables mem v (field_ro tables f e r) (depth + 1) (if name \<noteq> [] then name @ ''.'' @ f else f)"
    have "outcome (\<exists>x \<in> set flds. case x of (f, e, v) \<Rightarrow> panics tables mem v (field_ro tables f e r) n)
        (sum_list (map (\<lambda>x. card (nondefaults mem (snd (snd x)) n)) flds)) st
        (fold (\<lambda>x res. case res of None \<Rightarrow> None | Some st \<Rightarrow> ?f x st) flds (Some st))"
      using Suc.prems by (intro outcome_fold) (auto intro!: Suc.IH)
    moreover have "sum_list (map (\<lambda>x. card (nondefaults mem (snd (snd x)) n)) flds) = card (nondefaults mem v (Suc n))"
      by (simp add: VStruct card_nondefaults_struct sum_list_sum_nth atLeast0LessThan)
    moreover have "depth \<le> 3" using Suc.prems by simp
    ultimately show ?thesis by (simp only: VStruct checkDefault1_struct panics_simps)
  next
    case (VPtr a)
    then show ?thesis using Suc
      by (subst checkDefault1.simps, cases a) (simp_all add: outcome_def panics_simps nondefaults_simps card_image)
  next
    case (VBasic t z)
    then show ?thesis using Suc.prems by (subst checkDefault1.simps) (simp add: outcome_def panics_simps nondefaults_simps counts_warn)
  next
    case VOtherVal
    then show ?thesis using Suc.prems by (subst checkDefault1.simps) (simp add: outcome_def panics_simps nondefaults_simps)
  qed
qed

text \<open>
  (C32) Decoding into a variable that is not fresh is counted: \<open>checkDefault\<close> adds to the error count
  the number of paths of at most two field selections and dereferences, also through cyclic pointers,
  that lead to a basic value other than zero, and prints a warning only if there was no error before
  it. It panics exactly if one of these paths leads to a basic value, zero or not, that an unexported
  field hides: below a field that is not embedded, or in an embedded field itself.
\<close>

theorem checkDefault_counts:
  "case checkDefault tables mem (Some v) st of
     None \<Rightarrow> \<exists>p t z. length p \<le> 2 \<and> value_at mem v p = Some (VBasic t z) \<and> hidden tables (crossed mem v p)
   | Some st' \<Rightarrow> (\<nexists>p t z. length p \<le> 2 \<and> value_at mem v p = Some (VBasic t z) \<and> hidden tables (crossed mem v p))
      \<and> errorCount st' = errorCount st + card {p. length p \<le> 2 \<and> (\<exists>t. value_at mem v p = Some (VBasic t False))}
      \<and> length (printed st') = length (printed st) + (if errorCount st = 0 \<and> errorCount st' \<noteq> 0 then 1 else 0)"
proof -
  have "outcome (panics tables mem v (False, False) 2) (card (nondefaults mem v 2)) st (checkDefault tables mem (Some v) st)"
    unfolding checkDefault_def by (simp add: checkDefault1_outcome)
  moreover have "panics tables mem v (False, False) 2
      \<longleftrightarrow> (\<exists>p t z. length p \<le> 2 \<and> value_at mem v p = Some (VBasic t z) \<and> hidden tables (crossed mem v p))"
    by (auto simp: panics_def basics_def hidden_iff)
  ultimately show ?thesis unfolding outcome_def counts_def nondefaults_def by (auto split: option.splits)
qed

end
