(* ===== verification/LabRpc.thy ===== *)
theory LabRpc
  imports Prelude "HOL-Library.Word" "HOL-Library.AList"
begin

text \<open>
  The simulated network \<open>labrpc/labrpc.go\<close>. Servers, and the objects whose methods handle calls,
  are known by address, because the code compares server pointers. Each call in progress is a
  record with the state of \<open>processReq\<close> and that of the goroutine that runs the handler. Random
  choices and timers are part of the events. \<open>encoding/gob\<close> is an argument: how values are encoded
  and decoded, by type. The counters are machine words.
\<close>

section \<open>Messages, services and servers\<close>

datatype name = NInt int | NStr string

record reqMsg =
  endname :: name
  svcMeth :: string
  argsType :: nat
  args :: string

record replyMsg =
  ok :: bool
  reply :: string

definition no_reply :: replyMsg where
  "no_reply = \<lparr>ok = False, reply = []\<rparr>"

text \<open>
  Values, by type: \<open>type_of\<close> is \<open>reflect.TypeOf\<close>, \<open>dec t\<close> reads a value of type \<open>t\<close>, and \<open>zero_of t\<close> is
  what \<open>reflect.New\<close> gives.
\<close>

record 'v codec =
  type_of :: "'v \<Rightarrow> nat"
  enc :: "'v \<Rightarrow> string"
  dec :: "nat \<Rightarrow> string \<Rightarrow> 'v option"
  zero_of :: "nat \<Rightarrow> 'v"

text \<open>
  A method as \<open>reflect.Method\<close> describes it, with the types of its argument and of its reply. Its
  function maps the receiver, the argument and the fresh reply to the new receiver and reply.
\<close>

record ('s, 'v) rmethod =
  mName :: string
  mPkgPath :: string
  mNumIn :: nat
  mArgType :: nat
  mReplyIsPtr :: bool
  mReplyType :: nat
  mNumOut :: nat
  mFunc :: "'s \<Rightarrow> 'v \<Rightarrow> 'v \<Rightarrow> 's \<times> 'v"

record ('s, 'v) Service =
  svcName :: string
  rcvr :: nat
  methods :: "(string \<times> ('s, 'v) rmethod) list"

record ('s, 'v) Server =
  services :: "(string \<times> ('s, 'v) Service) list"
  srvCount :: int

definition handler_shape :: "('s, 'v) rmethod \<Rightarrow> bool" where
  "handler_shape m \<longleftrightarrow> \<not> (mPkgPath m \<noteq> [] \<or> mNumIn m \<noteq> 3 \<or> \<not> mReplyIsPtr m \<or> mNumOut m \<noteq> 0)"

definition MakeService :: "nat \<Rightarrow> string \<Rightarrow> ('s, 'v) rmethod list \<Rightarrow> ('s, 'v) Service" where
  "MakeService obj tname ms = \<lparr>svcName = tname, rcvr = obj,
     methods = fold (\<lambda>m al. if handler_shape m then AList.update (mName m) m al else al) ms []\<rparr>"

definition MakeServer :: "('s, 'v) Server" where
  "MakeServer = \<lparr>services = [], srvCount = 0\<rparr>"

definition AddService :: "('s, 'v) Server \<Rightarrow> ('s, 'v) Service \<Rightarrow> ('s, 'v) Server" where
  "AddService rs svc = rs\<lparr>services := AList.update (svcName svc) svc (services rs)\<rparr>"

definition Server_GetCount :: "('s, 'v) Server \<Rightarrow> int" where
  "Server_GetCount rs = srvCount rs"

section \<open>Dispatch\<close>

text \<open>\<open>strings.LastIndex(s, ".")\<close> and the two slices around it; without a dot the slice panics.\<close>

definition split_name :: "string \<Rightarrow> (string \<times> string) option" where
  "split_name s = (if CHR ''.'' \<notin> set s then None
     else let suffix = rev (takeWhile (\<lambda>c. c \<noteq> CHR ''.'') (rev s)) in
       Some (take (length s - length suffix - 1) s, suffix))"

text \<open>
  \<open>Service.dispatch\<close>: the error of decoding the argument is dropped, the call through \<open>reflect\<close>
  panics if the argument does not have the declared type.
\<close>

definition Service_dispatch ::
  "'v codec \<Rightarrow> ('s, 'v) Service \<Rightarrow> string \<Rightarrow> reqMsg \<Rightarrow> (nat \<Rightarrow> 's) \<Rightarrow> fatal + (nat \<Rightarrow> 's) \<times> replyMsg" where
  "Service_dispatch C svc meth req objs = (case map_of (methods svc) meth of
     None \<Rightarrow> Inl (Fatal (''labrpc.Service.dispatch(): unknown method '' @ meth))
   | Some m \<Rightarrow> if mArgType m \<noteq> argsType req then Inl (Panic ''reflect: Call using a value of another type'')
       else let a = (case dec C (argsType req) (args req) of None \<Rightarrow> zero_of C (argsType req) | Some a \<Rightarrow> a);
                (s', r) = mFunc m (objs (rcvr svc)) a (zero_of C (mReplyType m)) in
         Inr (objs(rcvr svc := s'), \<lparr>ok = True, reply = enc C r\<rparr>))"

definition Server_dispatch ::
  "'v codec \<Rightarrow> ('s, 'v) Server \<Rightarrow> reqMsg \<Rightarrow> (nat \<Rightarrow> 's) \<Rightarrow> ('s, 'v) Server \<times> (fatal + (nat \<Rightarrow> 's) \<times> replyMsg)" where
  "Server_dispatch C rs req objs = (let rs' = rs\<lparr>srvCount := srvCount rs + 1\<rparr> in
     (rs', case split_name (svcMeth req) of
        None \<Rightarrow> Inl (Panic ''slice bounds out of range'')
      | Some (serviceName, methodName) \<Rightarrow> (case map_of (services rs) serviceName of
          None \<Rightarrow> Inl (Fatal (''labrpc.Server.dispatch(): unknown service '' @ serviceName))
        | Some svc \<Rightarrow> Service_dispatch C svc methodName req objs)))"

section \<open>The network\<close>

text \<open>The maps by name; a missing entry of \<open>enabled\<close> is false, one of \<open>connections\<close> or \<open>servers\<close> nil.\<close>

record Network =
  reliable :: bool
  longDelays :: bool
  longReordering :: bool
  ends :: "name list"
  enabled :: "name \<Rightarrow> bool"
  servers :: "name \<Rightarrow> nat option"
  connections :: "name \<Rightarrow> name option"
  netDone :: bool
  netCount :: "32 word"
  netBytes :: "64 word"

definition MakeNetwork :: Network where
  "MakeNetwork = \<lparr>reliable = True, longDelays = False, longReordering = False, ends = [], enabled = (\<lambda>_. False),
     servers = (\<lambda>_. None), connections = (\<lambda>_. None), netDone = False, netCount = 0, netBytes = 0\<rparr>"

text \<open>Closing the channel \<open>done\<close> twice panics.\<close>

definition Cleanup :: "Network \<Rightarrow> fatal + Network" where
  "Cleanup rn = (if netDone rn then Inl (Panic ''close of closed channel'') else Inr (rn\<lparr>netDone := True\<rparr>))"

definition Reliable :: "bool \<Rightarrow> Network \<Rightarrow> Network" where
  "Reliable yes rn = rn\<lparr>reliable := yes\<rparr>"

definition LongReordering :: "bool \<Rightarrow> Network \<Rightarrow> Network" where
  "LongReordering yes rn = rn\<lparr>longReordering := yes\<rparr>"

definition LongDelays :: "bool \<Rightarrow> Network \<Rightarrow> Network" where
  "LongDelays yes rn = rn\<lparr>longDelays := yes\<rparr>"

definition MakeEnd :: "name \<Rightarrow> Network \<Rightarrow> fatal + Network" where
  "MakeEnd e rn = (if e \<in> set (ends rn) then Inl (Fatal ''MakeEnd: already exists'')
     else Inr (rn\<lparr>ends := e # ends rn, enabled := (enabled rn)(e := False), connections := (connections rn)(e := None)\<rparr>))"

definition AddServer :: "name \<Rightarrow> nat \<Rightarrow> Network \<Rightarrow> Network" where
  "AddServer n rs rn = rn\<lparr>servers := (servers rn)(n := Some rs)\<rparr>"

definition DeleteServer :: "name \<Rightarrow> Network \<Rightarrow> Network" where
  "DeleteServer n rn = rn\<lparr>servers := (servers rn)(n := None)\<rparr>"

definition Connect :: "name \<Rightarrow> name \<Rightarrow> Network \<Rightarrow> Network" where
  "Connect e n rn = rn\<lparr>connections := (connections rn)(e := Some n)\<rparr>"

definition Enable :: "name \<Rightarrow> bool \<Rightarrow> Network \<Rightarrow> Network" where
  "Enable e b rn = rn\<lparr>enabled := (enabled rn)(e := b)\<rparr>"

definition GetTotalCount :: "Network \<Rightarrow> int" where
  "GetTotalCount rn = sint (netCount rn)"

definition GetTotalBytes :: "Network \<Rightarrow> int" where
  "GetTotalBytes rn = sint (netBytes rn)"

text \<open>\<open>GetCount\<close> of a name without a server locks the mutex of a nil pointer.\<close>

definition GetCount :: "name \<Rightarrow> (nat \<Rightarrow> ('s, 'v) Server) \<Rightarrow> Network \<Rightarrow> fatal + int" where
  "GetCount n srvs rn = (case servers rn n of None \<Rightarrow> Inl (Panic ''nil pointer dereference'')
     | Some a \<Rightarrow> Inr (Server_GetCount (srvs a)))"

record endinfo =
  iServer :: "(name \<times> nat) option"
  iReliable :: bool
  iReordering :: bool

text \<open>\<open>readEndnameInfo\<close>: the server only if the end is enabled, connected, and the server is not nil.\<close>

definition readEndnameInfo :: "name \<Rightarrow> Network \<Rightarrow> endinfo" where
  "readEndnameInfo e rn = \<lparr>iServer = (if \<not> enabled rn e then None
       else case connections rn e of None \<Rightarrow> None
         | Some n \<Rightarrow> (case servers rn n of None \<Rightarrow> None | Some a \<Rightarrow> Some (n, a))),
     iReliable = reliable rn, iReordering = longReordering rn\<rparr>"

definition isServerDead :: "name \<Rightarrow> name \<Rightarrow> nat \<Rightarrow> Network \<Rightarrow> bool" where
  "isServerDead e n a rn \<longleftrightarrow> \<not> enabled rn e \<or> servers rn n \<noteq> Some a"

section \<open>Calls in progress\<close>

datatype handler_state = NotStarted | Started nat | Returned replyMsg

text \<open>
  \<open>Sent\<close>: offered to the network; \<open>Accepted\<close>: \<open>processReq\<close> has started; \<open>Unreachable\<close>: the timer of
  its else branch; \<open>Waiting\<close>: the select loop; \<open>Checking\<close>: after the loop, with the reply if there
  was one; \<open>Delayed\<close>: the reply waits in a timer; \<open>Answered\<close>: the reply has been sent to the caller;
  \<open>Refused\<close>: the network was destroyed before the request was sent.
\<close>

datatype proc_state =
    Sent | Accepted | Unreachable | Waiting endinfo | Checking endinfo "replyMsg option"
  | Delayed replyMsg | Answered replyMsg | Refused

record rpc =
  rpcReq :: reqMsg
  rpcState :: proc_state
  rpcHandler :: handler_state

record ('s, 'v) world =
  net :: Network
  srvs :: "nat \<Rightarrow> ('s, 'v) Server"
  objs :: "nat \<Rightarrow> 's"
  rpcs :: "rpc list"
  loopAlive :: bool
  crashed :: "fatal option"

text \<open>The calls of a test program on the network.\<close>

datatype net_op =
    OpReliable bool | OpLongReordering bool | OpLongDelays bool | OpCleanup | OpMakeEnd name
  | OpAddServer name nat | OpDeleteServer name | OpConnect name name | OpEnable name bool

fun net_op_exec :: "net_op \<Rightarrow> Network \<Rightarrow> fatal + Network" where
  "net_op_exec (OpReliable b) rn = Inr (Reliable b rn)"
| "net_op_exec (OpLongReordering b) rn = Inr (LongReordering b rn)"
| "net_op_exec (OpLongDelays b) rn = Inr (LongDelays b rn)"
| "net_op_exec OpCleanup rn = Cleanup rn"
| "net_op_exec (OpMakeEnd e) rn = MakeEnd e rn"
| "net_op_exec (OpAddServer n a) rn = Inr (AddServer n a rn)"
| "net_op_exec (OpDeleteServer n) rn = Inr (DeleteServer n rn)"
| "net_op_exec (OpConnect e n) rn = Inr (Connect e n rn)"
| "net_op_exec (OpEnable e b) rn = Inr (Enable e b rn)"

datatype ('s, 'v) net_event =
    Call name string 'v
  | Accept nat
  | Refuse nat
  | LoopStop
  | Read nat bool
  | TimeOut nat
  | Handle nat
  | Receive nat
  | Tick nat
  | Finish nat bool bool
  | Release nat
  | Admin net_op
  | SetServer nat "('s, 'v) Server"

definition new_req :: "'v codec \<Rightarrow> name \<Rightarrow> string \<Rightarrow> 'v \<Rightarrow> reqMsg" where
  "new_req C e meth v = \<lparr>endname = e, svcMeth = meth, argsType = type_of C v, args = enc C v\<rparr>"

definition set_state :: "nat \<Rightarrow> proc_state \<Rightarrow> ('s, 'v) world \<Rightarrow> ('s, 'v) world" where
  "set_state k p w = w\<lparr>rpcs := (rpcs w)[k := (rpcs w ! k)\<lparr>rpcState := p\<rparr>]\<rparr>"

definition set_handler :: "nat \<Rightarrow> handler_state \<Rightarrow> ('s, 'v) world \<Rightarrow> ('s, 'v) world" where
  "set_handler k h w = w\<lparr>rpcs := (rpcs w)[k := (rpcs w ! k)\<lparr>rpcHandler := h\<rparr>]\<rparr>"

definition add_bytes :: "nat \<Rightarrow> ('s, 'v) world \<Rightarrow> ('s, 'v) world" where
  "add_bytes n w = w\<lparr>net := (net w)\<lparr>netBytes := netBytes (net w) + of_nat n\<rparr>\<rparr>"

definition accept :: "nat \<Rightarrow> ('s, 'v) world \<Rightarrow> ('s, 'v) world" where
  "accept k w = set_state k Accepted (add_bytes (length (args (rpcReq (rpcs w ! k))))
     (w\<lparr>net := (net w)\<lparr>netCount := netCount (net w) + 1\<rparr>\<rparr>))"

definition process_read :: "nat \<Rightarrow> bool \<Rightarrow> ('s, 'v) world \<Rightarrow> ('s, 'v) world" where
  "process_read k lose w = (let info = readEndnameInfo (endname (rpcReq (rpcs w ! k))) (net w) in
     case iServer info of
       None \<Rightarrow> set_state k Unreachable w
     | Some (n, a) \<Rightarrow> if \<not> iReliable info \<and> lose then set_state k (Answered no_reply) w
         else set_handler k (Started a) (set_state k (Waiting info) w))"

definition run_handler :: "'v codec \<Rightarrow> nat \<Rightarrow> nat \<Rightarrow> ('s, 'v) world \<Rightarrow> ('s, 'v) world" where
  "run_handler C k a w = (case Server_dispatch C (srvs w a) (rpcReq (rpcs w ! k)) (objs w) of
     (rs', Inl e) \<Rightarrow> w\<lparr>srvs := (srvs w)(a := rs'), crashed := Some e\<rparr>
   | (rs', Inr (objs', r)) \<Rightarrow> set_handler k (Returned r) (w\<lparr>srvs := (srvs w)(a := rs'), objs := objs'\<rparr>))"

definition process_finish :: "nat \<Rightarrow> endinfo \<Rightarrow> replyMsg option \<Rightarrow> bool \<Rightarrow> bool \<Rightarrow> ('s, 'v) world \<Rightarrow> ('s, 'v) world" where
  "process_finish k info ro lose delay w = (case (iServer info, ro) of
     (Some (n, a), Some r) \<Rightarrow>
       if isServerDead (endname (rpcReq (rpcs w ! k))) n a (net w) then set_state k (Answered no_reply) w
       else if \<not> iReliable info \<and> lose then set_state k (Answered no_reply) w
       else if iReordering info \<and> delay then set_state k (Delayed r) w
       else set_state k (Answered r) (add_bytes (length (reply r)) w)
   | _ \<Rightarrow> set_state k (Answered no_reply) w)"

definition tick :: "nat \<Rightarrow> endinfo \<Rightarrow> ('s, 'v) world \<Rightarrow> ('s, 'v) world" where
  "tick k info w = (case iServer info of
     Some (n, a) \<Rightarrow> if isServerDead (endname (rpcReq (rpcs w ! k))) n a (net w)
       then set_state k (Checking info None) w else w
   | None \<Rightarrow> w)"

definition rpc_at :: "('s, 'v) world \<Rightarrow> nat \<Rightarrow> rpc option" where
  "rpc_at w k = (if k < length (rpcs w) then Some (rpcs w ! k) else None)"

definition state_at :: "('s, 'v) world \<Rightarrow> nat \<Rightarrow> proc_state option" where
  "state_at w k = map_option rpcState (rpc_at w k)"

definition handler_at :: "('s, 'v) world \<Rightarrow> nat \<Rightarrow> handler_state option" where
  "handler_at w k = map_option rpcHandler (rpc_at w k)"

fun net_enabled :: "'v codec \<Rightarrow> ('s, 'v) world \<Rightarrow> ('s, 'v) net_event \<Rightarrow> ('s, 'v) world option" where
  "net_enabled C w (Call e meth v) =
     Some (w\<lparr>rpcs := rpcs w @ [\<lparr>rpcReq = new_req C e meth v, rpcState = Sent, rpcHandler = NotStarted\<rparr>]\<rparr>)"
| "net_enabled C w (Accept k) = (if state_at w k = Some Sent \<and> loopAlive w then Some (accept k w) else None)"
| "net_enabled C w (Refuse k) = (if state_at w k = Some Sent \<and> netDone (net w) then Some (set_state k Refused w) else None)"
| "net_enabled C w LoopStop = (if netDone (net w) then Some (w\<lparr>loopAlive := False\<rparr>) else None)"
| "net_enabled C w (Read k lose) = (if state_at w k = Some Accepted then Some (process_read k lose w) else None)"
| "net_enabled C w (TimeOut k) = (if state_at w k = Some Unreachable then Some (set_state k (Answered no_reply) w) else None)"
| "net_enabled C w (Handle k) = (case handler_at w k of Some (Started a) \<Rightarrow> Some (run_handler C k a w) | _ \<Rightarrow> None)"
| "net_enabled C w (Receive k) = (case (state_at w k, handler_at w k) of
     (Some (Waiting info), Some (Returned r)) \<Rightarrow> Some (set_state k (Checking info (Some r)) w) | _ \<Rightarrow> None)"
| "net_enabled C w (Tick k) = (case state_at w k of Some (Waiting info) \<Rightarrow> Some (tick k info w) | _ \<Rightarrow> None)"
| "net_enabled C w (Finish k lose delay) = (case state_at w k of
     Some (Checking info ro) \<Rightarrow> Some (process_finish k info ro lose delay w) | _ \<Rightarrow> None)"
| "net_enabled C w (Release k) = (case state_at w k of
     Some (Delayed r) \<Rightarrow> Some (set_state k (Answered r) (add_bytes (length (reply r)) w)) | _ \<Rightarrow> None)"
| "net_enabled C w (Admin f) = (case net_op_exec f (net w) of Inl e \<Rightarrow> Some (w\<lparr>crashed := Some e\<rparr>) | Inr rn \<Rightarrow> Some (w\<lparr>net := rn\<rparr>))"
| "net_enabled C w (SetServer a rs) = Some (w\<lparr>srvs := (srvs w)(a := rs)\<rparr>)"

text \<open>Nothing happens any more after a crash.\<close>

definition net_exec :: "'v codec \<Rightarrow> ('s, 'v) world \<Rightarrow> ('s, 'v) net_event \<Rightarrow> ('s, 'v) world option" where
  "net_exec C w e = (if crashed w = None then net_enabled C w e else None)"

text \<open>What \<open>ClientEnd.Call\<close> returns: \<open>None\<close> while it waits, then whether there was a reply, and the reply
  of type \<open>t\<close>, or the fatal error of a reply that cannot be decoded.\<close>

definition call_result :: "'v codec \<Rightarrow> nat \<Rightarrow> proc_state \<Rightarrow> (fatal + 'v option) option" where
  "call_result C t p = (case p of
     Answered r \<Rightarrow> Some (if ok r then (case dec C t (reply r) of
         None \<Rightarrow> Inl (Fatal ''ClientEnd.Call(): decode reply'') | Some v \<Rightarrow> Inr (Some v)) else Inr None)
   | Refused \<Rightarrow> Some (Inr None)
   | _ \<Rightarrow> None)"

end
