(* ===== verification/LabRpcProps.thy ===== *)
theory LabRpcProps
  imports LabRpc
begin

text \<open>
  What the simulated network guarantees: a call that returns true was executed exactly once and
  returns what the handler computed; a call that has no reply yet when its server is deleted never returns true; on a
  reliable network with a live server a call returns true; and dispatch fails exactly on calls that
  are not well typed.
\<close>

section \<open>Names and tables\<close>

lemma split_name_Some:
  "split_name s = Some (x, y) \<longleftrightarrow> s = x @ CHR ''.'' # y \<and> CHR ''.'' \<notin> set y"
proof
  let ?P = "\<lambda>c. c \<noteq> CHR ''.''"
  assume a: "split_name s = Some (x, y)"
  then have y: "y = rev (takeWhile ?P (rev s))" and x: "x = take (length s - length y - 1) s" and d: "CHR ''.'' \<in> set s"
    by (auto simp: split_name_def Let_def split: if_splits)
  obtain z where z: "dropWhile ?P (rev s) = CHR ''.'' # z"
    using d by (cases "dropWhile ?P (rev s)") (auto simp: dropWhile_eq_Nil_conv dest!: dropWhile_eq_Cons_conv [THEN iffD1])
  have "rev s = rev y @ CHR ''.'' # z" using takeWhile_dropWhile_id [of ?P "rev s"] y z by simp
  then have s: "s = rev z @ CHR ''.'' # y" by (metis append.assoc append_Cons append_Nil rev.simps(2) rev_append rev_rev_ident)
  then have "x = rev z" using x by simp
  moreover have "CHR ''.'' \<notin> set y" unfolding y by (auto dest: set_takeWhileD)
  ultimately show "s = x @ CHR ''.'' # y \<and> CHR ''.'' \<notin> set y" using s by simp
next
  assume a: "s = x @ CHR ''.'' # y \<and> CHR ''.'' \<notin> set y"
  then have "takeWhile (\<lambda>c. c \<noteq> CHR ''.'') (rev s) = rev y"
    using takeWhile_append2 [of "rev y" "\<lambda>c. c \<noteq> CHR ''.''" "CHR ''.'' # rev x"] by auto
  then show "split_name s = Some (x, y)" using a by (simp add: split_name_def Let_def)
qed

lemma method_table:
  "map_of (fold (\<lambda>m al. if handler_shape m then AList.update (mName m) m al else al) ms al) n = Some m
    \<Longrightarrow> map_of al n = Some m \<or> m \<in> set ms \<and> handler_shape m \<and> mName m = n"
proof (induction ms arbitrary: al)
  case (Cons x ms)
  let ?al = "if handler_shape x then AList.update (mName x) x al else al"
  have "map_of ?al n = Some m \<or> m \<in> set ms \<and> handler_shape m \<and> mName m = n" using Cons.IH [of ?al] Cons.prems by simp
  then show ?case by (auto simp: update_conv' split: if_splits)
qed simp

lemma MakeService_methods:
  "map_of (methods (MakeService obj t ms)) n = Some m \<Longrightarrow> m \<in> set ms \<and> handler_shape m \<and> mName m = n"
  using method_table [of ms "[]" n m] by (simp add: MakeService_def)

section \<open>The handler contract\<close>

text \<open>
  \<open>Q meth a r\<close> holds of what every handler of the server replies, whatever state its receiver is
  in: \<open>r\<close> is the reply to the argument \<open>a\<close> of the method \<open>meth\<close>.
\<close>

definition server_respects :: "'v codec \<Rightarrow> (string \<Rightarrow> 'v \<Rightarrow> 'v \<Rightarrow> bool) \<Rightarrow> ('s, 'v) Server \<Rightarrow> bool" where
  "server_respects C Q rs \<longleftrightarrow> (\<forall>sn svc mn m s a. map_of (services rs) sn = Some svc \<longrightarrow> map_of (methods svc) mn = Some m
     \<longrightarrow> Q (sn @ CHR ''.'' # mn) a (snd (mFunc m s a (zero_of C (mReplyType m)))))"

definition codec_ok :: "'v codec \<Rightarrow> bool" where
  "codec_ok C \<longleftrightarrow> (\<forall>v. dec C (type_of C v) (enc C v) = Some v)"

definition valid_reply :: "'v codec \<Rightarrow> (string \<Rightarrow> 'v \<Rightarrow> 'v \<Rightarrow> bool) \<Rightarrow> reqMsg \<Rightarrow> replyMsg \<Rightarrow> bool" where
  "valid_reply C Q req r \<longleftrightarrow> ok r \<and> (\<exists>v. reply r = enc C v
     \<and> Q (svcMeth req) (case dec C (argsType req) (args req) of None \<Rightarrow> zero_of C (argsType req) | Some a \<Rightarrow> a) v)"

lemma Server_dispatch_valid:
  assumes "server_respects C Q rs" and "Server_dispatch C rs req ob = (rs', Inr (ob', r))"
  shows "valid_reply C Q req r" and "services rs' = services rs"
proof -
  obtain sn mn svc where n: "split_name (svcMeth req) = Some (sn, mn)" "map_of (services rs) sn = Some svc"
    "Service_dispatch C svc mn req ob = Inr (ob', r)" "rs' = rs\<lparr>srvCount := srvCount rs + 1\<rparr>"
    using assms(2) by (auto simp: Server_dispatch_def Let_def split: option.splits)
  obtain m where m: "map_of (methods svc) mn = Some m"
    using n(3) by (auto simp: Service_dispatch_def split: option.splits)
  let ?a = "case dec C (argsType req) (args req) of None \<Rightarrow> zero_of C (argsType req) | Some a \<Rightarrow> a"
  have "r = \<lparr>ok = True, reply = enc C (snd (mFunc m (ob (rcvr svc)) ?a (zero_of C (mReplyType m))))\<rparr>"
    using n(3) m by (auto simp: Service_dispatch_def Let_def case_prod_beta split: if_splits)
  moreover have "svcMeth req = sn @ CHR ''.'' # mn" using n(1) by (simp add: split_name_Some)
  ultimately show "valid_reply C Q req r" using assms(1) n(2) m unfolding server_respects_def valid_reply_def by auto
  show "services rs' = services rs" using n(4) by simp
qed

section \<open>Runs\<close>

fun net_run :: "'v codec \<Rightarrow> ('s, 'v) world \<Rightarrow> ('s, 'v) net_event list \<Rightarrow> ('s, 'v) world option" where
  "net_run C w [] = Some w"
| "net_run C w (e # es) = Option.bind (net_exec C w e) (\<lambda>w'. net_run C w' es)"

lemma net_run_append: "net_run C w (es @ fs) = Option.bind (net_run C w es) (\<lambda>w'. net_run C w' fs)"
  by (induction es arbitrary: w) simp_all

lemma net_run_snocE:
  assumes "net_run C w (es @ [e]) = Some w'"
  obtains u where "net_run C w es = Some u" and "crashed u = None" and "net_enabled C u e = Some w'"
  using assms by (auto simp: net_run_append net_exec_def bind_eq_Some_conv split: if_splits)

text \<open>The calls that a run makes, in order: the \<open>k\<close>-th is the request \<open>k\<close>.\<close>

fun calls :: "('s, 'v) net_event list \<Rightarrow> (name \<times> string \<times> 'v) list" where
  "calls [] = []"
| "calls (Call e meth v # es) = (e, meth, v) # calls es"
| "calls (_ # es) = calls es"

definition handles :: "nat \<Rightarrow> ('s, 'v) net_event list \<Rightarrow> nat" where
  "handles k es = length (filter (\<lambda>e. case e of Handle j \<Rightarrow> j = k | _ \<Rightarrow> False) es)"

fun sets_ok :: "('s, 'v) net_event list \<Rightarrow> (('s, 'v) Server \<Rightarrow> bool) \<Rightarrow> bool" where
  "sets_ok [] P = True"
| "sets_ok (SetServer a rs # es) P = (P rs \<and> sets_ok es P)"
| "sets_ok (_ # es) P = sets_ok es P"

lemma calls_append [simp]: "calls (es @ fs) = calls es @ calls fs"
  by (induction es rule: calls.induct) simp_all

lemma sets_ok_append [simp]: "sets_ok (es @ fs) P \<longleftrightarrow> sets_ok es P \<and> sets_ok fs P"
  by (induction es P rule: sets_ok.induct) simp_all

lemma handles_append [simp]: "handles k (es @ fs) = handles k es + handles k fs"
  by (simp add: handles_def)

lemma handles_simps [simp]:
  "handles k [] = 0"
  "handles k (e # es) = (case e of Handle j \<Rightarrow> if j = k then 1 else 0 | _ \<Rightarrow> 0) + handles k es"
  by (simp_all add: handles_def split: net_event.splits)

section \<open>The invariant of a run\<close>

fun returned :: "handler_state \<Rightarrow> bool" where
  "returned (Returned r) = True"
| "returned _ = False"

definition rpc_ok :: "'v codec \<Rightarrow> (string \<Rightarrow> 'v \<Rightarrow> 'v \<Rightarrow> bool) \<Rightarrow> rpc \<Rightarrow> bool" where
  "rpc_ok C Q x \<longleftrightarrow> (\<forall>r. rpcHandler x = Returned r \<longrightarrow> valid_reply C Q (rpcReq x) r) \<and>
     (case rpcState x of
        Checking info ro \<Rightarrow> \<forall>r. ro = Some r \<longrightarrow> rpcHandler x = Returned r
      | Delayed r \<Rightarrow> rpcHandler x = Returned r
      | Answered r \<Rightarrow> ok r \<longrightarrow> rpcHandler x = Returned r
      | Waiting info \<Rightarrow> rpcHandler x \<noteq> NotStarted
      | _ \<Rightarrow> rpcHandler x = NotStarted)"

definition rpc_counted :: "('s, 'v) net_event list \<Rightarrow> bool \<Rightarrow> nat \<Rightarrow> rpc \<Rightarrow> bool" where
  "rpc_counted es alive k x \<longleftrightarrow> handles k es \<le> 1 \<and> (returned (rpcHandler x) \<longrightarrow> handles k es = 1)
     \<and> (alive \<and> \<not> returned (rpcHandler x) \<longrightarrow> handles k es = 0)"

definition net_inv :: "'v codec \<Rightarrow> (string \<Rightarrow> 'v \<Rightarrow> 'v \<Rightarrow> bool) \<Rightarrow> ('s, 'v) net_event list \<Rightarrow> ('s, 'v) world \<Rightarrow> bool" where
  "net_inv C Q es w \<longleftrightarrow> (\<forall>a. server_respects C Q (srvs w a)) \<and> length (rpcs w) = length (calls es)
     \<and> (\<forall>k. k \<ge> length (rpcs w) \<longrightarrow> handles k es = 0)
     \<and> (\<forall>k<length (rpcs w). rpcReq (rpcs w ! k) = (\<lambda>(e, meth, v). new_req C e meth v) (calls es ! k)
          \<and> rpc_ok C Q (rpcs w ! k) \<and> rpc_counted es (crashed w = None) k (rpcs w ! k))"

lemma net_invD:
  assumes "net_inv C Q es w"
  shows "\<And>a. server_respects C Q (srvs w a)" "length (rpcs w) = length (calls es)"
    "\<And>k. k \<ge> length (rpcs w) \<Longrightarrow> handles k es = 0"
    "\<And>k. k < length (rpcs w) \<Longrightarrow> rpcReq (rpcs w ! k) = (\<lambda>(e, meth, v). new_req C e meth v) (calls es ! k)"
    "\<And>k. k < length (rpcs w) \<Longrightarrow> rpc_ok C Q (rpcs w ! k)"
    "\<And>k. k < length (rpcs w) \<Longrightarrow> rpc_counted es (crashed w = None) k (rpcs w ! k)"
  using assms by (simp_all add: net_inv_def)

text \<open>A step that changes one call, and neither makes one nor runs a handler.\<close>

lemma net_inv_rpc:
  assumes inv: "net_inv C Q es w" and k: "k < length (rpcs w)" and quiet: "calls [e] = []" "\<And>j. handles j [e] = 0"
    and x: "rpcReq x = rpcReq (rpcs w ! k)" "rpcHandler x = rpcHandler (rpcs w ! k) \<or>
      \<not> returned (rpcHandler x) \<and> \<not> returned (rpcHandler (rpcs w ! k))" "rpc_ok C Q x"
    and w': "rpcs w' = (rpcs w)[k := x]" "srvs w' = srvs w" "crashed w' = crashed w"
  shows "net_inv C Q (es @ [e]) w'"
proof -
  have "rpc_counted es (crashed w = None) k x"
    using net_invD(6) [OF inv k] x(2) by (auto simp: rpc_counted_def)
  then have "rpc_counted (es @ [e]) (crashed w = None) j ((rpcs w)[k := x] ! j)" if "j < length (rpcs w)" for j
    using net_invD(6) [OF inv that] quiet(2) k by (cases "j = k") (simp_all add: rpc_counted_def)
  moreover have "rpc_ok C Q ((rpcs w)[k := x] ! j)" if "j < length (rpcs w)" for j
    using net_invD(5) [OF inv that] x(3) k by (cases "j = k") simp_all
  moreover have "rpcReq ((rpcs w)[k := x] ! j) = (\<lambda>(e, meth, v). new_req C e meth v) (calls es ! j)" if "j < length (rpcs w)" for j
    using net_invD(4) [OF inv that] x(1) k by (cases "j = k") simp_all
  ultimately show ?thesis using net_invD(1-3) [OF inv] quiet unfolding net_inv_def w' by simp
qed

lemma state_at_Some: "state_at w k = Some p \<longleftrightarrow> k < length (rpcs w) \<and> rpcState (rpcs w ! k) = p"
  by (auto simp: state_at_def rpc_at_def)

lemma handler_at_Some: "handler_at w k = Some h \<longleftrightarrow> k < length (rpcs w) \<and> rpcHandler (rpcs w ! k) = h"
  by (auto simp: handler_at_def rpc_at_def)

lemma set_state_sel [simp]:
  "rpcs (set_state k p w) = (rpcs w)[k := (rpcs w ! k)\<lparr>rpcState := p\<rparr>]" "srvs (set_state k p w) = srvs w"
  "crashed (set_state k p w) = crashed w" "net (set_state k p w) = net w" "loopAlive (set_state k p w) = loopAlive w"
  "objs (set_state k p w) = objs w"
  by (simp_all add: set_state_def)

lemma set_handler_sel [simp]:
  "rpcs (set_handler k h w) = (rpcs w)[k := (rpcs w ! k)\<lparr>rpcHandler := h\<rparr>]" "srvs (set_handler k h w) = srvs w"
  "crashed (set_handler k h w) = crashed w" "net (set_handler k h w) = net w" "loopAlive (set_handler k h w) = loopAlive w"
  "objs (set_handler k h w) = objs w"
  by (simp_all add: set_handler_def)

lemma add_bytes_sel [simp]:
  "rpcs (add_bytes n w) = rpcs w" "srvs (add_bytes n w) = srvs w" "crashed (add_bytes n w) = crashed w"
  "net (add_bytes n w) = (net w)\<lparr>netBytes := netBytes (net w) + of_nat n\<rparr>" "loopAlive (add_bytes n w) = loopAlive w"
  "objs (add_bytes n w) = objs w"
  by (simp_all add: add_bytes_def)

lemma net_inv_state:
  assumes "net_inv C Q es w" "k < length (rpcs w)" "calls [e] = []" "\<And>j. handles j [e] = 0"
    "rpc_ok C Q ((rpcs w ! k)\<lparr>rpcState := p\<rparr>)" "rpcs w' = (rpcs w)[k := (rpcs w ! k)\<lparr>rpcState := p\<rparr>]"
    "srvs w' = srvs w" "crashed w' = crashed w"
  shows "net_inv C Q (es @ [e]) w'"
  by (rule net_inv_rpc [OF assms(1-4) _ _ assms(5-8)]) simp_all

text \<open>A step that changes no call.\<close>

lemma net_inv_quiet:
  assumes inv: "net_inv C Q es w" and quiet: "calls [e] = []" "\<And>j. handles j [e] = 0"
    and w': "rpcs w' = rpcs w" "\<And>a. server_respects C Q (srvs w' a)" and alive: "crashed w' = None \<Longrightarrow> crashed w = None"
  shows "net_inv C Q (es @ [e]) w'"
proof -
  have "rpc_counted (es @ [e]) (crashed w' = None) k (rpcs w ! k)" if "k < length (rpcs w)" for k
    using net_invD(6) [OF inv that] quiet(2) alive by (auto simp: rpc_counted_def)
  then show ?thesis using net_invD(1-5) [OF inv] quiet unfolding net_inv_def w' by (simp add: w'(2))
qed

lemma net_inv_call:
  assumes inv: "net_inv C Q es w" "crashed w = None"
  shows "net_inv C Q (es @ [Call e meth v])
    (w\<lparr>rpcs := rpcs w @ [\<lparr>rpcReq = new_req C e meth v, rpcState = Sent, rpcHandler = NotStarted\<rparr>]\<rparr>)"
    (is "net_inv C Q ?es ?w")
proof -
  have "rpcReq (rpcs ?w ! k) = (\<lambda>(e, meth, v). new_req C e meth v) (calls ?es ! k)
      \<and> rpc_ok C Q (rpcs ?w ! k) \<and> rpc_counted ?es (crashed ?w = None) k (rpcs ?w ! k)" if "k < length (rpcs ?w)" for k
  proof (cases "k < length (rpcs w)")
    case True
    then show ?thesis using net_invD(2,4-6) [OF inv(1)] by (simp add: nth_append rpc_counted_def)
  next
    case False
    then have "k = length (rpcs w)" using that by simp
    then show ?thesis using net_invD(2,3) [OF inv(1)] by (simp add: nth_append rpc_counted_def rpc_ok_def)
  qed
  then show ?thesis using net_invD(1-3) [OF inv(1)] unfolding net_inv_def by simp
qed

lemma server_respects_services:
  "server_respects C Q rs \<Longrightarrow> services rs' = services rs \<Longrightarrow> server_respects C Q rs'"
  by (simp add: server_respects_def)

lemma Server_dispatch_services: "services (fst (Server_dispatch C rs req ob)) = services rs"
  by (simp add: Server_dispatch_def Let_def)

lemma net_inv_handle:
  assumes inv: "net_inv C Q es w" and alive: "crashed w = None" and h: "handler_at w k = Some (Started a)"
  shows "net_inv C Q (es @ [Handle k]) (run_handler C k a w)"
proof -
  have k: "k < length (rpcs w)" "rpcHandler (rpcs w ! k) = Started a" using h by (simp_all add: handler_at_Some)
  let ?d = "Server_dispatch C (srvs w a) (rpcReq (rpcs w ! k)) (objs w)"
  have srv: "server_respects C Q (((srvs w)(a := fst ?d)) b)" for b
    using net_invD(1) [OF inv] server_respects_services [OF net_invD(1) [OF inv] Server_dispatch_services] by simp
  have cnt: "handles k es = 0" using net_invD(6) [OF inv k(1)] alive k(2) by (simp add: rpc_counted_def)
  have other: "rpc_counted (es @ [Handle k]) b j (rpcs w ! j)" if "j < length (rpcs w)" "j \<noteq> k" for j b
    using net_invD(6) [OF inv that(1)] that(2) alive by (auto simp: rpc_counted_def)
  show ?thesis
  proof (cases "snd ?d")
    case (Inl e)
    then have w': "run_handler C k a w = w\<lparr>srvs := (srvs w)(a := fst ?d), crashed := Some e\<rparr>"
      by (simp add: run_handler_def case_prod_beta)
    have "rpc_counted (es @ [Handle k]) False j (rpcs w ! j)" if "j < length (rpcs w)" for j
      using other [OF that] cnt k(2) by (cases "j = k") (simp_all add: rpc_counted_def)
    then show ?thesis using net_invD(2-5) [OF inv] srv k(1) unfolding net_inv_def w' by simp
  next
    case (Inr p)
    then have w': "run_handler C k a w = set_handler k (Returned (snd p)) (w\<lparr>srvs := (srvs w)(a := fst ?d), objs := fst p\<rparr>)"
      by (simp add: run_handler_def case_prod_beta)
    let ?x = "(rpcs w ! k)\<lparr>rpcHandler := Returned (snd p)\<rparr>"
    have v: "valid_reply C Q (rpcReq (rpcs w ! k)) (snd p)"
      using Server_dispatch_valid(1) [OF net_invD(1) [OF inv, of a], of "rpcReq (rpcs w ! k)" "objs w" "fst ?d" "fst p" "snd p"] Inr
      by (metis prod.collapse)
    have "rpc_ok C Q ?x" using net_invD(5) [OF inv k(1)] k(2) v by (simp add: rpc_ok_def split: proc_state.splits)
    then have "rpc_ok C Q ((rpcs w)[k := ?x] ! j)" if "j < length (rpcs w)" for j
      using net_invD(5) [OF inv that] k(1) by (cases "j = k") simp_all
    moreover have "rpc_counted (es @ [Handle k]) True j ((rpcs w)[k := ?x] ! j)" if "j < length (rpcs w)" for j
      using other [OF that] cnt k(1) by (cases "j = k") (simp_all add: rpc_counted_def)
    moreover have "rpcReq ((rpcs w)[k := ?x] ! j) = rpcReq (rpcs w ! j)" for j
      using k(1) by (cases "j = k") simp_all
    ultimately show ?thesis using net_invD(2-4) [OF inv] srv k(1) alive unfolding net_inv_def w' by simp
  qed
qed

lemma net_inv_read:
  assumes inv: "net_inv C Q es w" and s: "state_at w k = Some Accepted"
  shows "net_inv C Q (es @ [Read k lose]) (process_read k lose w)"
proof -
  have k: "k < length (rpcs w)" "rpcState (rpcs w ! k) = Accepted" using s by (simp_all add: state_at_Some)
  have n: "rpcHandler (rpcs w ! k) = NotStarted" using net_invD(5) [OF inv k(1)] k(2) by (simp add: rpc_ok_def)
  let ?info = "readEndnameInfo (endname (rpcReq (rpcs w ! k))) (net w)"
  show ?thesis
  proof (cases "iServer ?info")
    case None
    show ?thesis
      by (rule net_inv_state [OF inv k(1), where p = Unreachable])
        (use n None in \<open>simp_all add: process_read_def rpc_ok_def\<close>)
  next
    case (Some na)
    show ?thesis
    proof (cases "\<not> iReliable ?info \<and> lose")
      case True
      show ?thesis
        by (rule net_inv_state [OF inv k(1), where p = "Answered no_reply"])
          (use n Some True in \<open>simp_all add: process_read_def rpc_ok_def no_reply_def split: prod.splits\<close>)
    next
      case False
      let ?x = "(rpcs w ! k)\<lparr>rpcState := Waiting ?info, rpcHandler := Started (snd na)\<rparr>"
      have p: "process_read k lose w = set_handler k (Started (snd na)) (set_state k (Waiting ?info) w)"
        using Some False by (auto simp: process_read_def Let_def case_prod_beta)
      show ?thesis
        by (rule net_inv_rpc [OF inv k(1), where x = ?x]) (use n k(1) in \<open>simp_all add: p rpc_ok_def\<close>)
    qed
  qed
qed

lemma net_inv_finish:
  assumes inv: "net_inv C Q es w" and s: "state_at w k = Some (Checking info ro)"
  shows "net_inv C Q (es @ [Finish k lose delay]) (process_finish k info ro lose delay w)"
proof -
  have k: "k < length (rpcs w)" "rpcState (rpcs w ! k) = Checking info ro" using s by (simp_all add: state_at_Some)
  note x = net_invD(5) [OF inv k(1)]
  have r: "ro = Some r \<Longrightarrow> rpcHandler (rpcs w ! k) = Returned r" for r using x k(2) by (simp add: rpc_ok_def)
  have "rpc_ok C Q ((rpcs w ! k)\<lparr>rpcState := Answered no_reply\<rparr>)" using x by (simp add: rpc_ok_def no_reply_def)
  note no = net_inv_state [OF inv k(1) _ _ this]
  show ?thesis
  proof (cases "iServer info = None \<or> ro = None")
    case True
    then show ?thesis by (intro no) (auto simp: process_finish_def split: option.splits)
  next
    case False
    then obtain n a r' where i: "iServer info = Some (n, a)" "ro = Some r'" by auto
    have "rpc_ok C Q ((rpcs w ! k)\<lparr>rpcState := Answered r'\<rparr>)" "rpc_ok C Q ((rpcs w ! k)\<lparr>rpcState := Delayed r'\<rparr>)"
      using x r [OF i(2)] by (simp_all add: rpc_ok_def)
    note yes = net_inv_state [OF inv k(1) _ _ this(1)] net_inv_state [OF inv k(1) _ _ this(2)]
    show ?thesis
    proof (cases "isServerDead (endname (rpcReq (rpcs w ! k))) n a (net w) \<or> \<not> iReliable info \<and> lose")
      case True
      then show ?thesis by (intro no) (auto simp: process_finish_def i)
    next
      case False
      note f = False
      show ?thesis
      proof (cases "iReordering info \<and> delay")
        case True
        then show ?thesis using f by (intro yes(2)) (auto simp: process_finish_def i)
      next
        case False
        then show ?thesis using f by (intro yes(1)) (auto simp: process_finish_def i)
      qed
    qed
  qed
qed

lemma net_inv_step:
  assumes inv: "net_inv C Q es w" and alive: "crashed w = None" and e: "net_enabled C w e = Some w'"
    and ok: "sets_ok [e] (server_respects C Q)"
  shows "net_inv C Q (es @ [e]) w'"
proof (cases e)
  case (Call en meth v)
  then show ?thesis using net_inv_call [OF inv alive] e by auto
next
  case (Accept k)
  then have k: "k < length (rpcs w)" "rpcState (rpcs w ! k) = Sent" "w' = accept k w"
    using e by (simp_all add: state_at_Some split: if_splits)
  show ?thesis
    by (rule net_inv_state [OF inv k(1), where p = Accepted])
      (use k net_invD(5) [OF inv k(1)] Accept in \<open>simp_all add: accept_def rpc_ok_def\<close>)
next
  case (Refuse k)
  then have k: "k < length (rpcs w)" "rpcState (rpcs w ! k) = Sent" "w' = set_state k Refused w"
    using e by (simp_all add: state_at_Some split: if_splits)
  show ?thesis
    by (rule net_inv_state [OF inv k(1), where p = Refused])
      (use k net_invD(5) [OF inv k(1)] Refuse in \<open>simp_all add: rpc_ok_def\<close>)
next
  case LoopStop
  then show ?thesis using e net_invD(1) [OF inv] by (intro net_inv_quiet [OF inv]) (auto split: if_splits)
next
  case (Read k lose)
  then show ?thesis using net_inv_read [OF inv, of k lose] e by (auto split: if_splits)
next
  case (TimeOut k)
  then have k: "k < length (rpcs w)" "w' = set_state k (Answered no_reply) w"
    using e by (simp_all add: state_at_Some split: if_splits)
  show ?thesis
    by (rule net_inv_state [OF inv k(1), where p = "Answered no_reply"])
      (use k net_invD(5) [OF inv k(1)] TimeOut in \<open>simp_all add: rpc_ok_def no_reply_def\<close>)
next
  case (Handle k)
  then show ?thesis using net_inv_handle [OF inv alive, of k] e by (auto split: option.splits handler_state.splits)
next
  case (Receive k)
  then obtain info r where k: "k < length (rpcs w)" "rpcHandler (rpcs w ! k) = Returned r" "w' = set_state k (Checking info (Some r)) w"
    using e by (auto simp: state_at_Some handler_at_Some split: option.splits proc_state.splits handler_state.splits)
  show ?thesis
    by (rule net_inv_state [OF inv k(1), where p = "Checking info (Some r)"])
      (use k net_invD(5) [OF inv k(1)] Receive in \<open>simp_all add: rpc_ok_def\<close>)
next
  case (Tick k)
  then obtain info where k: "k < length (rpcs w)" "w' = tick k info w"
    using e by (auto simp: state_at_Some split: option.splits proc_state.splits)
  then consider "w' = w" | "w' = set_state k (Checking info None) w" by (auto simp: tick_def split: option.splits if_splits)
  then show ?thesis
  proof cases
    case 1
    then show ?thesis using Tick net_invD(1) [OF inv] by (intro net_inv_quiet [OF inv]) simp_all
  next
    case 2
    show ?thesis
      by (rule net_inv_state [OF inv k(1), where p = "Checking info None"])
        (use 2 net_invD(5) [OF inv k(1)] Tick in \<open>simp_all add: rpc_ok_def\<close>)
  qed
next
  case (Finish k lose delay)
  then show ?thesis using net_inv_finish [OF inv, of k] e by (auto split: option.splits proc_state.splits)
next
  case (Release k)
  then obtain r where k: "k < length (rpcs w)" "rpcState (rpcs w ! k) = Delayed r"
    "w' = set_state k (Answered r) (add_bytes (length (reply r)) w)"
    using e by (auto simp: state_at_Some split: option.splits proc_state.splits)
  show ?thesis
    by (rule net_inv_state [OF inv k(1), where p = "Answered r"])
      (use k net_invD(5) [OF inv k(1)] Release in \<open>simp_all add: rpc_ok_def\<close>)
next
  case (Admin f)
  then show ?thesis using e net_invD(1) [OF inv] by (intro net_inv_quiet [OF inv]) (auto split: sum.splits)
next
  case (SetServer a rs)
  then show ?thesis using e net_invD(1) [OF inv] ok by (intro net_inv_quiet [OF inv]) auto
qed

lemma net_inv_run:
  assumes "rpcs w = []" "\<And>a. server_respects C Q (srvs w a)"
  shows "net_run C w es = Some w' \<Longrightarrow> sets_ok es (server_respects C Q) \<Longrightarrow> net_inv C Q es w'"
proof (induction es arbitrary: w' rule: rev_induct)
  case Nil
  then show ?case using assms by (simp add: net_inv_def)
next
  case (snoc e es)
  from snoc.prems(1) obtain u where u: "net_run C w es = Some u" "crashed u = None" "net_enabled C u e = Some w'"
    by (rule net_run_snocE)
  then show ?case using net_inv_step [OF snoc.IH [OF u(1)] u(2,3)] snoc.prems(2) by simp
qed

section \<open>Calls are executed once and answered by the handler\<close>

lemma call_result_reply:
  assumes "rpc_ok C Q x" and "rpcReq x = new_req C e meth v" and "codec_ok C"
    and "call_result C t (rpcState x) = Some (Inr (Some r))"
  shows "returned (rpcHandler x) \<and> (\<exists>r'. Q meth v r' \<and> dec C t (enc C r') = Some r \<and> (t = type_of C r' \<longrightarrow> r = r'))"
proof -
  obtain m where m: "rpcState x = Answered m" "ok m" "dec C t (reply m) = Some r"
    using assms(4) by (auto simp: call_result_def split: proc_state.splits if_splits option.splits)
  then have h: "rpcHandler x = Returned m" "valid_reply C Q (rpcReq x) m" using assms(1) by (simp_all add: rpc_ok_def)
  then obtain r' where "reply m = enc C r'" "Q meth v r'"
    using assms(2,3) by (auto simp: valid_reply_def new_req_def codec_ok_def)
  moreover have "dec C (type_of C r') (enc C r') = Some r'" using assms(3) by (simp add: codec_ok_def)
  ultimately show ?thesis using h(1) m(3) by auto
qed

text \<open>
  (C27) Remote calls through the simulated network, in any run with any interleaving of lost requests
  and replies, delays, reordering, timeouts, administrative calls on the network and replacement of
  servers: the handler of each call runs at most once; and if a call returns true then its handler
  ran exactly once, and the caller gets the decoding of a reply that a handler registered under the
  called name computed from exactly the argument that the caller passed, which is that reply itself
  when the caller asks for its type. A lost or late reply shows only as a call that returns false.
\<close>

theorem call_at_most_once:
  assumes "codec_ok C" and "rpcs w = []" and "\<And>a. server_respects C Q (srvs w a)"
    and "sets_ok es (server_respects C Q)" and "net_run C w es = Some w'"
    and "k < length (calls es)" and "calls es ! k = (e, meth, v)"
  shows "handles k es \<le> 1 \<and> (\<exists>p. state_at w' k = Some p \<and>
    (\<forall>t r. call_result C t p = Some (Inr (Some r)) \<longrightarrow> handles k es = 1 \<and>
      (\<exists>r'. Q meth v r' \<and> dec C t (enc C r') = Some r \<and> (t = type_of C r' \<longrightarrow> r = r'))))"
proof -
  have inv: "net_inv C Q es w'" by (rule net_inv_run [OF assms(2,3,5,4)])
  have k: "k < length (rpcs w')" using net_invD(2) [OF inv] assms(6) by simp
  have c: "rpc_counted es (crashed w' = None) k (rpcs w' ! k)" by (rule net_invD(6) [OF inv k])
  have "rpcReq (rpcs w' ! k) = new_req C e meth v" using net_invD(4) [OF inv k] assms(7) by simp
  note r = call_result_reply [OF net_invD(5) [OF inv k] this assms(1)]
  have "handles k es \<le> 1" "returned (rpcHandler (rpcs w' ! k)) \<Longrightarrow> handles k es = 1"
    using c by (auto simp: rpc_counted_def)
  moreover have "state_at w' k = Some (rpcState (rpcs w' ! k))" using k by (simp add: state_at_Some)
  ultimately show ?thesis using r by blast
qed

text \<open>A counting echo server, on a network with one connected end.\<close>

definition echo_codec :: "string codec" where
  "echo_codec = \<lparr>type_of = (\<lambda>_. 0), enc = (\<lambda>v. v), dec = (\<lambda>t s. Some s), zero_of = (\<lambda>t. [])\<rparr>"

definition echo_method :: "(nat, string) rmethod" where
  "echo_method = \<lparr>mName = ''Say'', mPkgPath = [], mNumIn = 3, mArgType = 0, mReplyIsPtr = True, mReplyType = 0,
     mNumOut = 0, mFunc = (\<lambda>n a r. (n + 1, a @ ''!''))\<rparr>"

definition echo_server :: "(nat, string) Server" where
  "echo_server = AddService MakeServer (MakeService 0 ''Echo'' [echo_method])"

definition echo_world :: "(nat, string) world" where
  "echo_world = \<lparr>net = MakeNetwork, srvs = (\<lambda>_. echo_server), objs = (\<lambda>_. 0), rpcs = [], loopAlive = True, crashed = None\<rparr>"

definition echo_setup :: "(nat, string) net_event list" where
  "echo_setup = [Admin (OpMakeEnd (NInt 1)), Admin (OpAddServer (NInt 9) 0), Admin (OpConnect (NInt 1) (NInt 9)),
     Admin (OpEnable (NInt 1) True)]"

definition echo_run :: "(nat, string) net_event list" where
  "echo_run = echo_setup @ [Call (NInt 1) ''Echo.Say'' ''a'', Accept 0, Read 0 True, Handle 0, Receive 0, Finish 0 True True]"

definition echo_spec :: "string \<Rightarrow> string \<Rightarrow> string \<Rightarrow> bool" where
  "echo_spec meth a r \<longleftrightarrow> r = a @ ''!''"

lemma echo_respects: "server_respects echo_codec echo_spec echo_server"
  by (auto simp: server_respects_def echo_server_def AddService_def MakeServer_def MakeService_def handler_shape_def
    echo_method_def echo_spec_def split: if_splits)

lemma echo_codec_ok: "codec_ok echo_codec"
  by (simp add: codec_ok_def echo_codec_def)

theorem call_at_most_once_witness:
  "\<exists>w'. net_run echo_codec echo_world echo_run = Some w' \<and> handles 0 echo_run \<le> 1 \<and> (\<exists>p. state_at w' 0 = Some p \<and>
    (\<forall>t r. call_result echo_codec t p = Some (Inr (Some r)) \<longrightarrow> handles 0 echo_run = 1 \<and>
      (\<exists>r'. echo_spec ''Echo.Say'' ''a'' r' \<and> dec echo_codec t (enc echo_codec r') = Some r
        \<and> (t = type_of echo_codec r' \<longrightarrow> r = r'))))"
proof -
  have "\<not> Option.is_none (net_run echo_codec echo_world echo_run)" by code_simp
  then obtain w' where w': "net_run echo_codec echo_world echo_run = Some w'" by (auto simp: Option.is_none_def)
  have "rpcs echo_world = []" "\<And>a. server_respects echo_codec echo_spec (srvs echo_world a)"
    by (simp_all add: echo_world_def echo_respects)
  moreover have "sets_ok echo_run (server_respects echo_codec echo_spec)" by (simp add: echo_run_def echo_setup_def)
  moreover have "0 < length (calls echo_run)" "calls echo_run ! 0 = (NInt 1, ''Echo.Say'', ''a'')" by code_simp+
  ultimately show ?thesis using call_at_most_once [OF echo_codec_ok _ _ _ w'] w' by blast
qed

section \<open>Servers that went away\<close>

definition doomed :: "nat \<Rightarrow> name \<Rightarrow> name \<Rightarrow> nat \<Rightarrow> ('s, 'v) world \<Rightarrow> bool" where
  "doomed k e n a w \<longleftrightarrow> isServerDead e n a (net w) \<and> k < length (rpcs w) \<and> endname (rpcReq (rpcs w ! k)) = e \<and>
     (case rpcState (rpcs w ! k) of Waiting info \<Rightarrow> iServer info = Some (n, a) | Checking info ro \<Rightarrow> iServer info = Some (n, a)
      | Answered r \<Rightarrow> r = no_reply | _ \<Rightarrow> False)"

lemma net_op_dead:
  assumes "isServerDead e n a rn" "net_op_exec f rn = Inr rn'" "f \<noteq> OpAddServer n a" "f \<noteq> OpEnable e True"
  shows "isServerDead e n a rn'"
  using assms by (cases f) (auto simp: isServerDead_def Reliable_def LongReordering_def LongDelays_def Cleanup_def MakeEnd_def
    AddServer_def DeleteServer_def Connect_def Enable_def split: if_splits)

text \<open>A step about another call, or about none, leaves the call alone.\<close>

fun subject :: "('s, 'v) net_event \<Rightarrow> nat option" where
  "subject (Accept k) = Some k"
| "subject (Refuse k) = Some k"
| "subject (Read k _) = Some k"
| "subject (TimeOut k) = Some k"
| "subject (Handle k) = Some k"
| "subject (Receive k) = Some k"
| "subject (Tick k) = Some k"
| "subject (Finish k _ _) = Some k"
| "subject (Release k) = Some k"
| "subject _ = None"

lemma subject_kind: "subject ev = Some k \<Longrightarrow> ev \<noteq> Admin f" "subject ev = Some k \<Longrightarrow> ev \<noteq> SetServer b rs"
  by auto

lemma net_enabled_other:
  assumes "net_enabled C w ev = Some w'" and "subject ev \<noteq> Some k" and "k < length (rpcs w)"
  shows "k < length (rpcs w') \<and> rpcs w' ! k = rpcs w ! k"
  using assms by (cases ev) (auto simp: nth_append accept_def process_read_def run_handler_def tick_def process_finish_def Let_def
    split: if_splits option.splits prod.splits sum.splits proc_state.splits handler_state.splits)

definition same_wiring :: "Network \<Rightarrow> Network \<Rightarrow> bool" where
  "same_wiring rn rn' \<longleftrightarrow> reliable rn' = reliable rn \<and> longReordering rn' = longReordering rn \<and> enabled rn' = enabled rn
     \<and> servers rn' = servers rn \<and> connections rn' = connections rn \<and> netDone rn' = netDone rn"

lemma net_enabled_net:
  assumes "net_enabled C w ev = Some w'" and "\<And>f. ev \<noteq> Admin f"
  shows "same_wiring (net w) (net w')"
  using assms by (cases ev) (auto simp: same_wiring_def accept_def process_read_def run_handler_def tick_def process_finish_def Let_def
      split: if_splits option.splits prod.splits sum.splits proc_state.splits handler_state.splits)

lemma same_wiring_reads:
  assumes "same_wiring rn rn'"
  shows "readEndnameInfo e rn' = readEndnameInfo e rn" "isServerDead e n a rn' = isServerDead e n a rn"
  using assms by (auto simp: same_wiring_def readEndnameInfo_def isServerDead_def split: option.splits)

lemma doomed_step:
  assumes d: "doomed k e n a w" and ev: "net_enabled C w ev = Some w'" and "ev \<noteq> Admin (OpAddServer n a)" "ev \<noteq> Admin (OpEnable e True)"
  shows "doomed k e n a w'"
proof (cases "subject ev = Some k")
  case True
  then have "\<And>f. ev \<noteq> Admin f" by auto
  then have dead: "isServerDead e n a (net w')" using same_wiring_reads [OF net_enabled_net [OF ev]] d by (simp add: doomed_def)
  have k: "k < length (rpcs w)" "endname (rpcReq (rpcs w ! k)) = e" and dead0: "isServerDead e n a (net w)"
    using d by (simp_all add: doomed_def)
  let ?s = "rpcState (rpcs w ! k)"
  consider (waiting) info where "?s = Waiting info" "iServer info = Some (n, a)" | (looking) info ro where "?s = Checking info ro" "iServer info = Some (n, a)"
    | (answered) "?s = Answered no_reply" using d by (auto simp: doomed_def split: proc_state.splits)
  then show ?thesis
  proof cases
    case waiting
    then show ?thesis using True ev k dead dead0
      by (cases ev) (auto simp: doomed_def state_at_Some handler_at_Some run_handler_def tick_def
        split: if_splits option.splits prod.splits sum.splits handler_state.splits proc_state.splits)
  next
    case looking
    then show ?thesis using True ev k dead dead0
      by (cases ev) (auto simp: doomed_def state_at_Some handler_at_Some run_handler_def process_finish_def
        split: if_splits option.splits prod.splits sum.splits handler_state.splits proc_state.splits)
  next
    case answered
    then show ?thesis using True ev k dead dead0
      by (cases ev) (auto simp: doomed_def state_at_Some handler_at_Some run_handler_def
        split: if_splits option.splits prod.splits sum.splits handler_state.splits proc_state.splits)
  qed
next
  case False
  have dead: "isServerDead e n a (net w')"
  proof (cases "\<exists>f. ev = Admin f")
    case True
    then obtain f where "ev = Admin f" by blast
    then show ?thesis using d ev assms(3,4) net_op_dead [of e n a "net w" f] by (auto simp: doomed_def split: sum.splits)
  next
    case False
    then show ?thesis using same_wiring_reads [OF net_enabled_net [OF ev]] d by (simp add: doomed_def)
  qed
  then show ?thesis using d net_enabled_other [OF ev False] by (simp add: doomed_def)
qed

lemma doomed_run:
  assumes "doomed k e n a w" "net_run C w es = Some w'" "Admin (OpAddServer n a) \<notin> set es" "Admin (OpEnable e True) \<notin> set es"
  shows "doomed k e n a w'"
  using assms by (induction es arbitrary: w) (auto simp: bind_eq_Some_conv net_exec_def split: if_splits intro: doomed_step)

text \<open>A reply that \<open>processReq\<close> has accepted stays what it is: it may wait in a timer, and is then delivered.\<close>

definition accepted_reply :: "nat \<Rightarrow> replyMsg \<Rightarrow> ('s, 'v) world \<Rightarrow> bool" where
  "accepted_reply k r w \<longleftrightarrow> state_at w k = Some (Delayed r) \<or> state_at w k = Some (Answered r)"

lemma accepted_reply_step:
  assumes "accepted_reply k r w" and "net_enabled C w ev = Some w'"
  shows "accepted_reply k r w' \<and> (state_at w k = Some (Answered r) \<longrightarrow> state_at w' k = Some (Answered r))"
proof (cases "subject ev = Some k")
  case True
  with assms show ?thesis
    by (cases ev) (auto simp: accepted_reply_def state_at_Some handler_at_Some run_handler_def
      split: if_splits option.splits prod.splits sum.splits handler_state.splits proc_state.splits)
next
  case False
  with assms show ?thesis using net_enabled_other [OF assms(2) False] by (auto simp: accepted_reply_def state_at_Some)
qed

lemma accepted_reply_run:
  assumes "accepted_reply k r w" and "net_run C w es = Some w'"
  shows "accepted_reply k r w' \<and> (state_at w k = Some (Answered r) \<longrightarrow> state_at w' k = Some (Answered r))"
  using assms
proof (induction es arbitrary: w)
  case (Cons e es)
  then obtain v where "net_enabled C w e = Some v" "net_run C v es = Some w'"
    by (auto simp: bind_eq_Some_conv net_exec_def split: if_splits)
  with accepted_reply_step [OF Cons.prems(1)] Cons.IH [of v] show ?case by blast
qed simp

text \<open>The request has been given to server \<open>a\<close> under the name \<open>n\<close>, and \<open>processReq\<close> has not accepted a reply yet.\<close>

definition undecided :: "name \<Rightarrow> nat \<Rightarrow> proc_state \<Rightarrow> bool" where
  "undecided n a p \<longleftrightarrow> (case p of Waiting info \<Rightarrow> iServer info = Some (n, a) | Checking info _ \<Rightarrow> iServer info = Some (n, a) | _ \<Rightarrow> False)"

text \<open>
  (C28) Once the server that a request was given to has been deleted or replaced, or the end that sent
  it has been disabled, no reply of that server to it is accepted any more, whatever happens later short
  of adding that very server again under its name or enabling the end again. A call that has no accepted
  reply at that moment only ever returns false, even if the handler still runs and finishes: this is what
  keeps a killed server from acknowledging an operation that its successor, started from a copy of the
  persisted state, has never heard of. A reply that was accepted before that moment is delivered
  unchanged, also when it still waits in the timer of the long reordering.
\<close>

theorem dead_server_never_acknowledges:
  assumes "state_at w k = Some p" and "undecided n a p \<or> p = Delayed r \<or> p = Answered r"
    and "isServerDead (endname (rpcReq (rpcs w ! k))) n a (net w)"
    and "net_run C w es = Some w'" and "Admin (OpAddServer n a) \<notin> set es"
    and "Admin (OpEnable (endname (rpcReq (rpcs w ! k))) True) \<notin> set es"
  shows "\<exists>p'. state_at w' k = Some p' \<and>
    (if undecided n a p then call_result C t p' = None \<or> call_result C t p' = Some (Inr None)
     else p' = p \<or> p = Delayed r \<and> p' = Answered r)"
proof (cases "undecided n a p")
  case True
  have "doomed k (endname (rpcReq (rpcs w ! k))) n a w"
    using assms(1,3) True by (auto simp: doomed_def undecided_def state_at_Some split: proc_state.splits)
  then have "doomed k (endname (rpcReq (rpcs w ! k))) n a w'" by (rule doomed_run [OF _ assms(4-6)])
  then show ?thesis using True by (auto simp: doomed_def state_at_Some call_result_def no_reply_def split: proc_state.splits)
next
  case False
  with assms(1,2) have "accepted_reply k r w" by (auto simp: accepted_reply_def)
  from accepted_reply_run [OF this assms(4)] False assms(1,2) show ?thesis by (auto simp: accepted_reply_def)
qed

definition echo_before :: "(nat, string) net_event list" where
  "echo_before = echo_setup @ [Call (NInt 1) ''Echo.Say'' ''a'', Accept 0, Read 0 False, Admin (OpDeleteServer (NInt 9))]"

definition echo_after :: "(nat, string) net_event list" where
  "echo_after = [Handle 0, Admin (OpAddServer (NInt 9) 1), Receive 0, Finish 0 False False]"

definition echo_mid :: "(nat, string) world" where
  "echo_mid = (case net_run echo_codec echo_world echo_before of Some w \<Rightarrow> w | None \<Rightarrow> echo_world)"

theorem dead_server_never_acknowledges_witness:
  "\<exists>w' p'. net_run echo_codec echo_mid echo_after = Some w' \<and> state_at w' 0 = Some p'
     \<and> (call_result echo_codec 0 p' = None \<or> call_result echo_codec 0 p' = Some (Inr None))"
proof -
  let ?info = "\<lparr>iServer = Some (NInt 9, 0), iReliable = True, iReordering = False\<rparr>"
  have "\<not> Option.is_none (net_run echo_codec echo_mid echo_after)" by code_simp
  then obtain w' where w': "net_run echo_codec echo_mid echo_after = Some w'" by (auto simp: Option.is_none_def)
  have "state_at echo_mid 0 = Some (Waiting ?info)" by code_simp
  moreover have "isServerDead (endname (rpcReq (rpcs echo_mid ! 0))) (NInt 9) 0 (net echo_mid)" by code_simp
  moreover have "Admin (OpAddServer (NInt 9) 0) \<notin> set echo_after"
    "Admin (OpEnable (endname (rpcReq (rpcs echo_mid ! 0))) True) \<notin> set echo_after" by (simp_all add: echo_after_def)
  moreover have "undecided (NInt 9) 0 (Waiting ?info)" by (simp add: undecided_def)
  ultimately show ?thesis
    using dead_server_never_acknowledges [where p = "Waiting ?info" and n = "NInt 9" and a = 0 and t = 0, OF _ _ _ w'] w' by auto
qed

section \<open>Dispatch\<close>

lemma fold_update_other:
  "n \<notin> f ` set xs \<Longrightarrow> map_of (fold (\<lambda>x al. if P x then AList.update (f x) x al else al) xs al) n = map_of al n"
  by (induction xs arbitrary: al) (simp_all add: update_conv')

lemma fold_update_lookup:
  "distinct (map f xs) \<Longrightarrow> x \<in> set xs \<Longrightarrow> P x
    \<Longrightarrow> map_of (fold (\<lambda>x al. if P x then AList.update (f x) x al else al) xs al) (f x) = Some x"
proof (induction xs arbitrary: al)
  case (Cons y xs)
  show ?case
  proof (cases "y = x")
    case True
    then show ?thesis using Cons.prems fold_update_other [of "f x" f xs] by (auto simp: update_conv')
  next
    case False
    then show ?thesis using Cons by simp
  qed
qed simp

lemma fold_AddService_services:
  "services (fold (\<lambda>svc rs. AddService rs svc) svcs rs)
    = fold (\<lambda>svc al. if True then AList.update (svcName svc) svc al else al) svcs (services rs)"
  by (induction svcs arbitrary: rs) (simp_all add: AddService_def)

lemma registered_lookup:
  assumes "svc \<in> set svcs" "distinct (map svcName svcs)"
  shows "map_of (services (fold (\<lambda>svc rs. AddService rs svc) svcs rs)) (svcName svc) = Some svc"
  unfolding fold_AddService_services using fold_update_lookup [where P = "\<lambda>_. True", OF assms(2,1)] by simp

text \<open>
  (C30) Dispatch to registered handlers. Of a server that was built by adding services with distinct
  type names, each made from the methods of an object, a request for \<open>Type.Method\<close> reaches exactly
  the exported method of that name, if its signature is the one of a handler and the argument has
  its argument type: the method is applied to the current state of the service's object, the decoded
  argument and a fresh reply, only that object changes, the answer is the encoded reply, and the
  server counts the request. The type name may itself contain dots, since the last dot separates.
\<close>

theorem registered_handler_called:
  assumes "distinct (map (\<lambda>(obj, t, ms). t) l)" and "(obj, t, ms) \<in> set l"
    and "distinct (map mName ms)" and "m \<in> set ms" and "handler_shape m" and "CHR ''.'' \<notin> set (mName m)"
    and "codec_ok C" and "type_of C v = mArgType m"
  shows "let rs = fold (\<lambda>svc rs. AddService rs svc) (map (\<lambda>(obj, t, ms). MakeService obj t ms) l) MakeServer;
      (s', r) = mFunc m (ob obj) v (zero_of C (mReplyType m)) in
    Server_dispatch C rs (new_req C e (t @ CHR ''.'' # mName m) v) ob
      = (rs\<lparr>srvCount := 1\<rparr>, Inr (ob(obj := s'), \<lparr>ok = True, reply = enc C r\<rparr>))"
proof -
  let ?svcs = "map (\<lambda>(obj, t, ms). MakeService obj t ms) l" and ?svc = "MakeService obj t ms"
  let ?rs = "fold (\<lambda>svc rs. AddService rs svc) ?svcs MakeServer"
  have "map svcName ?svcs = map (\<lambda>(obj, t, ms). t) l" by (simp add: MakeService_def case_prod_beta)
  then have "distinct (map svcName ?svcs)" using assms(1) by (simp only:)
  moreover have "?svc \<in> set ?svcs" using assms(2) by force
  ultimately have "map_of (services ?rs) (svcName ?svc) = Some ?svc" by (rule registered_lookup [rotated])
  then have s: "map_of (services ?rs) t = Some ?svc" by (simp add: MakeService_def)
  have m: "map_of (methods ?svc) (mName m) = Some m"
    unfolding MakeService_def using fold_update_lookup [where P = handler_shape, OF assms(3,4,5)] by simp
  have n: "split_name (t @ CHR ''.'' # mName m) = Some (t, mName m)" using assms(6) by (simp add: split_name_Some)
  have c: "srvCount (fold (\<lambda>svc rs. AddService rs svc) svcs (rs :: ('a, 'b) Server)) = srvCount rs" for svcs rs
    by (induction svcs arbitrary: rs) (simp_all add: AddService_def)
  have "dec C (mArgType m) (enc C v) = Some v" using assms(7,8) by (metis codec_ok_def)
  then show ?thesis
    using s m n c assms(8) by (simp add: Server_dispatch_def Service_dispatch_def new_req_def Let_def case_prod_beta
      MakeServer_def MakeService_def)
qed

theorem registered_handler_called_witness:
  "let rs = fold (\<lambda>svc rs. AddService rs svc) (map (\<lambda>(obj, t, ms). MakeService obj t ms) [(0, ''Echo'', [echo_method])]) MakeServer;
      (s', r) = mFunc echo_method ((\<lambda>_. 7) 0) ''a'' (zero_of echo_codec (mReplyType echo_method)) in
    Server_dispatch echo_codec rs (new_req echo_codec (NInt 1) (''Echo'' @ CHR ''.'' # mName echo_method) ''a'') (\<lambda>_. 7)
      = (rs\<lparr>srvCount := 1\<rparr>, Inr ((\<lambda>_. 7)(0 := s'), \<lparr>ok = True, reply = enc echo_codec r\<rparr>))"
  by (rule registered_handler_called [where l = "[(0, ''Echo'', [echo_method])]" and ms = "[echo_method]" and obj = 0])
    (simp_all add: echo_method_def handler_shape_def echo_codec_ok, simp add: echo_codec_def)

section \<open>Calls on a reliable network\<close>

definition well_typed :: "('s, 'v) Server \<Rightarrow> reqMsg \<Rightarrow> bool" where
  "well_typed rs req \<longleftrightarrow> (case split_name (svcMeth req) of None \<Rightarrow> False | Some (sn, mn) \<Rightarrow>
     (case map_of (services rs) sn of None \<Rightarrow> False | Some svc \<Rightarrow>
       (case map_of (methods svc) mn of None \<Rightarrow> False | Some m \<Rightarrow> mArgType m = argsType req)))"

lemma well_typed_dispatch:
  assumes "well_typed rs req"
  obtains ob' r where "Server_dispatch C rs req ob = (rs\<lparr>srvCount := srvCount rs + 1\<rparr>, Inr (ob', r))" "ok r"
  using assms by (auto simp: well_typed_def Server_dispatch_def Service_dispatch_def Let_def case_prod_beta split: option.splits prod.splits)

definition wired :: "name \<Rightarrow> name \<Rightarrow> nat \<Rightarrow> reqMsg \<Rightarrow> ('s, 'v) world \<Rightarrow> bool" where
  "wired e n a req w \<longleftrightarrow> reliable (net w) \<and> \<not> longReordering (net w) \<and> enabled (net w) e \<and> connections (net w) e = Some n
     \<and> servers (net w) n = Some a \<and> \<not> netDone (net w) \<and> loopAlive w \<and> well_typed (srvs w a) req"

definition good_info :: "name \<Rightarrow> nat \<Rightarrow> endinfo" where
  "good_info n a = \<lparr>iServer = Some (n, a), iReliable = True, iReordering = False\<rparr>"

text \<open>How far a call has got, as the number of steps that it still has to take.\<close>

definition on_track :: "name \<Rightarrow> nat \<Rightarrow> nat \<Rightarrow> rpc \<Rightarrow> bool" where
  "on_track n a i x \<longleftrightarrow> (\<exists>r. ok r \<and> (rpcState x, rpcHandler x) =
     (if i = 5 then (Sent, NotStarted) else if i = 4 then (Accepted, NotStarted)
      else if i = 3 then (Waiting (good_info n a), Started a) else if i = 2 then (Waiting (good_info n a), Returned r)
      else if i = 1 then (Checking (good_info n a) (Some r), Returned r) else (Answered r, Returned r)))"

definition going :: "nat \<Rightarrow> name \<Rightarrow> name \<Rightarrow> nat \<Rightarrow> reqMsg \<Rightarrow> nat \<Rightarrow> ('s, 'v) world \<Rightarrow> bool" where
  "going k e n a req i w \<longleftrightarrow> wired e n a req w \<and> k < length (rpcs w) \<and> rpcReq (rpcs w ! k) = req \<and> endname req = e
     \<and> i \<le> 5 \<and> on_track n a i (rpcs w ! k)"

lemma good_info_sel [simp]:
  "iServer (good_info n a) = Some (n, a)" "iReliable (good_info n a)" "\<not> iReordering (good_info n a)"
  by (simp_all add: good_info_def)

lemma wired_reads:
  assumes "wired e n a req w"
  shows "readEndnameInfo e (net w) = good_info n a" "\<not> isServerDead e n a (net w)"
  using assms by (simp_all add: wired_def readEndnameInfo_def good_info_def isServerDead_def)

lemma wired_step:
  assumes "wired e n a req w" "net_enabled C w ev = Some w'" "\<And>f. ev \<noteq> Admin f" "\<And>b rs. ev \<noteq> SetServer b rs"
  shows "wired e n a req (w' :: ('a, 'b) world)"
proof -
  have d: "Server_dispatch C rs q ob = (rs', x) \<Longrightarrow> services rs' = services rs" for rs :: "('a, 'b) Server" and q ob rs' x
    using Server_dispatch_services [of C rs q ob] by simp
  have "services (srvs w' b) = services (srvs w b)" for b
    using assms(2,4)
    by (cases ev) (auto dest: d simp: accept_def process_read_def run_handler_def tick_def process_finish_def Let_def
      split: if_splits option.splits prod.splits sum.splits proc_state.splits handler_state.splits)
  then have "well_typed (srvs w' a) req = well_typed (srvs w a) req" by (simp add: well_typed_def cong: option.case_cong)
  moreover have "loopAlive w'" using assms(1,2)
    by (cases ev) (auto simp: wired_def accept_def process_read_def run_handler_def tick_def process_finish_def Let_def
      split: if_splits option.splits prod.splits sum.splits proc_state.splits handler_state.splits)
  ultimately show ?thesis using assms(1) net_enabled_net [OF assms(2,3)] by (simp add: wired_def same_wiring_def)
qed

lemma going_progress:
  assumes g: "going k e n a req i w" and alive: "crashed w = None" and i: "0 < i"
  shows "\<exists>ev w'. net_exec C w ev = Some w' \<and> crashed w' = None \<and> going k e n a req (i - 1) w'"
proof -
  have w: "wired e n a req w" and k: "k < length (rpcs w)" "rpcReq (rpcs w ! k) = req" "endname req = e" "i \<le> 5"
    using g by (simp_all add: going_def)
  obtain r :: replyMsg where r: "ok r" using g unfolding going_def on_track_def by blast
  have keep: "net_enabled C w ev = Some w' \<Longrightarrow> crashed w' = None \<Longrightarrow> subject ev = Some k
      \<Longrightarrow> rpcs w' = (rpcs w)[k := x] \<Longrightarrow> rpcReq x = req \<Longrightarrow> on_track n a (i - 1) x \<Longrightarrow> ?thesis" for ev w' x
    using wired_step [OF w, of C ev w'] subject_kind [of ev k] k i alive
    by (intro exI [of _ ev] exI [of _ w']) (auto simp: going_def net_exec_def)
  consider "i = 5" | "i = 4" | "i = 3" | "i = 2" | "i = 1" using i k(4) by linarith
  then show ?thesis
  proof cases
    case 1
    then have "state_at w k = Some Sent" "rpcHandler (rpcs w ! k) = NotStarted"
      using g k by (auto simp: going_def on_track_def state_at_Some)
    then show ?thesis using w k 1 r alive
      by (intro keep [of "Accept k" "accept k w" "(rpcs w ! k)\<lparr>rpcState := Accepted\<rparr>"])
        (auto simp: wired_def accept_def on_track_def)
  next
    case 2
    then have "state_at w k = Some Accepted" "rpcHandler (rpcs w ! k) = NotStarted"
      using g k by (auto simp: going_def on_track_def state_at_Some)
    then show ?thesis using wired_reads(1) [OF w] k 2 r alive
      by (intro keep [of "Read k False" "process_read k False w"
        "(rpcs w ! k)\<lparr>rpcState := Waiting (good_info n a), rpcHandler := Started a\<rparr>"])
        (auto simp: process_read_def on_track_def )
  next
    case 3
    then have s: "rpcState (rpcs w ! k) = Waiting (good_info n a)" "handler_at w k = Some (Started a)"
      using g k by (auto simp: going_def on_track_def handler_at_Some)
    obtain ob' r' where d: "Server_dispatch C (srvs w a) req (objs w) = ((srvs w a)\<lparr>srvCount := srvCount (srvs w a) + 1\<rparr>, Inr (ob', r'))" "ok r'"
      using well_typed_dispatch [of "srvs w a" req C "objs w"] w by (auto simp: wired_def)
    then show ?thesis using k 3 s alive
      by (intro keep [of "Handle k" "run_handler C k a w" "(rpcs w ! k)\<lparr>rpcHandler := Returned r'\<rparr>"])
        (auto simp: run_handler_def on_track_def)
  next
    case 4
    then obtain r' where "ok r'" "state_at w k = Some (Waiting (good_info n a))" "handler_at w k = Some (Returned r')"
      "rpcHandler (rpcs w ! k) = Returned r'"
      using g k by (auto simp: going_def on_track_def state_at_Some handler_at_Some)
    then show ?thesis using k 4 alive
      by (intro keep [of "Receive k" "set_state k (Checking (good_info n a) (Some r')) w"
        "(rpcs w ! k)\<lparr>rpcState := Checking (good_info n a) (Some r')\<rparr>"]) (auto simp: on_track_def)
  next
    case 5
    then obtain r' where "ok r'" "state_at w k = Some (Checking (good_info n a) (Some r'))" "rpcHandler (rpcs w ! k) = Returned r'"
      using g k by (auto simp: going_def on_track_def state_at_Some)
    then show ?thesis using wired_reads(2) [OF w] k 5 alive
      by (intro keep [of "Finish k False False" "process_finish k (good_info n a) (Some r') False False w"
        "(rpcs w ! k)\<lparr>rpcState := Answered r'\<rparr>"]) (auto simp: on_track_def process_finish_def )
  qed
qed

lemma going_finish:
  "going k e n a req i w \<Longrightarrow> crashed w = None
    \<Longrightarrow> \<exists>fs w'. length fs = i \<and> net_run C w fs = Some w' \<and> going k e n a req 0 w'"
proof (induction i arbitrary: w)
  case 0
  then show ?case by (intro exI [of _ "[]"] exI [of _ w]) simp
next
  case (Suc i)
  then obtain ev u where u: "net_exec C w ev = Some u" "crashed u = None" "going k e n a req i u"
    using going_progress [OF Suc.prems, of C] by auto
  then obtain fs w' where "length fs = i" "net_run C u fs = Some w'" "going k e n a req 0 w'" using Suc.IH by blast
  then show ?case using u(1) by (intro exI [of _ "ev # fs"] exI [of _ w']) simp
qed

lemma net_enabled_own:
  assumes ev: "net_enabled C w ev = Some w'" and s: "subject ev = Some k" and g: "going k e n a req i w"
  shows "k < length (rpcs w') \<and> rpcReq (rpcs w' ! k) = req
    \<and> (crashed w' = None \<longrightarrow> on_track n a (i - 1) (rpcs w' ! k) \<or> on_track n a i (rpcs w' ! k))"
proof -
  have w: "wired e n a req w" and k: "k < length (rpcs w)" "rpcReq (rpcs w ! k) = req" "endname req = e" "i \<le> 5"
    using g by (simp_all add: going_def)
  obtain r where r: "ok r" "(rpcState (rpcs w ! k), rpcHandler (rpcs w ! k)) =
     (if i = 5 then (Sent, NotStarted) else if i = 4 then (Accepted, NotStarted)
      else if i = 3 then (Waiting (good_info n a), Started a) else if i = 2 then (Waiting (good_info n a), Returned r)
      else if i = 1 then (Checking (good_info n a) (Some r), Returned r) else (Answered r, Returned r))"
    using g unfolding going_def on_track_def by blast
  note reads = wired_reads [OF w]
  obtain ob' r' where d: "Server_dispatch C (srvs w a) req (objs w) = ((srvs w a)\<lparr>srvCount := srvCount (srvs w a) + 1\<rparr>, Inr (ob', r'))" "ok r'"
    using well_typed_dispatch [of "srvs w a" req C "objs w"] w by (auto simp: wired_def)
  have nd: "\<not> netDone (net w)" using w by (simp add: wired_def)
  consider "i = 5" | "i = 4" | "i = 3" | "i = 2" | "i = 1" | "i = 0" using k(4) by linarith
  then show ?thesis
  proof cases
    case 1
    then have "rpcState (rpcs w ! k) = Sent" "rpcHandler (rpcs w ! k) = NotStarted" using r by simp_all
    then show ?thesis using ev s k r(1) nd 1
      by (cases ev) (auto simp: state_at_Some handler_at_Some accept_def on_track_def split: if_splits option.splits handler_state.splits proc_state.splits)
  next
    case 2
    then have "rpcState (rpcs w ! k) = Accepted" "rpcHandler (rpcs w ! k) = NotStarted" using r by simp_all
    then show ?thesis using ev s k r(1) reads 2
      by (cases ev) (auto simp: state_at_Some handler_at_Some process_read_def  on_track_def split: if_splits option.splits handler_state.splits proc_state.splits)
  next
    case 3
    then have "rpcState (rpcs w ! k) = Waiting (good_info n a)" "rpcHandler (rpcs w ! k) = Started a" using r by simp_all
    then show ?thesis using ev s k r(1) reads(2) d 3
      by (cases ev) (auto simp: state_at_Some handler_at_Some run_handler_def tick_def  on_track_def split: if_splits option.splits handler_state.splits proc_state.splits)
  next
    case 4
    then have "rpcState (rpcs w ! k) = Waiting (good_info n a)" "rpcHandler (rpcs w ! k) = Returned r" using r by simp_all
    then show ?thesis using ev s k r(1) reads(2) 4
      by (cases ev) (auto simp: state_at_Some handler_at_Some tick_def  on_track_def split: if_splits option.splits handler_state.splits proc_state.splits)
  next
    case 5
    then have "rpcState (rpcs w ! k) = Checking (good_info n a) (Some r)" "rpcHandler (rpcs w ! k) = Returned r" using r by simp_all
    then show ?thesis using ev s k r(1) reads(2) 5
      by (cases ev) (auto simp: state_at_Some handler_at_Some process_finish_def  on_track_def split: if_splits option.splits handler_state.splits proc_state.splits)
  next
    case 6
    then have "rpcState (rpcs w ! k) = Answered r" "rpcHandler (rpcs w ! k) = Returned r" using r by simp_all
    then show ?thesis using ev s k r(1) 6
      by (cases ev) (auto simp: state_at_Some handler_at_Some on_track_def split: if_splits option.splits handler_state.splits proc_state.splits)
  qed
qed

lemma going_step:
  assumes g: "going k e n a req i w" and ev: "net_enabled C w ev = Some w'" and alive: "crashed w' = None"
    and q: "\<And>f. ev \<noteq> Admin f" "\<And>b rs. ev \<noteq> SetServer b rs"
  shows "\<exists>j \<le> i. going k e n a req j w'"
proof -
  have w: "wired e n a req w" and k: "k < length (rpcs w)" "rpcReq (rpcs w ! k) = req" "endname req = e" "i \<le> 5"
    using g by (simp_all add: going_def)
  have w': "wired e n a req w'" by (rule wired_step [OF w ev q])
  show ?thesis
  proof (cases "subject ev = Some k")
    case False
    then show ?thesis using net_enabled_other [OF ev False k(1)] w' g by (intro exI [of _ i]) (simp add: going_def)
  next
    case True
    then have "going k e n a req (i - 1) w' \<or> going k e n a req i w'"
      using net_enabled_own [OF ev True g] alive w' k by (auto simp: going_def)
    then show ?thesis by (metis diff_le_self order_refl)
  qed
qed

fun undisturbed :: "('s, 'v) net_event \<Rightarrow> bool" where
  "undisturbed (Admin _) = False"
| "undisturbed (SetServer _ _) = False"
| "undisturbed _ = True"

lemma undisturbed_run:
  "\<exists>i. going k e n a req i w \<Longrightarrow> net_run C w es = Some w' \<Longrightarrow> list_all undisturbed es \<Longrightarrow> crashed w' = None
    \<Longrightarrow> \<exists>i. going k e n a req i w'"
proof (induction es arbitrary: w' rule: rev_induct)
  case (snoc ev es)
  from snoc.prems(2) obtain u where u: "net_run C w es = Some u" "crashed u = None" "net_enabled C u ev = Some w'"
    by (rule net_run_snocE)
  then obtain i where i: "going k e n a req i u" using snoc.IH [OF snoc.prems(1) u(1)] snoc.prems(3) by auto
  have "\<And>f. ev \<noteq> Admin f" "\<And>b rs. ev \<noteq> SetServer b rs" using snoc.prems(3) by auto
  then show ?case using going_step [OF i u(3) snoc.prems(4)] by blast
qed simp

text \<open>
  (C29) On a reliable network that does not reorder replies, a call of a registered method, with an
  argument of its type, through an enabled end that is connected to a live server, succeeds: as long
  as the network is not reconfigured, no interleaving with other calls makes it return false, and
  from every state that is reached at most five further steps, all of them possible, complete it
  with a positive answer.
\<close>

theorem reliable_call_succeeds:
  assumes "wired e n a (new_req C e meth v) w" and "list_all undisturbed es"
    and "net_run C w (Call e meth v # es) = Some w'" and "crashed w' = None"
  shows "(\<forall>r. state_at w' (length (rpcs w)) = Some (Answered r) \<longrightarrow> ok r) \<and> state_at w' (length (rpcs w)) \<noteq> Some Refused \<and>
    (\<exists>fs w'' r. length fs \<le> 5 \<and> net_run C w' fs = Some w'' \<and> state_at w'' (length (rpcs w)) = Some (Answered r) \<and> ok r)"
proof -
  let ?k = "length (rpcs w)" and ?req = "new_req C e meth v"
  obtain u where u: "net_exec C w (Call e meth v) = Some u" "net_run C u es = Some w'"
    using assms(3) by (auto simp: bind_eq_Some_conv)
  then have u': "u = w\<lparr>rpcs := rpcs w @ [\<lparr>rpcReq = ?req, rpcState = Sent, rpcHandler = NotStarted\<rparr>]\<rparr>"
    by (simp add: net_exec_def split: if_splits)
  obtain r :: replyMsg where "ok r" by (rule that [of "\<lparr>ok = True, reply = []\<rparr>"]) simp
  then have "going ?k e n a ?req 5 u" using assms(1) unfolding going_def u' by (auto simp: on_track_def wired_def new_req_def)
  then obtain i where i: "going ?k e n a ?req i w'" using undisturbed_run [OF _ u(2) assms(2,4)] by blast
  then have "(\<forall>r. state_at w' ?k = Some (Answered r) \<longrightarrow> ok r) \<and> state_at w' ?k \<noteq> Some Refused"
    by (auto simp: going_def on_track_def state_at_Some no_reply_def split: if_splits)
  moreover obtain fs w'' where "length fs = i" "net_run C w' fs = Some w''" "going ?k e n a ?req 0 w''"
    using going_finish [OF i assms(4)] by blast
  moreover have "i \<le> 5" using i by (simp add: going_def)
  ultimately show ?thesis by (auto simp: going_def on_track_def state_at_Some)
qed

definition echo_ready :: "(nat, string) world" where
  "echo_ready = (case net_run echo_codec echo_world echo_setup of Some w \<Rightarrow> w | None \<Rightarrow> echo_world)"

definition echo_some :: "(nat, string) net_event list" where
  "echo_some = [Call (NInt 1) ''Echo.Say'' ''b'', Accept 1, Accept 0, Read 0 True, Read 1 False, Handle 1, Tick 0]"

theorem reliable_call_succeeds_witness:
  "\<exists>w'. net_run echo_codec echo_ready (Call (NInt 1) ''Echo.Say'' ''a'' # echo_some) = Some w'
    \<and> (\<forall>r. state_at w' (length (rpcs echo_ready)) = Some (Answered r) \<longrightarrow> ok r) \<and> state_at w' (length (rpcs echo_ready)) \<noteq> Some Refused \<and>
    (\<exists>fs w'' r. length fs \<le> 5 \<and> net_run echo_codec w' fs = Some w'' \<and> state_at w'' (length (rpcs echo_ready)) = Some (Answered r) \<and> ok r)"
proof -
  let ?r = "net_run echo_codec echo_ready (Call (NInt 1) ''Echo.Say'' ''a'' # echo_some)"
  have "(case ?r of None \<Rightarrow> False | Some w \<Rightarrow> Option.is_none (crashed w))" by code_simp
  then obtain w' where w': "?r = Some w'" "crashed w' = None" by (auto simp: Option.is_none_def split: option.splits)
  have "wired (NInt 1) (NInt 9) 0 (new_req echo_codec (NInt 1) ''Echo.Say'' ''a'') echo_ready" by code_simp
  moreover have "list_all undisturbed echo_some" by code_simp
  ultimately show ?thesis using reliable_call_succeeds [OF _ _ w'] w'(1) by blast
qed

end
