(* ===== verification/GoResult.thy ===== *)
theory GoResult
  imports Prelude
begin

text \<open>
  Code that may stop the program: results \<open>'e + 'a\<close>, sequencing, and the loop
  \<open>for _, x := range xs {...}\<close> over a state, with the rules by which invariants pass through them.
\<close>

fun andThen :: "'e + 'a \<Rightarrow> ('a \<Rightarrow> 'e + 'b) \<Rightarrow> 'e + 'b" where
  "andThen (Inl e) f = Inl e"
| "andThen (Inr x) f = f x"

fun for_each :: "('x \<Rightarrow> 's \<Rightarrow> 'e + 's) \<Rightarrow> 'x list \<Rightarrow> 's \<Rightarrow> 'e + 's" where
  "for_each f [] s = Inr s"
| "for_each f (x # xs) s = andThen (f x s) (for_each f xs)"

lemma andThen_Inr: "andThen r f = Inr y \<longleftrightarrow> (\<exists>x. r = Inr x \<and> f x = Inr y)"
  by (cases r) auto

lemma andThen_InrE:
  assumes "andThen r f = Inr y"
  obtains x where "r = Inr x" and "f x = Inr y"
  using assms by (cases r) auto

lemma for_each_append: "for_each f (xs @ ys) s = andThen (for_each f xs s) (for_each f ys)"
proof (induction xs arbitrary: s)
  case (Cons x xs)
  then show ?case by (cases "f x s") simp_all
qed simp

lemma for_each_snoc: "for_each f (xs @ [x]) s = andThen (for_each f xs s) (f x)"
  unfolding for_each_append by (cases "for_each f xs s"; simp; cases "f x (projr (for_each f xs s))"; simp)

lemma for_each_total:
  "P s \<Longrightarrow> (\<And>x s. x \<in> set xs \<Longrightarrow> P s \<Longrightarrow> \<exists>s'. f x s = Inr s' \<and> P s') \<Longrightarrow> \<exists>s'. for_each f xs s = Inr s' \<and> P s'"
proof (induction xs arbitrary: s)
  case (Cons x xs)
  from Cons.prems(2) [of x s] Cons.prems(1) obtain s' where "f x s = Inr s'" "P s'" by auto
  then show ?case using Cons.IH [of s'] Cons.prems(2) by simp
qed simp

lemma for_each_inv:
  "for_each f xs s = Inr s' \<Longrightarrow> P s \<Longrightarrow> (\<And>x s s'. x \<in> set xs \<Longrightarrow> P s \<Longrightarrow> f x s = Inr s' \<Longrightarrow> P s') \<Longrightarrow> P s'"
proof (induction xs arbitrary: s)
  case (Cons x xs)
  then obtain u where "f x s = Inr u" "for_each f xs u = Inr s'" by (auto simp: andThen_Inr)
  then show ?case using Cons.IH [of u] Cons.prems(2,3) by (metis list.set_intros)
qed simp

lemma for_each_fold:
  "(\<And>x s. x \<in> set xs \<Longrightarrow> f x s = Inr (g x s)) \<Longrightarrow> for_each f xs s = Inr (fold g xs s)"
  by (induction xs arbitrary: s) simp_all

text \<open>An index out of the range of a slice.\<close>

abbreviation bounds :: fatal where
  "bounds \<equiv> Panic ''index out of range''"

end
