(* ===== verification/Raft.thy ===== *)
theory Raft
  imports GoResult LabRpc
begin

text \<open>
  The Raft peer of \<open>raft/raft.go\<close>, of which the repository has the interface with empty handlers,
  its debugging switch, and the persister of \<open>raft/persister.go\<close>. A byte slice is an optional string, \<open>None\<close>
  being \<open>nil\<close>: slices are never written after they were made, since \<open>Save\<close> replaces them by clones
  and the reading functions return clones. Persisters are shared between the tester and the peer,
  and are known by address.
\<close>

section \<open>The persister\<close>

type_synonym bytes = "string option"

definition content :: "bytes \<Rightarrow> string" where
  "content b = (case b of None \<Rightarrow> [] | Some s \<Rightarrow> s)"

record Persister =
  raftstate :: bytes
  snapshot :: bytes

definition MakePersister :: Persister where
  "MakePersister = \<lparr>raftstate = None, snapshot = None\<rparr>"

definition clone_bytes :: "bytes \<Rightarrow> bytes" where
  "clone_bytes orig = Some (content orig)"

definition Copy :: "Persister \<Rightarrow> Persister" where
  "Copy ps = MakePersister\<lparr>raftstate := raftstate ps, snapshot := snapshot ps\<rparr>"

definition ReadRaftState :: "Persister \<Rightarrow> bytes" where
  "ReadRaftState ps = clone_bytes (raftstate ps)"

definition RaftStateSize :: "Persister \<Rightarrow> nat" where
  "RaftStateSize ps = length (content (raftstate ps))"

definition Save :: "bytes \<Rightarrow> bytes \<Rightarrow> Persister \<Rightarrow> Persister" where
  "Save state snap ps = ps\<lparr>raftstate := clone_bytes state, snapshot := clone_bytes snap\<rparr>"

definition ReadSnapshot :: "Persister \<Rightarrow> bytes" where
  "ReadSnapshot ps = clone_bytes (snapshot ps)"

definition SnapshotSize :: "Persister \<Rightarrow> nat" where
  "SnapshotSize ps = length (content (snapshot ps))"

lemma content_simps [simp]: "content None = []" "content (Some s) = s" "content (clone_bytes b) = content b"
  by (simp_all add: content_def clone_bytes_def)

lemma Persister_reads [simp]:
  "content (ReadRaftState ps) = content (raftstate ps)" "content (ReadSnapshot ps) = content (snapshot ps)"
  "raftstate (Copy ps) = raftstate ps" "snapshot (Copy ps) = snapshot ps"
  "content (raftstate (Save a b ps)) = content a" "content (snapshot (Save a b ps)) = content b"
  "raftstate MakePersister = None" "snapshot MakePersister = None"
  by (simp_all add: ReadRaftState_def ReadSnapshot_def Copy_def Save_def MakePersister_def)

section \<open>The peer\<close>

text \<open>A command is a value of an interface: \<open>None\<close> is \<open>nil\<close>.\<close>

record 'c ApplyMsg =
  CommandValid :: bool
  Command :: "'c option"
  CommandIndex :: int
  SnapshotValid :: bool
  Snapshot :: bytes
  SnapshotTerm :: int
  SnapshotIndex :: int

record Raft =
  peers :: "name list"
  persister :: nat
  me :: nat
  dead :: "32 word"

definition GetState :: "Raft \<Rightarrow> int \<times> bool" where
  "GetState rf = (0, False)"

definition persist :: "Raft \<Rightarrow> Persister \<Rightarrow> Persister" where
  "persist rf ps = ps"

definition readPersist :: "bytes \<Rightarrow> Raft \<Rightarrow> Raft" where
  "readPersist data rf = (if data = None \<or> length (content data) < 1 then rf else rf)"

definition Raft_Snapshot :: "int \<Rightarrow> bytes \<Rightarrow> Raft \<Rightarrow> Raft" where
  "Raft_Snapshot index snap rf = rf"

text \<open>The handler sets nothing: the receiver and the reply stay as they are.\<close>

definition RequestVote :: "Raft \<Rightarrow> 'v \<Rightarrow> 'v \<Rightarrow> Raft \<times> 'v" where
  "RequestVote rf a r = (rf, r)"

text \<open>What \<open>sendRequestVote\<close> asks of the network: the call that it makes.\<close>

definition sendRequestVote :: "int \<Rightarrow> 'v \<Rightarrow> Raft \<Rightarrow> fatal + ('s, 'v) net_event" where
  "sendRequestVote server a rf = (if 0 \<le> server \<and> nat server < length (peers rf)
     then Inr (Call (peers rf ! nat server) ''Raft.RequestVote'' a) else Inl bounds)"

definition Start :: "'c option \<Rightarrow> Raft \<Rightarrow> int \<times> int \<times> bool" where
  "Start command rf = (let index = -1; term = -1; isLeader = True in (index, term, isLeader))"

definition Kill :: "Raft \<Rightarrow> Raft" where
  "Kill rf = rf\<lparr>dead := 1\<rparr>"

definition killed :: "Raft \<Rightarrow> bool" where
  "killed rf \<longleftrightarrow> dead rf = 1"

text \<open>
  The ticker, with the states of the peer in which the loop reads \<open>dead\<close>, and the random numbers it draws: the
  pauses, in milliseconds, that it made before it ended.
\<close>

definition ticker_pause :: "nat \<Rightarrow> nat" where
  "ticker_pause r = 50 + r mod 300"

partial_function (option) ticker :: "(nat \<Rightarrow> Raft) \<Rightarrow> (nat \<Rightarrow> nat) \<Rightarrow> nat \<Rightarrow> nat list \<Rightarrow> nat list option" where
  "ticker rf rnd i pauses = (if \<not> killed (rf i) then ticker rf rnd (i + 1) (pauses @ [ticker_pause (rnd i)]) else Some pauses)"

definition Make :: "name list \<Rightarrow> nat \<Rightarrow> nat \<Rightarrow> Persister \<Rightarrow> Raft" where
  "Make es i ps contents = readPersist (ReadRaftState contents) \<lparr>peers = es, persister = ps, me = i, dead = 0\<rparr>"

definition DPrintf :: "bool \<Rightarrow> string \<Rightarrow> string list \<Rightarrow> string list" where
  "DPrintf debug line out = (if debug then out @ [line] else out)"

lemma ticker_returns:
  assumes "\<And>j. j < k \<Longrightarrow> \<not> killed (rf j)" and "killed (rf k)"
  shows "ticker rf rnd 0 [] = Some (map (\<lambda>i. ticker_pause (rnd i)) [0..<k])"
proof -
  have "ticker rf rnd i ps = Some (ps @ map (\<lambda>i. ticker_pause (rnd i)) [i..<k])" if "i \<le> k" for i ps
    using that
  proof (induction "k - i" arbitrary: i ps)
    case 0
    then show ?case using assms(2) by (subst ticker.simps) simp
  next
    case (Suc d)
    then have "i < k" by simp
    then show ?case using Suc assms(1) by (subst ticker.simps) (simp add: upt_conv_Cons)
  qed
  from this [of 0 "[]"] show ?thesis by simp
qed

section \<open>The methods of a peer, as the network sees them\<close>

definition raft_method ::
  "string \<Rightarrow> nat \<Rightarrow> bool \<Rightarrow> nat \<Rightarrow> (Raft \<Rightarrow> 'v \<Rightarrow> 'v \<Rightarrow> Raft \<times> 'v) \<Rightarrow> (Raft, 'v) rmethod" where
  "raft_method n ins ptr outs f = \<lparr>mName = n, mPkgPath = [], mNumIn = ins, mArgType = 0, mReplyIsPtr = ptr, mReplyType = 1,
     mNumOut = outs, mFunc = f\<rparr>"

text \<open>The exported methods in the order of \<open>reflect\<close>, with the shape of their signatures.\<close>

definition raft_methods :: "(Raft, 'v) rmethod list" where
  "raft_methods = [raft_method ''GetState'' 1 False 2 (\<lambda>rf a r. (rf, r)), raft_method ''Kill'' 1 False 0 (\<lambda>rf a r. (Kill rf, r)),
     raft_method ''RequestVote'' 3 True 0 RequestVote, raft_method ''Snapshot'' 3 False 0 (\<lambda>rf a r. (rf, r)),
     raft_method ''Start'' 2 False 3 (\<lambda>rf a r. (rf, r))]"

definition raft_server :: "nat \<Rightarrow> (Raft, 'v) Server" where
  "raft_server rf = AddService MakeServer (MakeService rf ''Raft'' raft_methods)"

text \<open>Only \<open>RequestVote\<close> can be called from outside.\<close>

lemma raft_server_services:
  "services (raft_server rf) = [(''Raft'', \<lparr>svcName = ''Raft'', rcvr = rf, methods = [(''RequestVote'', raft_method ''RequestVote'' 3 True 0 RequestVote)]\<rparr>)]"
  by (simp add: raft_server_def AddService_def MakeServer_def MakeService_def raft_methods_def handler_shape_def raft_method_def)

end
