(* ===== verification/RaftConfig.thy ===== *)
theory RaftConfig
  imports Raft
begin

text \<open>
  The Raft tester \<open>raft/config.go\<close>: the servers under test, their persisters, the ends through
  which they call each other, and the log of what each has applied. Pointers to peers, persisters
  and servers are addresses into heaps that the configuration carries, because the tester isolates
  the instances of a server from each other by giving each a persister of its own. Random end names,
  the clock (in nanoseconds), and what the peers answer while a check is waiting, are arguments; sleeping is left
  out. \<open>t.Fatal\<close> and \<open>log.Fatal\<close> are the error \<open>Fatal\<close>.
\<close>

section \<open>The configuration\<close>

text \<open>What \<open>checkLogs\<close> and the appliers complain about, with the arguments of the message.\<close>

datatype 'c apply_err =
    Mismatch int nat "'c option" nat "'c option"
  | OutOfOrder nat int
  | Unexpected nat int int
  | WrongSnapshot nat

record ('c, 'v) config =
  finished :: "32 word"
  cnet :: Network
  cn :: nat
  rafts :: "nat option list"
  applyErr :: "string list"
  connected :: "bool list"
  saved :: "nat option list"
  endnames :: "string list option list"
  logs :: "(int \<rightharpoonup> 'c option) list"
  lastApplied :: "int list"
  startTime :: int
  t0 :: int
  rpcs0 :: int
  cmds0 :: int
  bytes0 :: int
  maxIndex :: int
  maxIndex0 :: int
  pheap :: "nat \<Rightarrow> Persister"
  pnext :: nat
  rheap :: "nat \<Rightarrow> Raft"
  rnext :: nat
  sheap :: "nat \<Rightarrow> (Raft, 'v) Server"
  snext :: nat

definition new_persister :: "nat \<Rightarrow> Persister \<Rightarrow> ('c, 'v) config \<Rightarrow> ('c, 'v) config" where
  "new_persister i p cfg = cfg\<lparr>pheap := (pheap cfg)(pnext cfg := p), saved := (saved cfg)[i := Some (pnext cfg)], pnext := pnext cfg + 1\<rparr>"

definition saved_at :: "('c, 'v) config \<Rightarrow> nat \<Rightarrow> Persister option" where
  "saved_at cfg i = map_option (pheap cfg) (saved cfg ! i)"

section \<open>Attaching and detaching servers\<close>

definition endname_at :: "('c, 'v) config \<Rightarrow> nat \<Rightarrow> nat \<Rightarrow> fatal + name" where
  "endname_at cfg i j = (case endnames cfg ! i of None \<Rightarrow> Inl bounds
     | Some es \<Rightarrow> if j < length es then Inr (NStr (es ! j)) else Inl bounds)"

definition enable_end :: "nat \<Rightarrow> nat \<Rightarrow> bool \<Rightarrow> ('c, 'v) config \<Rightarrow> fatal + ('c, 'v) config" where
  "enable_end i j b cfg = andThen (endname_at cfg i j) (\<lambda>e. Inr (cfg\<lparr>cnet := Enable e b (cnet cfg)\<rparr>))"

definition connect :: "nat \<Rightarrow> ('c, 'v) config \<Rightarrow> fatal + ('c, 'v) config" where
  "connect i cfg = (if i \<ge> length (connected cfg) then Inl bounds else
     let cfg1 = cfg\<lparr>connected := (connected cfg)[i := True]\<rparr> in
     andThen (for_each (\<lambda>j c. if connected c ! j then enable_end i j True c else Inr c) [0..<cn cfg] cfg1)
       (for_each (\<lambda>j c. if connected c ! j then enable_end j i True c else Inr c) [0..<cn cfg]))"

definition disconnect :: "nat \<Rightarrow> ('c, 'v) config \<Rightarrow> fatal + ('c, 'v) config" where
  "disconnect i cfg = (if i \<ge> length (connected cfg) then Inl bounds else
     let cfg1 = cfg\<lparr>connected := (connected cfg)[i := False]\<rparr> in
     andThen (for_each (\<lambda>j c. if endnames c ! i \<noteq> None then enable_end i j False c else Inr c) [0..<cn cfg] cfg1)
       (for_each (\<lambda>j c. if endnames c ! j \<noteq> None then enable_end j i False c else Inr c) [0..<cn cfg]))"

section \<open>Crashing and starting servers\<close>

definition crash_persister :: "nat \<Rightarrow> ('c, 'v) config \<Rightarrow> ('c, 'v) config" where
  "crash_persister i cfg = (case saved_at cfg i of None \<Rightarrow> cfg | Some p \<Rightarrow> new_persister i (Copy p) cfg)"

definition crash_kill :: "nat \<Rightarrow> ('c, 'v) config \<Rightarrow> ('c, 'v) config" where
  "crash_kill i cfg = (case rafts cfg ! i of None \<Rightarrow> cfg
     | Some r \<Rightarrow> cfg\<lparr>rheap := (rheap cfg)(r := Kill (rheap cfg r)), rafts := (rafts cfg)[i := None]\<rparr>)"

definition crash_save :: "nat \<Rightarrow> ('c, 'v) config \<Rightarrow> ('c, 'v) config" where
  "crash_save i cfg = (case saved_at cfg i of None \<Rightarrow> cfg
     | Some p \<Rightarrow> new_persister i (Save (ReadRaftState p) (ReadSnapshot p) MakePersister) cfg)"

definition crash1 :: "nat \<Rightarrow> ('c, 'v) config \<Rightarrow> fatal + ('c, 'v) config" where
  "crash1 i cfg = andThen (disconnect i cfg) (\<lambda>cfg.
     Inr (crash_save i (crash_kill i (crash_persister i (cfg\<lparr>cnet := DeleteServer (NInt (int i)) (cnet cfg)\<rparr>)))))"

text \<open>
  \<open>ingestSnap\<close>, with the decoder of snapshots as an argument: the index and the log that a snapshot
  holds. It returns its message, if any, beside the configuration.
\<close>

definition ingestSnap ::
  "(string \<Rightarrow> (int \<times> 'c option list) option) \<Rightarrow> nat \<Rightarrow> bytes \<Rightarrow> int \<Rightarrow> ('c, 'v) config \<Rightarrow> fatal + ('c, 'v) config \<times> 'c apply_err option" where
  "ingestSnap decSnap i snap idx cfg = (case snap of None \<Rightarrow> Inl (Fatal ''nil snapshot'')
   | Some s \<Rightarrow> (case decSnap s of None \<Rightarrow> Inl (Fatal ''snapshot decode error'')
     | Some (lastIncludedIndex, xlog) \<Rightarrow>
         if idx \<noteq> -1 \<and> idx \<noteq> lastIncludedIndex then Inr (cfg, Some (WrongSnapshot i))
         else Inr (cfg\<lparr>logs := (logs cfg)[i := (\<lambda>j. if 0 \<le> j \<and> j < int (length xlog) then Some (xlog ! nat j) else None)],
           lastApplied := (lastApplied cfg)[i := lastIncludedIndex]\<rparr>, None)))"

definition start_ends :: "nat \<Rightarrow> (nat \<Rightarrow> string) \<Rightarrow> ('c, 'v) config \<Rightarrow> fatal + ('c, 'v) config" where
  "start_ends i names cfg =
     for_each (\<lambda>j c. andThen (MakeEnd (NStr (names j)) (cnet c)) (\<lambda>rn. Inr (c\<lparr>cnet := Connect (NStr (names j)) (NInt (int j)) rn\<rparr>)))
       [0..<cn cfg] (cfg\<lparr>endnames := (endnames cfg)[i := Some (map names [0..<cn cfg])]\<rparr>)"

definition start_persister ::
  "(string \<Rightarrow> (int \<times> 'c option list) option) \<Rightarrow> nat \<Rightarrow> ('c, 'v) config \<Rightarrow> fatal + ('c, 'v) config" where
  "start_persister decSnap i cfg = (let cfg = cfg\<lparr>lastApplied := (lastApplied cfg)[i := 0]\<rparr> in
     case saved_at cfg i of
       None \<Rightarrow> Inr (new_persister i MakePersister cfg)
     | Some p \<Rightarrow> let cfg = new_persister i (Copy p) cfg; snap = ReadSnapshot (Copy p) in
         if snap \<noteq> None \<and> content snap \<noteq> [] then
           andThen (ingestSnap decSnap i snap (-1) cfg) (\<lambda>(cfg, err). if err \<noteq> None then Inl (Fatal ''snapshot'') else Inr cfg)
         else Inr cfg)"

definition start_raft :: "nat \<Rightarrow> (nat \<Rightarrow> string) \<Rightarrow> ('c, 'v) config \<Rightarrow> ('c, 'v) config" where
  "start_raft i names cfg = (case saved cfg ! i of None \<Rightarrow> cfg | Some a \<Rightarrow>
     let rf = rnext cfg; srv = snext cfg in
     cfg\<lparr>rheap := (rheap cfg)(rf := Make (map (\<lambda>j. NStr (names j)) [0..<cn cfg]) i a (pheap cfg a)), rnext := rf + 1,
       rafts := (rafts cfg)[i := Some rf], sheap := (sheap cfg)(srv := raft_server rf), snext := srv + 1,
       cnet := AddServer (NInt (int i)) srv (cnet cfg)\<rparr>)"

definition start1 ::
  "(string \<Rightarrow> (int \<times> 'c option list) option) \<Rightarrow> nat \<Rightarrow> (nat \<Rightarrow> string) \<Rightarrow> ('c, 'v) config \<Rightarrow> fatal + ('c, 'v) config" where
  "start1 decSnap i names cfg = andThen (crash1 i cfg) (\<lambda>cfg. andThen (start_ends i names cfg)
     (\<lambda>cfg. andThen (start_persister decSnap i cfg) (\<lambda>cfg. Inr (start_raft i names cfg))))"

definition setunreliable :: "bool \<Rightarrow> ('c, 'v) config \<Rightarrow> ('c, 'v) config" where
  "setunreliable unrel cfg = cfg\<lparr>cnet := Reliable (\<not> unrel) (cnet cfg)\<rparr>"

definition setlongreordering :: "bool \<Rightarrow> ('c, 'v) config \<Rightarrow> ('c, 'v) config" where
  "setlongreordering longrel cfg = cfg\<lparr>cnet := LongReordering longrel (cnet cfg)\<rparr>"

definition empty_config :: "nat \<Rightarrow> int \<Rightarrow> ('c, 'v) config" where
  "empty_config n now = \<lparr>finished = 0, cnet = MakeNetwork, cn = n, rafts = replicate n None, applyErr = replicate n [],
     connected = replicate n False, saved = replicate n None, endnames = replicate n None, logs = replicate n (\<lambda>_. None),
     lastApplied = replicate n 0, startTime = now, t0 = 0, rpcs0 = 0, cmds0 = 0, bytes0 = 0, maxIndex = 0, maxIndex0 = 0,
     pheap = (\<lambda>_. MakePersister), pnext = 0, rheap = (\<lambda>_. \<lparr>peers = [], persister = 0, me = 0, dead = 0\<rparr>), rnext = 0,
     sheap = (\<lambda>_. MakeServer), snext = 0\<rparr>"

definition make_config ::
  "(string \<Rightarrow> (int \<times> 'c option list) option) \<Rightarrow> nat \<Rightarrow> bool \<Rightarrow> (nat \<Rightarrow> nat \<Rightarrow> string) \<Rightarrow> int \<Rightarrow> fatal + ('c, 'v) config" where
  "make_config decSnap n unreliable names now = (let cfg = setunreliable unreliable (empty_config n now);
       cfg = cfg\<lparr>cnet := LongDelays True (cnet cfg)\<rparr> in
     andThen (for_each (\<lambda>i c. start1 decSnap i (names i) (c\<lparr>logs := (logs c)[i := (\<lambda>_. None)]\<rparr>)) [0..<n] cfg)
       (for_each connect [0..<n]))"

section \<open>What the servers apply\<close>

text \<open>\<open>checkLogs\<close>: the later mismatches overwrite the message of the earlier ones.\<close>

definition checkLogs :: "nat \<Rightarrow> 'c ApplyMsg \<Rightarrow> ('c, 'v) config \<Rightarrow> ('c, 'v) config \<times> 'c apply_err option \<times> bool" where
  "checkLogs i m cfg = (let v = Command m;
       err = fold (\<lambda>j err. case (logs cfg ! j) (CommandIndex m) of
           Some old \<Rightarrow> if old \<noteq> v then Some (Mismatch (CommandIndex m) i v j old) else err
         | None \<Rightarrow> err) [0..<length (logs cfg)] None;
       prevok = (logs cfg ! i) (CommandIndex m - 1) \<noteq> None in
     (cfg\<lparr>logs := (logs cfg)[i := (logs cfg ! i)(CommandIndex m \<mapsto> v)],
        maxIndex := (if CommandIndex m > maxIndex cfg then CommandIndex m else maxIndex cfg)\<rparr>, err, prevok))"

text \<open>\<open>log.Fatalf\<close> ends the program, so that what the source has after it is never executed.\<close>

definition report :: "'c apply_err option \<Rightarrow> ('c, 'v) config \<Rightarrow> fatal + ('c, 'v) config" where
  "report err cfg = (if err \<noteq> None then Inl (Fatal ''apply error'') else Inr cfg)"

definition applier_msg :: "nat \<Rightarrow> 'c ApplyMsg \<Rightarrow> ('c, 'v) config \<Rightarrow> fatal + ('c, 'v) config" where
  "applier_msg i m cfg = (if CommandValid m = False then Inr cfg
     else let (cfg, err, prevok) = checkLogs i m cfg;
              err = (if CommandIndex m > 1 \<and> prevok = False then Some (OutOfOrder i (CommandIndex m)) else err) in
       report err cfg)"

definition applier :: "nat \<Rightarrow> 'c ApplyMsg list \<Rightarrow> ('c, 'v) config \<Rightarrow> fatal + ('c, 'v) config" where
  "applier i ms = for_each (applier_msg i) ms"

definition SnapShotInterval :: int where
  "SnapShotInterval = 10"

text \<open>The log that \<open>applierSnap\<close> puts into a snapshot: a missing entry is a nil command.\<close>

definition snap_log :: "nat \<Rightarrow> int \<Rightarrow> ('c, 'v) config \<Rightarrow> 'c option list" where
  "snap_log i idx cfg = map (\<lambda>j. case (logs cfg ! i) j of None \<Rightarrow> None | Some v \<Rightarrow> v) [0..idx]"

definition applierSnap_msg ::
  "(int \<Rightarrow> 'c option list \<Rightarrow> string) \<Rightarrow> (string \<Rightarrow> (int \<times> 'c option list) option) \<Rightarrow> nat \<Rightarrow> nat \<Rightarrow> 'c ApplyMsg
    \<Rightarrow> ('c, 'v) config \<Rightarrow> fatal + ('c, 'v) config" where
  "applierSnap_msg encSnap decSnap rf i m cfg =
     (if SnapshotValid m then andThen (ingestSnap decSnap i (Snapshot m) (SnapshotIndex m) cfg) (\<lambda>(cfg, err). report err cfg)
      else if CommandValid m then
        let err = (if CommandIndex m \<noteq> lastApplied cfg ! i + 1 then Some (Unexpected i (lastApplied cfg ! i + 1) (CommandIndex m)) else None);
            (cfg, err) = (if err = None then
                (let (cfg, err, prevok) = checkLogs i m cfg in
                 (cfg, if CommandIndex m > 1 \<and> prevok = False then Some (OutOfOrder i (CommandIndex m)) else err))
              else (cfg, err));
            cfg = cfg\<lparr>lastApplied := (lastApplied cfg)[i := CommandIndex m]\<rparr>;
            cfg = (if (CommandIndex m + 1) mod SnapShotInterval = 0
              then cfg\<lparr>rheap := (rheap cfg)(rf := Raft_Snapshot (CommandIndex m)
                (Some (encSnap (CommandIndex m) (snap_log i (CommandIndex m) cfg))) (rheap cfg rf))\<rparr>
              else cfg) in
        report err cfg
      else Inr cfg)"

text \<open>\<open>applierSnap\<close>: without a peer it returns at once.\<close>

definition applierSnap ::
  "(int \<Rightarrow> 'c option list \<Rightarrow> string) \<Rightarrow> (string \<Rightarrow> (int \<times> 'c option list) option) \<Rightarrow> nat \<Rightarrow> 'c ApplyMsg list
    \<Rightarrow> ('c, 'v) config \<Rightarrow> fatal + ('c, 'v) config" where
  "applierSnap encSnap decSnap i ms cfg = (case rafts cfg ! i of None \<Rightarrow> Inr cfg
     | Some rf \<Rightarrow> for_each (applierSnap_msg encSnap decSnap rf i) ms cfg)"

section \<open>Checks\<close>

definition checkTimeout :: "bool \<Rightarrow> int \<Rightarrow> ('c, 'v) config \<Rightarrow> fatal + ('c, 'v) config" where
  "checkTimeout failed now cfg = (if \<not> failed \<and> now - startTime cfg > 120 * 1000000000 then Inl (Fatal ''test took longer than 120 seconds'') else Inr cfg)"

definition checkFinished :: "('c, 'v) config \<Rightarrow> bool" where
  "checkFinished cfg \<longleftrightarrow> finished cfg \<noteq> 0"

definition kill_all :: "('c, 'v) config \<Rightarrow> ('c, 'v) config" where
  "kill_all cfg = fold (\<lambda>i c. case rafts c ! i of None \<Rightarrow> c | Some r \<Rightarrow> c\<lparr>rheap := (rheap c)(r := Kill (rheap c r))\<rparr>)
     [0..<length (rafts cfg)] cfg"

definition cleanup :: "bool \<Rightarrow> int \<Rightarrow> ('c, 'v) config \<Rightarrow> fatal + ('c, 'v) config" where
  "cleanup failed now cfg = (let cfg = kill_all (cfg\<lparr>finished := 1\<rparr>) in
     andThen (Cleanup (cnet cfg)) (\<lambda>rn. checkTimeout failed now (cfg\<lparr>cnet := rn\<rparr>)))"

definition rpcCount :: "nat \<Rightarrow> ('c, 'v) config \<Rightarrow> fatal + int" where
  "rpcCount server cfg = GetCount (NInt (int server)) (sheap cfg) (cnet cfg)"

definition rpcTotal :: "('c, 'v) config \<Rightarrow> int" where
  "rpcTotal cfg = GetTotalCount (cnet cfg)"

definition bytesTotal :: "('c, 'v) config \<Rightarrow> int" where
  "bytesTotal cfg = GetTotalBytes (cnet cfg)"

text \<open>The leaders by term, in the order in which the terms are first met.\<close>

definition leaders_at :: "(nat \<Rightarrow> int \<times> bool) \<Rightarrow> ('c, 'v) config \<Rightarrow> (int \<times> nat list) list" where
  "leaders_at gs cfg = fold (\<lambda>i m. if connected cfg ! i \<and> snd (gs i)
     then AList.update (fst (gs i)) ((case map_of m (fst (gs i)) of None \<Rightarrow> [] | Some is \<Rightarrow> is) @ [i]) m else m) [0..<cn cfg] []"

definition lastTermWithLeader :: "(int \<times> nat list) list \<Rightarrow> int" where
  "lastTermWithLeader m = fold (\<lambda>(t, _) l. if t > l then t else l) m (-1)"

fun checkOneLeader_loop :: "nat \<Rightarrow> (nat \<Rightarrow> nat \<Rightarrow> int \<times> bool) \<Rightarrow> nat \<Rightarrow> ('c, 'v) config \<Rightarrow> fatal + nat" where
  "checkOneLeader_loop 0 gs it cfg = Inl (Fatal ''expected one leader, got none'')"
| "checkOneLeader_loop (Suc k) gs it cfg = (let m = leaders_at (gs it) cfg in
     if \<exists>(t, is)\<in>set m. length is > 1 then Inl (Fatal ''term has more than one leader'')
     else if m \<noteq> [] then (case map_of m (lastTermWithLeader m) of Some (i # _) \<Rightarrow> Inr i | _ \<Rightarrow> Inl bounds)
     else checkOneLeader_loop k gs (it + 1) cfg)"

text \<open>\<open>gs it i\<close> is what \<open>GetState\<close> of server \<open>i\<close> answers in the iteration \<open>it\<close>.\<close>

definition checkOneLeader :: "(nat \<Rightarrow> nat \<Rightarrow> int \<times> bool) \<Rightarrow> ('c, 'v) config \<Rightarrow> fatal + nat" where
  "checkOneLeader gs cfg = checkOneLeader_loop 10 gs 0 cfg"

definition checkTerms :: "(nat \<Rightarrow> int \<times> bool) \<Rightarrow> ('c, 'v) config \<Rightarrow> fatal + int" where
  "checkTerms gs cfg = for_each (\<lambda>i t. if connected cfg ! i then
       (if t = -1 then Inr (fst (gs i)) else if t \<noteq> fst (gs i) then Inl (Fatal ''servers disagree on term'') else Inr t)
     else Inr t) [0..<cn cfg] (-1)"

definition checkNoLeader :: "(nat \<Rightarrow> int \<times> bool) \<Rightarrow> ('c, 'v) config \<Rightarrow> fatal + unit" where
  "checkNoLeader gs cfg = for_each (\<lambda>i u. if connected cfg ! i \<and> snd (gs i)
     then Inl (Fatal ''expected no leader among connected servers'') else Inr u) [0..<cn cfg] ()"

definition nCommitted :: "int \<Rightarrow> ('c, 'v) config \<Rightarrow> fatal + nat \<times> 'c option" where
  "nCommitted idx cfg = for_each (\<lambda>i (count, cmd).
     if applyErr cfg ! i \<noteq> [] then Inl (Fatal (applyErr cfg ! i))
     else case (logs cfg ! i) idx of None \<Rightarrow> Inr (count, cmd)
       | Some cmd1 \<Rightarrow> if count > 0 \<and> cmd \<noteq> cmd1 then Inl (Fatal ''committed values do not match'') else Inr (count + 1, cmd1))
     [0..<length (rafts cfg)] (0, None)"

text \<open>
  \<open>wait\<close>: \<open>cs k\<close> is the configuration at the \<open>k\<close>-th look at the logs, \<open>terms k\<close> are the terms that the
  peers report after it. The result \<open>None\<close> is the value -1, for a term that moved on.
\<close>

fun wait_loop :: "nat \<Rightarrow> int \<Rightarrow> nat \<Rightarrow> int \<Rightarrow> (nat \<Rightarrow> ('c, 'v) config) \<Rightarrow> (nat \<Rightarrow> int list) \<Rightarrow> nat \<Rightarrow> fatal + nat option" where
  "wait_loop 0 idx n startTerm cs terms k = Inr (Some k)"
| "wait_loop (Suc fuel) idx n startTerm cs terms k = andThen (nCommitted idx (cs k)) (\<lambda>(nd, _).
     if nd \<ge> n then Inr (Some (k + 1))
     else if startTerm > -1 \<and> (\<exists>t\<in>set (terms k). t > startTerm) then Inr None
     else wait_loop fuel idx n startTerm cs terms (k + 1))"

definition wait :: "int \<Rightarrow> nat \<Rightarrow> int \<Rightarrow> (nat \<Rightarrow> ('c, 'v) config) \<Rightarrow> (nat \<Rightarrow> int list) \<Rightarrow> fatal + 'c option option" where
  "wait idx n startTerm cs terms = andThen (wait_loop 30 idx n startTerm cs terms 0) (\<lambda>r. case r of
     None \<Rightarrow> Inr None
   | Some k \<Rightarrow> andThen (nCommitted idx (cs k)) (\<lambda>(nd, cmd). if nd < n then Inl (Fatal ''too few decided'') else Inr (Some cmd)))"

text \<open>
  \<open>one\<close>: each attempt has the configuration at its start, what \<open>Start\<close> answers per server (index and
  whether it is the leader), and the configurations at the looks at the logs in the two seconds that
  follow. The attempts end when the ten seconds are over; \<open>fin\<close> is \<open>checkFinished\<close> after that.
\<close>

record ('c, 'v) attempt =
  attConfig :: "('c, 'v) config"
  attStart :: "nat \<Rightarrow> int \<times> bool"
  attPolls :: "('c, 'v) config list"

fun try_servers :: "nat \<Rightarrow> (nat \<Rightarrow> int \<times> bool) \<Rightarrow> ('c, 'v) config \<Rightarrow> nat \<Rightarrow> nat \<times> int" where
  "try_servers 0 st cfg starts = (starts, -1)"
| "try_servers (Suc k) st cfg starts = (let starts = (starts + 1) mod cn cfg in
     if connected cfg ! starts \<and> rafts cfg ! starts \<noteq> None \<and> snd (st starts) then (starts, fst (st starts))
     else try_servers k st cfg starts)"

fun poll :: "'c option \<Rightarrow> nat \<Rightarrow> int \<Rightarrow> ('c, 'v) config list \<Rightarrow> fatal + bool" where
  "poll cmd expectedServers idx [] = Inr False"
| "poll cmd expectedServers idx (cfg # cfgs) = andThen (nCommitted idx cfg) (\<lambda>(nd, cmd1).
     if nd > 0 \<and> nd \<ge> expectedServers \<and> cmd1 = cmd then Inr True else poll cmd expectedServers idx cfgs)"

fun one :: "'c option \<Rightarrow> nat \<Rightarrow> bool \<Rightarrow> bool \<Rightarrow> nat \<Rightarrow> ('c, 'v) attempt list \<Rightarrow> fatal + int" where
  "one cmd expectedServers retry fin starts [] = (if \<not> fin then Inl (Fatal ''one failed to reach agreement'') else Inr (-1))"
| "one cmd expectedServers retry fin starts (a # as) = (if checkFinished (attConfig a) then Inr (-1) else
     let (starts, idx) = try_servers (cn (attConfig a)) (attStart a) (attConfig a) starts in
     if idx \<noteq> -1 then andThen (poll cmd expectedServers idx (attPolls a)) (\<lambda>agreed.
       if agreed then Inr idx else if \<not> retry then Inl (Fatal ''one failed to reach agreement'')
       else one cmd expectedServers retry fin starts as)
     else one cmd expectedServers retry fin starts as)"

definition begin_test :: "int \<Rightarrow> ('c, 'v) config \<Rightarrow> ('c, 'v) config" where
  "begin_test now cfg = cfg\<lparr>t0 := now, rpcs0 := rpcTotal cfg, bytes0 := bytesTotal cfg, cmds0 := 0, maxIndex0 := maxIndex cfg\<rparr>"

text \<open>The figures that \<open>end\<close> prints: time, peers, RPCs, bytes and agreements.\<close>

definition end_test :: "bool \<Rightarrow> int \<Rightarrow> ('c, 'v) config \<Rightarrow> fatal + (int \<times> nat \<times> int \<times> int \<times> int) option" where
  "end_test failed now cfg = andThen (checkTimeout failed now cfg) (\<lambda>cfg. Inr (if failed then None
     else Some (now - t0 cfg, cn cfg, rpcTotal cfg - rpcs0 cfg, bytesTotal cfg - bytes0 cfg, maxIndex cfg - maxIndex0 cfg)))"

definition LogSize :: "('c, 'v) config \<Rightarrow> fatal + nat" where
  "LogSize cfg = for_each (\<lambda>i logsize. case saved_at cfg i of None \<Rightarrow> Inl (Panic ''nil pointer dereference'')
     | Some p \<Rightarrow> Inr (if RaftStateSize p > logsize then RaftStateSize p else logsize)) [0..<cn cfg] 0"

end
