(* ===== verification/RaftApply.thy ===== *)
theory RaftApply
  imports RaftConfig
begin

text \<open>
  What the checks of the Raft tester decide: the appliers accept exactly the deliveries on which the
  servers agree and that have no gaps, the count of committed servers is then right,
  and \<open>checkOneLeader\<close> finds the leader of the latest term. A snapshot restores the log it was taken of.
\<close>

section \<open>Deliveries\<close>

text \<open>The messages that the servers delivered, in the order in which their appliers took them.\<close>

definition deliver :: "nat \<times> 'c ApplyMsg \<Rightarrow> ('c, 'v) config \<Rightarrow> fatal + ('c, 'v) config" where
  "deliver x = applier_msg (fst x) (snd x)"

definition applied :: "(nat \<times> 'c ApplyMsg) list \<Rightarrow> nat \<Rightarrow> int \<Rightarrow> 'c option \<Rightarrow> bool" where
  "applied msgs i k v \<longleftrightarrow> (\<exists>m. (i, m) \<in> set msgs \<and> CommandValid m \<and> CommandIndex m = k \<and> Command m = v)"

definition agreed :: "(nat \<times> 'c ApplyMsg) list \<Rightarrow> bool" where
  "agreed msgs \<longleftrightarrow> (\<forall>i j k v v'. applied msgs i k v \<longrightarrow> applied msgs j k v' \<longrightarrow> v = v')"

definition gapless :: "(nat \<times> 'c ApplyMsg) list \<Rightarrow> bool" where
  "gapless msgs \<longleftrightarrow> (\<forall>b<length msgs. CommandValid (snd (msgs ! b)) \<longrightarrow> CommandIndex (snd (msgs ! b)) > 1
     \<longrightarrow> (\<exists>v. applied (take b msgs) (fst (msgs ! b)) (CommandIndex (snd (msgs ! b)) - 1) v))"

definition fits :: "(nat \<times> 'c ApplyMsg) list \<Rightarrow> nat \<times> 'c ApplyMsg \<Rightarrow> bool" where
  "fits msgs x \<longleftrightarrow> (CommandValid (snd x) \<longrightarrow> (\<forall>j v. applied msgs j (CommandIndex (snd x)) v \<longrightarrow> v = Command (snd x))
     \<and> (CommandIndex (snd x) > 1 \<longrightarrow> (\<exists>v. applied msgs (fst x) (CommandIndex (snd x) - 1) v)))"

lemma applied_snoc:
  "applied (msgs @ [x]) i k v \<longleftrightarrow> applied msgs i k v
    \<or> i = fst x \<and> CommandValid (snd x) \<and> CommandIndex (snd x) = k \<and> Command (snd x) = v"
  by (cases x) (auto simp: applied_def)

lemma agreed_snoc:
  "agreed (msgs @ [x]) \<longleftrightarrow> agreed msgs \<and> (CommandValid (snd x) \<longrightarrow> (\<forall>j v. applied msgs j (CommandIndex (snd x)) v \<longrightarrow> v = Command (snd x)))"
  unfolding agreed_def applied_snoc by blast

lemma gapless_snoc:
  "gapless (msgs @ [x]) \<longleftrightarrow> gapless msgs \<and> (CommandValid (snd x) \<longrightarrow> CommandIndex (snd x) > 1
    \<longrightarrow> (\<exists>v. applied msgs (fst x) (CommandIndex (snd x) - 1) v))"
  by (auto simp: gapless_def nth_append less_Suc_eq)

lemma fits_snoc: "agreed (msgs @ [x]) \<and> gapless (msgs @ [x]) \<longleftrightarrow> (agreed msgs \<and> gapless msgs) \<and> fits msgs x"
  by (auto simp: agreed_snoc gapless_snoc fits_def)

section \<open>The tester's copy of the logs\<close>

definition tracks :: "nat \<Rightarrow> (nat \<times> 'c ApplyMsg) list \<Rightarrow> ('c, 'v) config \<Rightarrow> bool" where
  "tracks n msgs cfg \<longleftrightarrow> length (logs cfg) = n \<and> length (rafts cfg) = n \<and> applyErr cfg = replicate n []
     \<and> (\<forall>i<n. \<forall>k v. (logs cfg ! i) k = Some v \<longleftrightarrow> applied msgs i k v)"

lemma fold_mismatch:
  "fold (\<lambda>j err. case f j of Some old \<Rightarrow> if old \<noteq> v then Some (g j old) else err | None \<Rightarrow> err) js err = None
    \<longleftrightarrow> err = None \<and> (\<forall>j\<in>set js. \<forall>old. f j = Some old \<longrightarrow> old = v)"
proof (induction js arbitrary: err)
  case (Cons j js)
  show ?case by (cases "f j") (auto simp: Cons.IH)
qed simp

lemma checkLogs_err:
  "fst (snd (checkLogs i m cfg)) = None \<longleftrightarrow> (\<forall>j<length (logs cfg). \<forall>old. (logs cfg ! j) (CommandIndex m) = Some old \<longrightarrow> old = Command m)"
  unfolding checkLogs_def Let_def fst_conv snd_conv fold_mismatch by auto

lemma deliver_accepts:
  assumes t: "tracks n msgs cfg" and i: "i < n" "\<forall>(j, m)\<in>set msgs. j < n"
  shows "(\<exists>cfg'. deliver (i, m) cfg = Inr cfg') \<longleftrightarrow> fits msgs (i, m)"
proof (cases "CommandValid m")
  case True
  have l: "(logs cfg ! j) k = Some v \<longleftrightarrow> applied msgs j k v" if "j < n" for j k v using t that by (simp add: tracks_def)
  have j: "applied msgs j k v \<Longrightarrow> j < n" for j k v using i(2) by (auto simp: applied_def)
  have e: "fst (snd (checkLogs i m cfg)) = None \<longleftrightarrow> (\<forall>j v. applied msgs j (CommandIndex m) v \<longrightarrow> v = Command m)"
    unfolding checkLogs_err using l j t [unfolded tracks_def] by blast
  have p: "snd (snd (checkLogs i m cfg)) \<longleftrightarrow> (\<exists>v. applied msgs i (CommandIndex m - 1) v)"
    using l [OF i(1)] by (simp add: checkLogs_def Let_def)
  show ?thesis using e p True by (auto simp: deliver_def applier_msg_def report_def fits_def case_prod_beta Let_def)
next
  case False
  then show ?thesis by (simp add: deliver_def applier_msg_def fits_def)
qed

lemma deliver_tracks:
  assumes t: "tracks n msgs cfg" and d: "deliver (i, m) cfg = Inr cfg'" and i: "i < n" and f: "fits msgs (i, m)"
  shows "tracks n (msgs @ [(i, m)]) cfg'"
proof (cases "CommandValid m")
  case True
  then have "logs cfg' = (logs cfg)[i := (logs cfg ! i)(CommandIndex m \<mapsto> Command m)]" "rafts cfg' = rafts cfg" "applyErr cfg' = applyErr cfg"
    using d by (auto simp: deliver_def applier_msg_def report_def checkLogs_def Let_def split: if_splits)
  moreover have "v = Command m" if "applied msgs i (CommandIndex m) v" for v using f that True by (simp add: fits_def)
  ultimately show ?thesis using t i True by (auto simp: tracks_def nth_list_update applied_snoc)
next
  case False
  then show ?thesis using t d by (simp add: deliver_def applier_msg_def tracks_def applied_snoc)
qed

lemma deliveries:
  assumes "tracks n [] cfg" and "\<forall>(i, m)\<in>set msgs. i < n"
  shows "case for_each deliver msgs cfg of Inl _ \<Rightarrow> \<not> (agreed msgs \<and> gapless msgs)
    | Inr cfg' \<Rightarrow> (agreed msgs \<and> gapless msgs) \<and> tracks n msgs cfg'"
  using assms(2)
proof (induction msgs rule: rev_induct)
  case Nil
  then show ?case using assms(1) by (simp add: agreed_def gapless_def applied_def)
next
  case (snoc x msgs)
  obtain i m where x: "x = (i, m)" by (cases x)
  have i: "i < n" "\<forall>(j, m)\<in>set msgs. j < n" using snoc.prems x by auto
  show ?case
  proof (cases "for_each deliver msgs cfg")
    case (Inl e)
    then have "\<not> (agreed msgs \<and> gapless msgs)" using snoc by auto
    then show ?thesis using Inl by (auto simp: for_each_snoc agreed_snoc gapless_snoc)
  next
    case (Inr u)
    then have u: "agreed msgs \<and> gapless msgs" "tracks n msgs u" using snoc i by auto
    have iff: "(\<exists>cfg'. deliver x u = Inr cfg') \<longleftrightarrow> fits msgs x" unfolding x by (rule deliver_accepts [OF u(2) i])
    show ?thesis
    proof (cases "deliver x u")
      case (Inl e)
      then have "\<not> fits msgs x" using iff by simp
      then show ?thesis using Inr Inl unfolding fits_snoc by (simp add: for_each_snoc)
    next
      case (Inr w)
      note ww = Inr
      then have f: "fits msgs x" using iff by simp
      then have "tracks n (msgs @ [x]) w" using deliver_tracks [OF u(2) _ i(1)] ww x by blast
      then show ?thesis using ww f u(1) \<open>for_each deliver msgs cfg = Inr u\<close> unfolding fits_snoc by (simp add: for_each_snoc)
    qed
  qed
qed

lemma nCommitted_counts:
  assumes t: "tracks n msgs cfg" and w: "\<And>i v. applied msgs i idx v \<Longrightarrow> v = w"
  shows "nCommitted idx cfg = Inr (card {i. i < n \<and> (\<exists>v. applied msgs i idx v)}, if \<exists>i<n. \<exists>v. applied msgs i idx v then w else None)"
proof -
  let ?f = "\<lambda>i (count, cmd). if applyErr cfg ! i \<noteq> [] then Inl (Fatal (applyErr cfg ! i))
     else case (logs cfg ! i) idx of None \<Rightarrow> Inr (count, cmd)
       | Some cmd1 \<Rightarrow> if count > 0 \<and> cmd \<noteq> cmd1 then Inl (Fatal ''committed values do not match'') else Inr (count + 1, cmd1)"
  let ?r = "\<lambda>b. (card {i. i < b \<and> (\<exists>v. applied msgs i idx v)}, if \<exists>i<b. \<exists>v. applied msgs i idx v then w else None)"
  have "for_each ?f [0..<b] (0, None) = Inr (?r b)" if "b \<le> n" for b
    using that
  proof (induction b)
    case (Suc b)
    have l: "(logs cfg ! b) idx = Some v \<longleftrightarrow> applied msgs b idx v" for v using t Suc.prems by (simp add: tracks_def)
    have e: "applyErr cfg ! b = []" using t Suc.prems by (simp add: tracks_def)
    have s: "{i. i < Suc b \<and> (\<exists>v. applied msgs i idx v)} = (if \<exists>v. applied msgs b idx v then insert b else id) {i. i < b \<and> (\<exists>v. applied msgs i idx v)}"
      by (auto simp: less_Suc_eq)
    have c: "0 < card {i. i < b \<and> (\<exists>v. applied msgs i idx v)} \<longleftrightarrow> (\<exists>i<b. \<exists>v. applied msgs i idx v)"
      by (auto simp: card_gt_0_iff)
    show ?case
    proof (cases "(logs cfg ! b) idx")
      case None
      then have "\<not> (\<exists>v. applied msgs b idx v)" using l by force
      then show ?thesis using Suc None e s by (auto simp: for_each_snoc less_Suc_eq)
    next
      case (Some v)
      then have v: "applied msgs b idx v" "v = w" using l w by blast+
      have "?r (Suc b) = (card {i. i < b \<and> (\<exists>v. applied msgs i idx v)} + 1, w)" using s v(1) by auto
      then show ?thesis using Suc Some e v c by (auto simp: for_each_snoc)
    qed
  qed simp
  from this [of n] show ?thesis using t by (simp add: nCommitted_def tracks_def)
qed

text \<open>
  (C35) The tester's check of what the servers apply. Starting from empty logs, let the appliers of all
  servers take any sequence of deliveries, interleaved in any way. The run ends with an error exactly
  if two deliveries carry different commands for one index, or a server delivers an index above 1
  without having delivered the one before. Otherwise the tester's copies of the logs hold exactly
  what was delivered, and \<open>nCommitted\<close> never fails and answers with the number of servers that
  delivered the index and with the command that they agree on.
\<close>

theorem applier_decides:
  assumes "logs cfg = replicate n (\<lambda>_. None)" and "length (rafts cfg) = n" and "applyErr cfg = replicate n []"
    and "\<forall>(i, m)\<in>set msgs. i < n"
  shows "case for_each deliver msgs cfg of Inl _ \<Rightarrow> \<not> (agreed msgs \<and> gapless msgs)
    | Inr cfg' \<Rightarrow> agreed msgs \<and> gapless msgs \<and> (\<forall>i<n. \<forall>k v. (logs cfg' ! i) k = Some v \<longleftrightarrow> applied msgs i k v)
      \<and> (\<forall>k. \<exists>c. nCommitted k cfg' = Inr (card {i. i < n \<and> (\<exists>v. applied msgs i k v)}, c) \<and> (\<forall>i v. applied msgs i k v \<longrightarrow> c = v))"
proof -
  have t: "tracks n [] cfg" using assms(1-3) by (simp add: tracks_def applied_def)
  show ?thesis
  proof (cases "for_each deliver msgs cfg")
    case (Inl e)
    then show ?thesis using deliveries [OF t assms(4)] by simp
  next
    case (Inr u)
    then have u: "agreed msgs" "gapless msgs" "tracks n msgs u" using deliveries [OF t assms(4)] by simp_all
    have "\<exists>c. nCommitted k u = Inr (card {i. i < n \<and> (\<exists>v. applied msgs i k v)}, c) \<and> (\<forall>i v. applied msgs i k v \<longrightarrow> c = v)" for k
    proof (cases "\<exists>i v. applied msgs i k v")
      case True
      then obtain i v where iv: "applied msgs i k v" by blast
      then have w: "v' = v" if "applied msgs j k v'" for j v' using u(1) that unfolding agreed_def by blast
      have "i < n" using iv assms(4) by (auto simp: applied_def)
      then show ?thesis using nCommitted_counts [OF u(3) w] iv w by auto
    next
      case False
      then show ?thesis using nCommitted_counts [OF u(3), of k None] by auto
    qed
    then show ?thesis using Inr u by (simp add: tracks_def)
  qed
qed

definition sample_msg :: "int \<Rightarrow> nat \<Rightarrow> nat ApplyMsg" where
  "sample_msg k v = \<lparr>CommandValid = True, Command = Some v, CommandIndex = k, SnapshotValid = False, Snapshot = None,
     SnapshotTerm = 0, SnapshotIndex = 0\<rparr>"

definition sample_msgs :: "(nat \<times> nat ApplyMsg) list" where
  "sample_msgs = [(0, sample_msg 1 7), (1, sample_msg 1 7), (0, sample_msg 2 8)]"

theorem applier_decides_witness:
  "\<exists>cfg'. for_each deliver sample_msgs (empty_config 2 0 :: (nat, nat) config) = Inr cfg' \<and> agreed sample_msgs \<and> gapless sample_msgs
    \<and> (\<forall>i<2. \<forall>k v. (logs cfg' ! i) k = Some v \<longleftrightarrow> applied sample_msgs i k v)
    \<and> (\<forall>k. \<exists>c. nCommitted k cfg' = Inr (card {i. i < 2 \<and> (\<exists>v. applied sample_msgs i k v)}, c) \<and> (\<forall>i v. applied sample_msgs i k v \<longrightarrow> c = v))"
proof -
  have "case for_each deliver sample_msgs (empty_config 2 0 :: (nat, nat) config) of Inl _ \<Rightarrow> False | Inr _ \<Rightarrow> True" by code_simp
  then obtain cfg' where c: "for_each deliver sample_msgs (empty_config 2 0 :: (nat, nat) config) = Inr cfg'"
    by (cases "for_each deliver sample_msgs (empty_config 2 0 :: (nat, nat) config)") auto
  have "\<forall>(i, m)\<in>set sample_msgs. i < 2" by (simp add: sample_msgs_def)
  then show ?thesis using applier_decides [of "empty_config 2 0 :: (nat, nat) config" 2 sample_msgs] c
    by (simp add: empty_config_def)
qed

section \<open>Leaders\<close>

definition claims :: "(nat \<Rightarrow> int \<times> bool) \<Rightarrow> ('c, 'v) config \<Rightarrow> nat \<Rightarrow> bool" where
  "claims gs cfg i \<longleftrightarrow> i < cn cfg \<and> connected cfg ! i \<and> snd (gs i)"

definition leaders_of :: "(nat \<Rightarrow> int \<times> bool) \<Rightarrow> ('c, 'v) config \<Rightarrow> int \<Rightarrow> nat list" where
  "leaders_of gs cfg t = filter (\<lambda>i. connected cfg ! i \<and> snd (gs i) \<and> fst (gs i) = t) [0..<cn cfg]"

lemma leaders_at_lookup:
  "map_of (leaders_at gs cfg) t = (if leaders_of gs cfg t = [] then None else Some (leaders_of gs cfg t))"
  "distinct (map fst (leaders_at gs cfg))"
proof -
  let ?f = "\<lambda>i m. if connected cfg ! i \<and> snd (gs i)
     then AList.update (fst (gs i)) ((case map_of m (fst (gs i)) of None \<Rightarrow> [] | Some is \<Rightarrow> is) @ [i]) m else m"
  let ?l = "\<lambda>b t. filter (\<lambda>i. connected cfg ! i \<and> snd (gs i) \<and> fst (gs i) = t) [0..<b]"
  have "(\<forall>t. map_of (fold ?f [0..<b] []) t = (if ?l b t = [] then None else Some (?l b t))) \<and> distinct (map fst (fold ?f [0..<b] []))" for b
  proof (induction b)
    case (Suc b)
    let ?m = "fold ?f [0..<b] []"
    have IH: "map_of ?m t = (if ?l b t = [] then None else Some (?l b t))" "distinct (map fst ?m)" for t using Suc by simp_all
    have f: "fold ?f [0..<Suc b] [] = ?f b ?m" by simp
    show ?case
    proof (cases "connected cfg ! b \<and> snd (gs b)")
      case True
      have "map_of (?f b ?m) t = (if ?l (Suc b) t = [] then None else Some (?l (Suc b) t))" for t
        using True IH(1) by (cases "fst (gs b) = t") (simp_all add: update_conv')
      then show ?thesis using True IH(2) unfolding f by (simp add: distinct_update)
    next
      case False
      then have e: "?l (Suc b) t = ?l b t" "?f b ?m = ?m" for t by auto
      show ?thesis unfolding f e by (rule Suc)
    qed
  qed simp
  then show "map_of (leaders_at gs cfg) t = (if leaders_of gs cfg t = [] then None else Some (leaders_of gs cfg t))"
    "distinct (map fst (leaders_at gs cfg))"
    by (auto simp: leaders_at_def leaders_of_def)
qed

lemma leaders_at_set: "(t, is) \<in> set (leaders_at gs cfg) \<longleftrightarrow> is = leaders_of gs cfg t \<and> is \<noteq> []"
  using leaders_at_lookup [of gs cfg] map_of_eq_Some_iff [OF leaders_at_lookup(2), of gs cfg t "is"] by (auto split: if_splits)

lemma leaders_of_claims: "i \<in> set (leaders_of gs cfg t) \<longleftrightarrow> claims gs cfg i \<and> fst (gs i) = t"
  by (auto simp: leaders_of_def claims_def)

lemma length_gt_1: "distinct xs \<Longrightarrow> length xs > 1 \<longleftrightarrow> (\<exists>i\<in>set xs. \<exists>j\<in>set xs. i \<noteq> j)"
proof
  assume "distinct xs" "length xs > 1"
  then show "\<exists>i\<in>set xs. \<exists>j\<in>set xs. i \<noteq> j" by (cases xs; cases "tl xs") auto
next
  assume "\<exists>i\<in>set xs. \<exists>j\<in>set xs. i \<noteq> j"
  then show "length xs > 1" by (cases xs; cases "tl xs") auto
qed

definition split_vote :: "(nat \<Rightarrow> int \<times> bool) \<Rightarrow> ('c, 'v) config \<Rightarrow> bool" where
  "split_vote gs cfg \<longleftrightarrow> (\<exists>i j. claims gs cfg i \<and> claims gs cfg j \<and> i \<noteq> j \<and> fst (gs i) = fst (gs j))"

lemma two_leaders: "(\<exists>(t, is)\<in>set (leaders_at gs cfg). length is > 1) \<longleftrightarrow> split_vote gs cfg"
proof -
  have two: "length (leaders_of gs cfg t) > 1 \<longleftrightarrow> (\<exists>i j. claims gs cfg i \<and> claims gs cfg j \<and> i \<noteq> j \<and> fst (gs i) = t \<and> fst (gs j) = t)" for t
  proof -
    have "distinct (leaders_of gs cfg t)" by (simp add: leaders_of_def)
    from length_gt_1 [OF this] show ?thesis unfolding Bex_def leaders_of_claims by blast
  qed
  have "(\<exists>(t, is)\<in>set (leaders_at gs cfg). length is > 1) \<longleftrightarrow> (\<exists>t is. (t, is) \<in> set (leaders_at gs cfg) \<and> length is > 1)" by blast
  also have "\<dots> \<longleftrightarrow> (\<exists>t. length (leaders_of gs cfg t) > 1)"
  proof -
    have "length is > 1 \<Longrightarrow> is \<noteq> []" for "is" :: "nat list" by auto
    then show ?thesis unfolding leaders_at_set by blast
  qed
  also have "\<dots> \<longleftrightarrow> split_vote gs cfg" unfolding two split_vote_def by blast
  finally show ?thesis .
qed

lemma fold_max: "fold (\<lambda>(t, _) l. if t > l then t else l) m (a :: int) = Max (insert a (fst ` set m))"
proof (induction m arbitrary: a)
  case (Cons x m)
  obtain t u where x: "x = (t, u)" by (cases x)
  have "fold (\<lambda>(t, _) l. if t > l then t else l) (x # m) a = Max (insert (max (fst x) a) (fst ` set m))"
    using Cons.IH [of t] Cons.IH [of a] by (cases "a < t") (simp_all add: x max_def)
  also have "\<dots> = Max (insert a (fst ` set (x # m)))"
  proof (cases "fst ` set m = {}")
    case True
    then show ?thesis by (simp add: max.commute)
  next
    case False
    then show ?thesis by (simp add: max.assoc max.left_commute)
  qed
  finally show ?case .
qed simp

text \<open>\<open>i\<close> claims to be the leader, in the latest term in which anyone does.\<close>

definition latest_leader :: "(nat \<Rightarrow> int \<times> bool) \<Rightarrow> ('c, 'v) config \<Rightarrow> nat \<Rightarrow> bool" where
  "latest_leader gs cfg i \<longleftrightarrow> claims gs cfg i \<and> (\<forall>j. claims gs cfg j \<longrightarrow> fst (gs j) \<le> fst (gs i))"

lemma last_term:
  assumes "claims gs cfg j" and "\<And>j. claims gs cfg j \<Longrightarrow> 0 \<le> fst (gs j)"
  obtains i where "latest_leader gs cfg i" and "lastTermWithLeader (leaders_at gs cfg) = fst (gs i)"
proof -
  let ?T = "fst ` set (leaders_at gs cfg)"
  have T: "t \<in> ?T \<longleftrightarrow> (\<exists>i. claims gs cfg i \<and> fst (gs i) = t)" for t
  proof -
    have "t \<in> ?T \<longleftrightarrow> (\<exists>is. (t, is) \<in> set (leaders_at gs cfg))" by force
    then have "t \<in> ?T \<longleftrightarrow> leaders_of gs cfg t \<noteq> []" by (simp add: leaders_at_set)
    then show ?thesis using leaders_of_claims [of _ gs cfg t] by (metis list.set_sel(1) length_pos_if_in_set length_greater_0_conv)
  qed
  have "fst (gs j) \<in> ?T" using T assms(1) by blast
  then have ne: "?T \<noteq> {}" by auto
  have "Max ?T \<in> ?T" using ne by (intro Max_in) auto
  then obtain i where i: "claims gs cfg i" "fst (gs i) = Max ?T" using T by blast
  have "fst (gs k) \<le> Max ?T" if "claims gs cfg k" for k using T that by (intro Max_ge) auto
  then have l: "latest_leader gs cfg i" using i by (simp add: latest_leader_def)
  have "lastTermWithLeader (leaders_at gs cfg) = max (-1) (Max ?T)"
    using ne by (simp add: lastTermWithLeader_def fold_max)
  then have "lastTermWithLeader (leaders_at gs cfg) = fst (gs i)" using i assms(2) [OF i(1)] by simp
  with l show ?thesis by (rule that)
qed

lemma one_round:
  assumes t: "\<And>j. claims gs cfg j \<Longrightarrow> 0 \<le> fst (gs j)" and v: "\<not> split_vote gs cfg"
  shows "leaders_at gs cfg \<noteq> [] \<longleftrightarrow> (\<exists>i. claims gs cfg i)"
    and "latest_leader gs cfg i \<longleftrightarrow> leaders_at gs cfg \<noteq> [] \<and>
      (case map_of (leaders_at gs cfg) (lastTermWithLeader (leaders_at gs cfg)) of Some (j # _) \<Rightarrow> Inr j | _ \<Rightarrow> Inl bounds) = Inr i"
proof -
  have key: "\<exists>i is. map_of (leaders_at gs cfg) (lastTermWithLeader (leaders_at gs cfg)) = Some (i # is) \<and> latest_leader gs cfg i
      \<and> (\<forall>k. latest_leader gs cfg k \<longrightarrow> k = i) \<and> leaders_at gs cfg \<noteq> []" if j: "claims gs cfg j" for j
  proof -
    obtain i where i: "latest_leader gs cfg i" "lastTermWithLeader (leaders_at gs cfg) = fst (gs i)"
      by (rule last_term [OF j t])
    have u: "k = i" if "claims gs cfg k" "fst (gs k) = fst (gs i)" for k
      using v that i(1) unfolding split_vote_def latest_leader_def by blast
    have s: "set (leaders_of gs cfg (fst (gs i))) = {i}"
      using u i(1) by (auto simp: leaders_of_claims latest_leader_def)
    then obtain rest where rest: "leaders_of gs cfg (fst (gs i)) = i # rest" by (cases "leaders_of gs cfg (fst (gs i))") auto
    have only: "k = i" if k: "latest_leader gs cfg k" for k
    proof (rule u)
      have "fst (gs k) \<le> fst (gs i)" using k i(1) by (simp add: latest_leader_def)
      moreover have "fst (gs i) \<le> fst (gs k)" using k i(1) by (simp add: latest_leader_def)
      ultimately show "fst (gs k) = fst (gs i)" by simp
    qed (use k in \<open>simp add: latest_leader_def\<close>)
    have m: "map_of (leaders_at gs cfg) (lastTermWithLeader (leaders_at gs cfg)) = Some (i # rest)"
      using rest by (simp add: i(2) leaders_at_lookup(1))
    then have "leaders_at gs cfg \<noteq> []" by auto
    with m only i(1) show ?thesis by blast
  qed
  show e: "leaders_at gs cfg \<noteq> [] \<longleftrightarrow> (\<exists>i. claims gs cfg i)"
  proof
    assume "leaders_at gs cfg \<noteq> []"
    then obtain p ls where "(p, ls) \<in> set (leaders_at gs cfg)" by (cases "leaders_at gs cfg") auto
    then have "hd (leaders_of gs cfg p) \<in> set (leaders_of gs cfg p)" by (auto simp: leaders_at_set)
    then show "\<exists>i. claims gs cfg i" using leaders_of_claims by blast
  qed (use key in blast)
  show "latest_leader gs cfg i \<longleftrightarrow> leaders_at gs cfg \<noteq> [] \<and>
      (case map_of (leaders_at gs cfg) (lastTermWithLeader (leaders_at gs cfg)) of Some (j # _) \<Rightarrow> Inr j | _ \<Rightarrow> Inl bounds) = Inr i"
  proof (cases "\<exists>j. claims gs cfg j")
    case True
    then obtain k ks where k: "map_of (leaders_at gs cfg) (lastTermWithLeader (leaders_at gs cfg)) = Some (k # ks)" "latest_leader gs cfg k"
      "\<forall>l. latest_leader gs cfg l \<longrightarrow> l = k" "leaders_at gs cfg \<noteq> []" using key by blast
    have "latest_leader gs cfg i \<longleftrightarrow> k = i" using k(2,3) by blast
    then show ?thesis using k(1,4) by simp
  next
    case False
    then show ?thesis using e by (auto simp: latest_leader_def)
  qed
qed

lemma checkOneLeader_loop_iff:
  assumes t: "\<And>it j. claims (gs it) cfg j \<Longrightarrow> 0 \<le> fst (gs it j)"
  shows "checkOneLeader_loop k gs it cfg = Inr i \<longleftrightarrow> (\<exists>d<k. (\<forall>d'<d. \<forall>j. \<not> claims (gs (it + d')) cfg j)
    \<and> latest_leader (gs (it + d)) cfg i \<and> \<not> split_vote (gs (it + d)) cfg)"
proof (induction k arbitrary: it)
  case (Suc k)
  show ?case
  proof (cases "\<exists>j. claims (gs it) cfg j")
    case True
    then have "(\<exists>d<Suc k. (\<forall>d'<d. \<forall>j. \<not> claims (gs (it + d')) cfg j) \<and> latest_leader (gs (it + d)) cfg i \<and> \<not> split_vote (gs (it + d)) cfg)
      \<longleftrightarrow> latest_leader (gs it) cfg i \<and> \<not> split_vote (gs it) cfg" by (simp add: Ex_less_Suc2 All_less_Suc2) blast
    moreover have "checkOneLeader_loop (Suc k) gs it cfg = Inr i \<longleftrightarrow> latest_leader (gs it) cfg i \<and> \<not> split_vote (gs it) cfg"
    proof (cases "split_vote (gs it) cfg")
      case True
      then show ?thesis by (simp add: Let_def two_leaders del: One_nat_def)
    next
      case False
      then show ?thesis
        using one_round(1) [where gs = "gs it" and cfg = cfg, OF t] one_round(2) [where gs = "gs it" and cfg = cfg and i = i, OF t]
          \<open>\<exists>j. claims (gs it) cfg j\<close> by (simp add: Let_def two_leaders del: One_nat_def)
    qed
    ultimately show ?thesis by simp
  next
    case False
    then have v: "\<not> split_vote (gs it) cfg" "\<not> latest_leader (gs it) cfg j" for j by (auto simp: split_vote_def latest_leader_def)
    then have "checkOneLeader_loop (Suc k) gs it cfg = checkOneLeader_loop k gs (it + 1) cfg"
      using one_round(1) [where gs = "gs it" and cfg = cfg, OF t v(1)] False by (simp add: Let_def two_leaders del: One_nat_def)
    moreover have "(\<exists>d<Suc k. (\<forall>d'<d. \<forall>j. \<not> claims (gs (it + d')) cfg j) \<and> latest_leader (gs (it + d)) cfg i \<and> \<not> split_vote (gs (it + d)) cfg)
      \<longleftrightarrow> (\<exists>d<k. (\<forall>d'<d. \<forall>j. \<not> claims (gs (it + 1 + d')) cfg j) \<and> latest_leader (gs (it + 1 + d)) cfg i \<and> \<not> split_vote (gs (it + 1 + d)) cfg)"
      using v False by (simp add: Ex_less_Suc2 All_less_Suc2)
    ultimately show ?thesis using Suc.IH [of "it + 1"] by simp
  qed
qed simp

text \<open>
  (C36) \<open>checkOneLeader\<close>, for any answers of the servers with terms that are not negative: it returns
  a server exactly if, in the first of ten rounds in which some connected server claims to be the
  leader, no two connected servers claim it for the same term, and the returned one claims it for the
  latest term. In every other case it fails. So any other connected server that claims leadership in
  that round does it for an earlier term: such a server is tolerated, although the comment of the
  function asks that no other connected server thinks that it is the leader. The peers of the
  repository, whose \<open>GetState\<close> never claims leadership, fail the check.
\<close>

theorem checkOneLeader_correct:
  assumes "\<And>it j. claims (gs it) cfg j \<Longrightarrow> 0 \<le> fst (gs it j)"
  shows "(checkOneLeader gs cfg = Inr i \<longleftrightarrow> (\<exists>d<10. (\<forall>d'<d. \<forall>j. \<not> claims (gs d') cfg j) \<and> latest_leader (gs d) cfg i \<and> \<not> split_vote (gs d) cfg))
    \<and> (checkOneLeader gs cfg = Inr i \<longrightarrow> (\<exists>d<10. claims (gs d) cfg i \<and> (\<forall>j. claims (gs d) cfg j \<and> j \<noteq> i \<longrightarrow> fst (gs d j) < fst (gs d i))))
    \<and> ((\<forall>it j. gs it j = GetState (rheap cfg j)) \<longrightarrow> checkOneLeader gs cfg \<noteq> Inr i)"
proof -
  have l: "checkOneLeader gs cfg = Inr i \<longleftrightarrow> (\<exists>d<10. (\<forall>d'<d. \<forall>j. \<not> claims (gs d') cfg j) \<and> latest_leader (gs d) cfg i \<and> \<not> split_vote (gs d) cfg)"
    using checkOneLeader_loop_iff [where gs = gs and k = 10 and it = 0, OF assms] by (simp add: checkOneLeader_def)
  have "checkOneLeader gs cfg \<noteq> Inr i" if g: "\<forall>it j. gs it j = GetState (rheap cfg j)"
  proof -
    have "\<not> latest_leader (gs d) cfg i" for d using g by (simp add: latest_leader_def claims_def GetState_def)
    then show ?thesis unfolding l by blast
  qed
  moreover have "\<exists>d<10. claims (gs d) cfg i \<and> (\<forall>j. claims (gs d) cfg j \<and> j \<noteq> i \<longrightarrow> fst (gs d j) < fst (gs d i))" if "checkOneLeader gs cfg = Inr i"
  proof -
    from that l obtain d where d: "d < 10" "latest_leader (gs d) cfg i" "\<not> split_vote (gs d) cfg" by blast
    then have "fst (gs d j) < fst (gs d i)" if "claims (gs d) cfg j" "j \<noteq> i" for j
      using that unfolding latest_leader_def split_vote_def by (meson order.not_eq_order_implies_strict)
    with d show ?thesis unfolding latest_leader_def by blast
  qed
  ultimately show ?thesis using l by blast
qed

definition sample_claims :: "nat \<Rightarrow> nat \<Rightarrow> int \<times> bool" where
  "sample_claims it j = (if it = 0 then (0, False) else if j = 1 then (3, True) else (2, j = 0 \<or> j = 2))"

definition sample_connected :: "(nat, nat) config" where
  "sample_connected = (empty_config 3 0)\<lparr>connected := [True, True, False]\<rparr>"

theorem checkOneLeader_correct_witness:
  "(checkOneLeader sample_claims sample_connected = Inr 1 \<longleftrightarrow> (\<exists>d<10. (\<forall>d'<d. \<forall>j. \<not> claims (sample_claims d') sample_connected j)
      \<and> latest_leader (sample_claims d) sample_connected 1 \<and> \<not> split_vote (sample_claims d) sample_connected))
    \<and> checkOneLeader sample_claims sample_connected = Inr 1
    \<and> claims (sample_claims 1) sample_connected 0 \<and> claims (sample_claims 1) sample_connected 1"
proof -
  have "0 \<le> fst (sample_claims it j)" for it j by (simp add: sample_claims_def)
  moreover have "checkOneLeader sample_claims sample_connected = Inr 1" by code_simp
  moreover have "claims (sample_claims 1) sample_connected 0" "claims (sample_claims 1) sample_connected 1" by code_simp+
  ultimately show ?thesis using checkOneLeader_correct [of sample_claims sample_connected 1] by blast
qed

section \<open>Snapshots and agreements\<close>

text \<open>A snapshot that \<open>applierSnap\<close> took of a log restores that log, a missing entry as a nil command.\<close>

lemma snapshot_restores:
  assumes "\<And>k l. decSnap (encSnap k l) = Some (k, l)" and "j < length (logs cfg)" and "idx' = -1 \<or> idx' = idx"
  shows "\<exists>cfg'. ingestSnap decSnap j (Some (encSnap idx (snap_log i idx cfg))) idx' cfg = Inr (cfg', None)
    \<and> (\<forall>k. (logs cfg' ! j) k = (if 0 \<le> k \<and> k \<le> idx then Some (case (logs cfg ! i) k of None \<Rightarrow> None | Some v \<Rightarrow> v) else None))
    \<and> (\<forall>k. k \<noteq> j \<longrightarrow> logs cfg' ! k = logs cfg ! k)"
  using assms by (auto simp: ingestSnap_def snap_log_def nth_upto)

text \<open>An index that \<open>one\<close> returns was given out by a server, and enough servers committed the command there.\<close>

lemma poll_agreed:
  "poll cmd e idx cfgs = Inr True \<Longrightarrow> \<exists>cfg\<in>set cfgs. \<exists>nd. nCommitted idx cfg = Inr (nd, cmd) \<and> nd > 0 \<and> nd \<ge> e"
  by (induction cmd e idx cfgs rule: poll.induct) (auto simp: andThen_Inr split: if_splits)

lemma try_servers_started:
  "try_servers k st cfg starts = (s, idx) \<Longrightarrow> idx \<noteq> -1 \<Longrightarrow> connected cfg ! s \<and> rafts cfg ! s \<noteq> None \<and> st s = (idx, True)"
  by (induction k st cfg starts rule: try_servers.induct) (auto simp: Let_def prod_eq_iff split: if_splits)

lemma one_committed:
  "one cmd e retry fin starts as = Inr idx \<Longrightarrow> idx \<noteq> -1 \<Longrightarrow>
    \<exists>a\<in>set as. (\<exists>s. connected (attConfig a) ! s \<and> rafts (attConfig a) ! s \<noteq> None \<and> attStart a s = (idx, True))
      \<and> (\<exists>cfg\<in>set (attPolls a). \<exists>nd. nCommitted idx cfg = Inr (nd, cmd) \<and> nd > 0 \<and> nd \<ge> e)"
proof (induction cmd e retry fin starts as rule: one.induct)
  case (2 cmd e retry fin starts a as)
  obtain s k where t: "try_servers (cn (attConfig a)) (attStart a) (attConfig a) starts = (s, k)" by fastforce
  show ?case
  proof (cases "k = -1")
    case True
    then have "one cmd e retry fin s as = Inr idx" using "2.prems" t by (simp split: if_splits)
    then show ?thesis using "2.IH"(2) [OF _ t [symmetric] refl] "2.prems" True by (auto split: if_splits)
  next
    case False
    then obtain b where b: "poll cmd e k (attPolls a) = Inr b" "b \<and> k = idx \<or> \<not> b \<and> one cmd e retry fin s as = Inr idx"
      using "2.prems" t by (auto simp: andThen_Inr split: if_splits)
    then show ?thesis
    proof (cases b)
      case True
      then show ?thesis using b poll_agreed [of cmd e idx] try_servers_started [OF t False] by auto
    next
      case False
      then show ?thesis using "2.IH"(1) [OF _ t [symmetric] refl \<open>k \<noteq> -1\<close>, of b] b "2.prems" t \<open>k \<noteq> -1\<close> by (auto split: if_splits)
    qed
  qed
qed (simp split: if_splits)

end
