(* ===== verification/RaftTester.thy ===== *)
theory RaftTester
  imports RaftConfig LabRpcProps
begin

text \<open>
  How the Raft tester wires and restarts servers. An end is enabled exactly if it belongs to the current
  instance of its server and both servers are connected, whatever sequence of starts, crashes,
  connections and disconnections the test performs; and the persisted states refine one disk per
  server, which only the current instance of the server can write.
\<close>

section \<open>Tests\<close>

text \<open>\<open>TSave r\<close>: the peer \<open>r\<close>, be it of a live server or of a crashed one, saves to its persister.\<close>

datatype tester_op =
    TStart nat "nat \<Rightarrow> string" | TCrash nat | TConnect nat | TDisconnect nat
  | TUnreliable bool | TReordering bool | TSave nat bytes bytes

fun tester_exec :: "(string \<Rightarrow> (int \<times> 'c option list) option) \<Rightarrow> tester_op \<Rightarrow> ('c, 'v) config \<Rightarrow> fatal + ('c, 'v) config" where
  "tester_exec decSnap (TStart i names) cfg = (if i < cn cfg then start1 decSnap i names cfg else Inl bounds)"
| "tester_exec decSnap (TCrash i) cfg = crash1 i cfg"
| "tester_exec decSnap (TConnect i) cfg = connect i cfg"
| "tester_exec decSnap (TDisconnect i) cfg = disconnect i cfg"
| "tester_exec decSnap (TUnreliable b) cfg = Inr (setunreliable b cfg)"
| "tester_exec decSnap (TReordering b) cfg = Inr (setlongreordering b cfg)"
| "tester_exec decSnap (TSave r state snap) cfg = (if r < rnext cfg
     then Inr (cfg\<lparr>pheap := (pheap cfg)(persister (rheap cfg r) := Save state snap (pheap cfg (persister (rheap cfg r))))\<rparr>) else Inr cfg)"

section \<open>The shape of a configuration\<close>

definition sized :: "nat \<Rightarrow> ('c, 'v) config \<Rightarrow> bool" where
  "sized n cfg \<longleftrightarrow> cn cfg = n \<and> length (rafts cfg) = n \<and> length (connected cfg) = n \<and> length (saved cfg) = n
     \<and> length (endnames cfg) = n \<and> (\<forall>i<n. \<forall>es. endnames cfg ! i = Some es \<longrightarrow> length es = n)"

lemma enable_end_Inr:
  "enable_end i j b cfg = Inr cfg' \<longleftrightarrow> (\<exists>e. endname_at cfg i j = Inr e \<and> cfg' = cfg\<lparr>cnet := Enable e b (cnet cfg)\<rparr>)"
  by (auto simp: enable_end_def andThen_Inr)

text \<open>The loops of \<open>connect\<close> and \<open>disconnect\<close>: what they switch, and that nothing else changes.\<close>

definition switched :: "bool \<Rightarrow> (name \<Rightarrow> bool) \<Rightarrow> ('c, 'v) config \<Rightarrow> ('c, 'v) config" where
  "switched b S cfg = cfg\<lparr>cnet := (cnet cfg)\<lparr>enabled := (\<lambda>e. if S e then b else enabled (cnet cfg) e)\<rparr>\<rparr>"

lemma switched_switched: "switched b S (switched b T cfg) = switched b (\<lambda>e. S e \<or> T e) cfg"
  by (auto simp: switched_def intro!: config.equality Network.equality)

lemma Enable_switched: "cfg\<lparr>cnet := Enable e b (cnet cfg)\<rparr> = switched b (\<lambda>x. x = e) cfg"
proof -
  have "(enabled (cnet cfg))(e := b) = (\<lambda>x. if x = e then b else enabled (cnet cfg) x)" by auto
  then show ?thesis by (simp add: switched_def Enable_def)
qed

lemma switched_cong: "(\<And>e. S e \<longleftrightarrow> T e) \<Longrightarrow> switched b S cfg = switched b T cfg"
  by (simp add: switched_def)

lemma switched_sel [simp]:
  "connected (switched b S cfg) = connected cfg" "endnames (switched b S cfg) = endnames cfg" "cn (switched b S cfg) = cn cfg"
  "rafts (switched b S cfg) = rafts cfg" "saved (switched b S cfg) = saved cfg" "pheap (switched b S cfg) = pheap cfg"
  "pnext (switched b S cfg) = pnext cfg" "rheap (switched b S cfg) = rheap cfg" "rnext (switched b S cfg) = rnext cfg"
  "sheap (switched b S cfg) = sheap cfg" "snext (switched b S cfg) = snext cfg"
  "endname_at (switched b S cfg) = endname_at cfg"
  "cnet (switched b S cfg) = (cnet cfg)\<lparr>enabled := (\<lambda>e. if S e then b else enabled (cnet cfg) e)\<rparr>"
  by (simp_all add: switched_def endname_at_def fun_eq_iff)

lemma switch_loop:
  assumes "for_each (\<lambda>j c. if P (connected c) (endnames c) j then enable_end (f j) (g j) b c else Inr c) js cfg = Inr cfg'"
  shows "cfg' = switched b (\<lambda>e. \<exists>j\<in>set js. P (connected cfg) (endnames cfg) j \<and> endname_at cfg (f j) (g j) = Inr e) cfg"
    and "\<forall>j\<in>set js. P (connected cfg) (endnames cfg) j \<longrightarrow> (\<exists>e. endname_at cfg (f j) (g j) = Inr e)"
proof -
  have "cfg' = switched b (\<lambda>e. \<exists>j\<in>set js. P (connected cfg) (endnames cfg) j \<and> endname_at cfg (f j) (g j) = Inr e) cfg
      \<and> (\<forall>j\<in>set js. P (connected cfg) (endnames cfg) j \<longrightarrow> (\<exists>e. endname_at cfg (f j) (g j) = Inr e))"
    using assms
  proof (induction js arbitrary: cfg)
    case Nil
    then show ?case by (simp add: switched_def)
  next
    case (Cons j js)
    show ?case
    proof (cases "P (connected cfg) (endnames cfg) j")
      case True
      then obtain e where e: "endname_at cfg (f j) (g j) = Inr e"
        and r: "for_each (\<lambda>j c. if P (connected c) (endnames c) j then enable_end (f j) (g j) b c else Inr c) js
          (cfg\<lparr>cnet := Enable e b (cnet cfg)\<rparr>) = Inr cfg'"
        using Cons.prems by (auto simp: andThen_Inr enable_end_Inr)
      note IH = Cons.IH [OF r, unfolded Enable_switched, simplified]
      have "cfg' = switched b (\<lambda>e. (\<exists>j\<in>set js. P (connected cfg) (endnames cfg) j \<and> endname_at cfg (f j) (g j) = Inr e) \<or> e = en) cfg"
        if "en = e" for en using IH switched_switched that by metis
      then have "cfg' = switched b (\<lambda>e. \<exists>j\<in>set (j # js). P (connected cfg) (endnames cfg) j \<and> endname_at cfg (f j) (g j) = Inr e) cfg"
        using e True by (auto intro!: switched_cong)
      then show ?thesis using IH e True by auto
    next
      case False
      then show ?thesis using Cons by simp
    qed
  qed
  then show "cfg' = switched b (\<lambda>e. \<exists>j\<in>set js. P (connected cfg) (endnames cfg) j \<and> endname_at cfg (f j) (g j) = Inr e) cfg"
    "\<forall>j\<in>set js. P (connected cfg) (endnames cfg) j \<longrightarrow> (\<exists>e. endname_at cfg (f j) (g j) = Inr e)" by simp_all
qed

text \<open>\<open>end_of cfg i j e\<close>: the current instance of server \<open>i\<close> calls server \<open>j\<close> through \<open>e\<close>.\<close>

definition end_of :: "('c, 'v) config \<Rightarrow> nat \<Rightarrow> nat \<Rightarrow> name \<Rightarrow> bool" where
  "end_of cfg i j e \<longleftrightarrow> endname_at cfg i j = Inr e"

lemma connect_effect:
  assumes s: "sized n cfg" and c: "connect i cfg = Inr cfg'"
  shows "i < n" and "\<exists>e. end_of cfg i i e"
    and "cfg' = switched True (\<lambda>e. \<exists>j<n. ((connected cfg)[i := True]) ! j \<and> (end_of cfg i j e \<or> end_of cfg j i e))
      (cfg\<lparr>connected := (connected cfg)[i := True]\<rparr>)"
proof -
  let ?cs = "(connected cfg)[i := True]"
  let ?c = "cfg\<lparr>connected := ?cs\<rparr>"
  show i: "i < n" using s c by (auto simp: connect_def sized_def split: if_splits)
  obtain u where u: "for_each (\<lambda>j c. if connected c ! j then enable_end i j True c else Inr c) [0..<cn cfg] ?c = Inr u"
    "for_each (\<lambda>j c. if connected c ! j then enable_end j i True c else Inr c) [0..<cn cfg] u = Inr cfg'"
    using c by (auto simp: connect_def andThen_Inr Let_def split: if_splits)
  note a = switch_loop [where P = "\<lambda>cs es j. cs ! j" and f = "\<lambda>j. i" and g = "\<lambda>j. j", OF u(1)]
  note b = switch_loop [where P = "\<lambda>cs es j. cs ! j" and f = "\<lambda>j. j" and g = "\<lambda>j. i", OF u(2)]
  have n: "endname_at ?c = endname_at cfg" by (simp add: endname_at_def fun_eq_iff)
  show "\<exists>e. end_of cfg i i e" using a(2) i s by (auto simp: n end_of_def sized_def)
  show "cfg' = switched True (\<lambda>e. \<exists>j<n. ?cs ! j \<and> (end_of cfg i j e \<or> end_of cfg j i e)) ?c"
    using b(1) s unfolding a(1) by (auto simp: n switched_switched end_of_def sized_def intro!: switched_cong)
qed

lemma disconnect_effect:
  assumes s: "sized n cfg" and d: "disconnect i cfg = Inr cfg'"
  shows "i < n" and "cfg' = switched False (\<lambda>e. \<exists>j<n. end_of cfg i j e \<or> end_of cfg j i e) (cfg\<lparr>connected := (connected cfg)[i := False]\<rparr>)"
proof -
  let ?c = "cfg\<lparr>connected := (connected cfg)[i := False]\<rparr>"
  show i: "i < n" using s d by (auto simp: disconnect_def sized_def split: if_splits)
  obtain u where u: "for_each (\<lambda>j c. if endnames c ! i \<noteq> None then enable_end i j False c else Inr c) [0..<cn cfg] ?c = Inr u"
    "for_each (\<lambda>j c. if endnames c ! j \<noteq> None then enable_end j i False c else Inr c) [0..<cn cfg] u = Inr cfg'"
    using d by (auto simp: disconnect_def andThen_Inr Let_def split: if_splits)
  note a = switch_loop(1) [where P = "\<lambda>cs es j. es ! i \<noteq> None" and f = "\<lambda>j. i" and g = "\<lambda>j. j", OF u(1)]
  note b = switch_loop(1) [where P = "\<lambda>cs es j. es ! j \<noteq> None" and f = "\<lambda>j. j" and g = "\<lambda>j. i", OF u(2)]
  have n: "endname_at ?c = endname_at cfg" by (simp add: endname_at_def fun_eq_iff)
  have x: "endnames cfg ! k \<noteq> None \<and> endname_at cfg k j = Inr e \<longleftrightarrow> endname_at cfg k j = Inr e" for k j e by (auto simp: endname_at_def split: option.splits)
  show "cfg' = switched False (\<lambda>e. \<exists>j<n. end_of cfg i j e \<or> end_of cfg j i e) ?c"
  proof -
    have "cfg' = switched False (\<lambda>e. (\<exists>j\<in>set [0..<n]. endnames cfg ! j \<noteq> None \<and> endname_at cfg j i = Inr e)
        \<or> (\<exists>j\<in>set [0..<n]. endnames cfg ! i \<noteq> None \<and> endname_at cfg i j = Inr e)) ?c"
      using b s unfolding a by (simp add: n switched_switched sized_def)
    also have "\<dots> = switched False (\<lambda>e. \<exists>j<n. end_of cfg i j e \<or> end_of cfg j i e) ?c"
      unfolding x by (rule switched_cong) (auto simp: end_of_def)
    finally show ?thesis .
  qed
qed

section \<open>The wiring\<close>

definition enabled_ok :: "nat \<Rightarrow> ('c, 'v) config \<Rightarrow> bool" where
  "enabled_ok n cfg \<longleftrightarrow>
     (\<forall>e. enabled (cnet cfg) e \<longleftrightarrow> (\<exists>i<n. \<exists>j<n. end_of cfg i j e \<and> connected cfg ! i \<and> connected cfg ! j))
     \<and> (\<forall>i<n. connected cfg ! i \<longrightarrow> endnames cfg ! i \<noteq> None)"

definition named_ok :: "nat \<Rightarrow> ('c, 'v) config \<Rightarrow> bool" where
  "named_ok n cfg \<longleftrightarrow>
     (\<forall>i<n. \<forall>j<n. \<forall>e. end_of cfg i j e \<longrightarrow> e \<in> set (ends (cnet cfg)) \<and> connections (cnet cfg) e = Some (NInt (int j)))
     \<and> (\<forall>i<n. \<forall>j<n. \<forall>i'<n. \<forall>j'<n. \<forall>e. end_of cfg i j e \<longrightarrow> end_of cfg i' j' e \<longrightarrow> i = i' \<and> j = j')"

text \<open>The server object that the network knows for \<open>i\<close> serves the current peer, if there is one.\<close>

definition served :: "nat \<Rightarrow> ('c, 'v) config \<Rightarrow> bool" where
  "served i cfg \<longleftrightarrow> (case rafts cfg ! i of None \<Rightarrow> servers (cnet cfg) (NInt (int i)) = None
     | Some r \<Rightarrow> \<exists>a. a < snext cfg \<and> servers (cnet cfg) (NInt (int i)) = Some a \<and> sheap cfg a = raft_server r)"

definition wiring :: "nat \<Rightarrow> ('c, 'v) config \<Rightarrow> bool" where
  "wiring n cfg \<longleftrightarrow> sized n cfg \<and> enabled_ok n cfg \<and> named_ok n cfg \<and> (\<forall>i<n. served i cfg)"

lemma wiringD:
  assumes "wiring n cfg"
  shows "sized n cfg" "\<And>e. enabled (cnet cfg) e \<longleftrightarrow> (\<exists>i<n. \<exists>j<n. end_of cfg i j e \<and> connected cfg ! i \<and> connected cfg ! j)"
    "\<And>i. i < n \<Longrightarrow> connected cfg ! i \<Longrightarrow> endnames cfg ! i \<noteq> None"
    "\<And>i j e. i < n \<Longrightarrow> j < n \<Longrightarrow> end_of cfg i j e \<Longrightarrow> e \<in> set (ends (cnet cfg))"
    "\<And>i j e. i < n \<Longrightarrow> j < n \<Longrightarrow> end_of cfg i j e \<Longrightarrow> connections (cnet cfg) e = Some (NInt (int j))"
    "\<And>i j i' j' e. i < n \<Longrightarrow> j < n \<Longrightarrow> i' < n \<Longrightarrow> j' < n \<Longrightarrow> end_of cfg i j e \<Longrightarrow> end_of cfg i' j' e \<Longrightarrow> i = i' \<and> j = j'"
    "\<And>i. i < n \<Longrightarrow> served i cfg"
proof -
  have w: "sized n cfg" "enabled_ok n cfg" "named_ok n cfg" "\<And>i. i < n \<Longrightarrow> served i cfg" using assms by (simp_all add: wiring_def)
  show "sized n cfg" "\<And>i. i < n \<Longrightarrow> served i cfg" by (fact w)+
  show "\<And>e. enabled (cnet cfg) e \<longleftrightarrow> (\<exists>i<n. \<exists>j<n. end_of cfg i j e \<and> connected cfg ! i \<and> connected cfg ! j)"
    "\<And>i. i < n \<Longrightarrow> connected cfg ! i \<Longrightarrow> endnames cfg ! i \<noteq> None" using w(2) by (simp_all add: enabled_ok_def)
  show "\<And>i j e. i < n \<Longrightarrow> j < n \<Longrightarrow> end_of cfg i j e \<Longrightarrow> e \<in> set (ends (cnet cfg))"
    "\<And>i j e. i < n \<Longrightarrow> j < n \<Longrightarrow> end_of cfg i j e \<Longrightarrow> connections (cnet cfg) e = Some (NInt (int j))"
    "\<And>i j i' j' e. i < n \<Longrightarrow> j < n \<Longrightarrow> i' < n \<Longrightarrow> j' < n \<Longrightarrow> end_of cfg i j e \<Longrightarrow> end_of cfg i' j' e \<Longrightarrow> i = i' \<and> j = j'"
    using w(3) unfolding named_ok_def by blast+
qed

lemma end_of_switched [simp]: "end_of (switched b S cfg) = end_of cfg"
  "end_of (cfg\<lparr>connected := cs\<rparr>) = end_of cfg" "end_of (cfg\<lparr>cnet := rn\<rparr>) = end_of cfg"
  by (simp_all add: end_of_def endname_at_def fun_eq_iff)

lemma end_of_exists: "sized n cfg \<Longrightarrow> i < n \<Longrightarrow> j < n \<Longrightarrow> endnames cfg ! i \<noteq> None \<Longrightarrow> \<exists>e. end_of cfg i j e"
  by (auto simp: end_of_def endname_at_def sized_def)

lemma end_of_some: "end_of cfg i j e \<Longrightarrow> endnames cfg ! i \<noteq> None"
  by (auto simp: end_of_def endname_at_def split: option.splits)

text \<open>Switching ends keeps the wiring if the right ones are enabled afterwards.\<close>

lemma wiring_switched:
  assumes w: "wiring n cfg" and l: "length cs = n" and some: "\<And>i. i < n \<Longrightarrow> cs ! i \<Longrightarrow> endnames cfg ! i \<noteq> None"
    and e: "\<And>e. (if S e then b else enabled (cnet cfg) e) \<longleftrightarrow> (\<exists>i<n. \<exists>j<n. end_of cfg i j e \<and> cs ! i \<and> cs ! j)"
  shows "wiring n (switched b S (cfg\<lparr>connected := cs\<rparr>))"
proof -
  have "sized n (switched b S (cfg\<lparr>connected := cs\<rparr>))" using wiringD(1) [OF w] l by (simp add: sized_def)
  moreover have "enabled_ok n (switched b S (cfg\<lparr>connected := cs\<rparr>))"
    using some unfolding enabled_ok_def by (simp flip: e)
  moreover have "named_ok n (switched b S (cfg\<lparr>connected := cs\<rparr>))"
    using w unfolding wiring_def named_ok_def by simp
  moreover have "served i (switched b S (cfg\<lparr>connected := cs\<rparr>)) = served i cfg" for i
    by (simp add: served_def split: option.split)
  ultimately show ?thesis using w unfolding wiring_def by simp
qed

lemma connect_wiring:
  assumes w: "wiring n cfg" and c: "connect i cfg = Inr cfg'"
  shows "wiring n cfg'"
proof -
  note eff = connect_effect [OF wiringD(1) [OF w] c]
  let ?cs = "(connected cfg)[i := True]"
  have l: "length (connected cfg) = n" using wiringD(1) [OF w] by (simp add: sized_def)
  have nth: "?cs ! j \<longleftrightarrow> j = i \<or> connected cfg ! j" if "j < n" for j using eff(1) l that by (simp add: nth_list_update)
  have some: "endnames cfg ! j \<noteq> None" if "j < n" "?cs ! j" for j
    using nth [OF that(1)] that eff(2) end_of_some wiringD(3) [OF w that(1)] by blast
  have "(if \<exists>j<n. ?cs ! j \<and> (end_of cfg i j e \<or> end_of cfg j i e) then True else enabled (cnet cfg) e)
      \<longleftrightarrow> (\<exists>k<n. \<exists>j<n. end_of cfg k j e \<and> ?cs ! k \<and> ?cs ! j)" for e
    unfolding wiringD(2) [OF w] using nth eff(1) by (simp; blast)
  then show ?thesis unfolding eff(3) by (intro wiring_switched [OF w _ some]) (use l in simp_all)
qed

lemma disconnect_wiring:
  assumes w: "wiring n cfg" and d: "disconnect i cfg = Inr cfg'"
  shows "wiring n cfg'"
proof -
  note eff = disconnect_effect [OF wiringD(1) [OF w] d]
  let ?cs = "(connected cfg)[i := False]"
  have l: "length (connected cfg) = n" using wiringD(1) [OF w] by (simp add: sized_def)
  have nth: "?cs ! j \<longleftrightarrow> j \<noteq> i \<and> connected cfg ! j" if "j < n" for j using eff(1) l that by (simp add: nth_list_update)
  have some: "endnames cfg ! j \<noteq> None" if "j < n" "?cs ! j" for j using nth [OF that(1)] that wiringD(3) [OF w that(1)] by blast
  have "(if \<exists>j<n. end_of cfg i j e \<or> end_of cfg j i e then False else enabled (cnet cfg) e)
      \<longleftrightarrow> (\<exists>k<n. \<exists>j<n. end_of cfg k j e \<and> ?cs ! k \<and> ?cs ! j)" for e
    unfolding wiringD(2) [OF w] using nth eff(1) wiringD(6) [OF w] by (simp; blast)
  then show ?thesis unfolding eff(2) by (intro wiring_switched [OF w _ some]) (use l in simp_all)
qed

definition crash_tail :: "nat \<Rightarrow> ('c, 'v) config \<Rightarrow> ('c, 'v) config" where
  "crash_tail i cfg = crash_save i (crash_kill i (crash_persister i cfg))"

lemma new_persister_sel [simp]:
  "cnet (new_persister i p cfg) = cnet cfg" "endnames (new_persister i p cfg) = endnames cfg" "connected (new_persister i p cfg) = connected cfg"
  "cn (new_persister i p cfg) = cn cfg" "sheap (new_persister i p cfg) = sheap cfg" "snext (new_persister i p cfg) = snext cfg"
  "rafts (new_persister i p cfg) = rafts cfg" "rheap (new_persister i p cfg) = rheap cfg" "rnext (new_persister i p cfg) = rnext cfg"
  "saved (new_persister i p cfg) = (saved cfg)[i := Some (pnext cfg)]" "pnext (new_persister i p cfg) = pnext cfg + 1"
  "pheap (new_persister i p cfg) = (pheap cfg)(pnext cfg := p)"
  by (simp_all add: new_persister_def)

lemma crash_tail_sel [simp]:
  "cnet (crash_tail i cfg) = cnet cfg" "endnames (crash_tail i cfg) = endnames cfg" "connected (crash_tail i cfg) = connected cfg"
  "cn (crash_tail i cfg) = cn cfg" "sheap (crash_tail i cfg) = sheap cfg" "snext (crash_tail i cfg) = snext cfg"
  "length (saved (crash_tail i cfg)) = length (saved cfg)" "rnext (crash_tail i cfg) = rnext cfg"
  by (auto simp: crash_tail_def crash_save_def crash_kill_def crash_persister_def split: option.splits)

lemma crash_tail_rafts: "i < length (rafts cfg) \<Longrightarrow> rafts (crash_tail i cfg) = (rafts cfg)[i := None]"
proof -
  assume "i < length (rafts cfg)"
  then have "rafts cfg ! i = None \<Longrightarrow> rafts cfg = (rafts cfg)[i := None]" by (metis list_update_id)
  then show ?thesis by (auto simp: crash_tail_def crash_save_def crash_kill_def crash_persister_def split: option.splits)
qed

lemma crash1E:
  assumes "crash1 i cfg = Inr cfg'"
  obtains u where "disconnect i cfg = Inr u" and "cfg' = crash_tail i (u\<lparr>cnet := DeleteServer (NInt (int i)) (cnet u)\<rparr>)"
  using assms by (auto simp: crash1_def crash_tail_def andThen_Inr)

lemma end_of_cong: "endnames cfg' = endnames cfg \<Longrightarrow> end_of cfg' = end_of cfg"
  by (simp add: end_of_def endname_at_def fun_eq_iff)

lemma crash1_wiring:
  assumes w: "wiring n cfg" and c: "crash1 i cfg = Inr cfg'"
  shows "wiring n cfg'" and "i < n" and "\<not> connected cfg' ! i" and "rafts cfg' ! i = None"
proof -
  obtain u where u: "disconnect i cfg = Inr u" "cfg' = crash_tail i (u\<lparr>cnet := DeleteServer (NInt (int i)) (cnet u)\<rparr>)"
    using c by (rule crash1E)
  note wu = disconnect_wiring [OF w u(1)] and eff = disconnect_effect [OF wiringD(1) [OF w] u(1)]
  show i: "i < n" by (rule eff(1))
  have len: "length (rafts u) = n" "length (connected cfg) = n" using wiringD(1) [OF wu] wiringD(1) [OF w] by (simp_all add: sized_def)
  have r: "rafts cfg' = (rafts u)[i := None]" using crash_tail_rafts [of i "u\<lparr>cnet := DeleteServer (NInt (int i)) (cnet u)\<rparr>"] i len(1) u(2) by simp
  have f: "endnames cfg' = endnames u" "connected cfg' = connected u" "cn cfg' = cn u" "length (saved cfg') = length (saved u)"
    "snext cfg' = snext u" "sheap cfg' = sheap u" "enabled (cnet cfg') = enabled (cnet u)" "connections (cnet cfg') = connections (cnet u)"
    "ends (cnet cfg') = ends (cnet u)" "servers (cnet cfg') = (servers (cnet u))(NInt (int i) := None)"
    unfolding u(2) by (simp_all add: DeleteServer_def)
  note e = end_of_cong [OF f(1)]
  show "\<not> connected cfg' ! i" using eff i len(2) f(2) by simp
  show "rafts cfg' ! i = None" using r i len(1) by simp
  have "sized n cfg'" using wiringD(1) [OF wu] r by (simp add: sized_def f)
  moreover have "enabled_ok n cfg'" "named_ok n cfg'" using wu by (simp_all add: wiring_def enabled_ok_def named_ok_def e f)
  moreover have "served j cfg'" if "j < n" for j
    using wiringD(7) [OF wu that] i len(1) r by (cases "j = i") (simp_all add: served_def f split: option.splits)
  ultimately show "wiring n cfg'" by (simp add: wiring_def)
qed

text \<open>Making the ends of a new instance: their names are new, different, and not enabled.\<close>

lemma start_ends_effect:
  assumes "start_ends i names cfg = Inr cfg'"
  shows "\<exists>rn. cfg' = cfg\<lparr>endnames := (endnames cfg)[i := Some (map names [0..<cn cfg])], cnet := rn\<rparr>
    \<and> (\<forall>j<cn cfg. NStr (names j) \<notin> set (ends (cnet cfg)) \<and> connections rn (NStr (names j)) = Some (NInt (int j)) \<and> \<not> enabled rn (NStr (names j)))
    \<and> (\<forall>j<cn cfg. \<forall>k<cn cfg. names j = names k \<longrightarrow> j = k)
    \<and> set (ends rn) = set (ends (cnet cfg)) \<union> (\<lambda>j. NStr (names j)) ` {..<cn cfg}
    \<and> (\<forall>e. e \<notin> (\<lambda>j. NStr (names j)) ` {..<cn cfg} \<longrightarrow> enabled rn e = enabled (cnet cfg) e \<and> connections rn e = connections (cnet cfg) e)
    \<and> servers rn = servers (cnet cfg)"
proof -
  let ?c = "cfg\<lparr>endnames := (endnames cfg)[i := Some (map names [0..<cn cfg])]\<rparr>"
  let ?f = "\<lambda>j c. andThen (MakeEnd (NStr (names j)) (cnet c)) (\<lambda>rn. Inr (c\<lparr>cnet := Connect (NStr (names j)) (NInt (int j)) rn\<rparr>))"
  let ?P = "\<lambda>b rn. (\<forall>j<b. NStr (names j) \<notin> set (ends (cnet cfg)) \<and> connections rn (NStr (names j)) = Some (NInt (int j)) \<and> \<not> enabled rn (NStr (names j)))
    \<and> (\<forall>j<b. \<forall>k<b. names j = names k \<longrightarrow> j = k) \<and> set (ends rn) = set (ends (cnet cfg)) \<union> (\<lambda>j. NStr (names j)) ` {..<b}
    \<and> (\<forall>e. e \<notin> (\<lambda>j. NStr (names j)) ` {..<b} \<longrightarrow> enabled rn e = enabled (cnet cfg) e \<and> connections rn e = connections (cnet cfg) e)
    \<and> servers rn = servers (cnet cfg)"
  have "\<exists>rn. u = ?c\<lparr>cnet := rn\<rparr> \<and> ?P b rn" if "for_each ?f [0..<b] ?c = Inr u" for b u
    using that
  proof (induction b arbitrary: u)
    case 0
    have c: "?c = ?c\<lparr>cnet := cnet cfg\<rparr>" by (rule config.equality) simp_all
    have "u = ?c" using 0 by simp
    then have "u = ?c\<lparr>cnet := cnet cfg\<rparr>" using c by (rule trans)
    then show ?case by (intro exI [of _ "cnet cfg"] conjI) simp_all
  next
    case (Suc b)
    obtain v where v: "for_each ?f [0..<b] ?c = Inr v" "?f b v = Inr u" using Suc.prems by (auto simp: for_each_snoc andThen_Inr)
    obtain rn where rn: "v = ?c\<lparr>cnet := rn\<rparr>" "?P b rn" using Suc.IH [OF v(1)] by blast
    have new: "NStr (names b) \<notin> set (ends rn)" and
      u: "u = ?c\<lparr>cnet := Connect (NStr (names b)) (NInt (int b)) (rn\<lparr>ends := NStr (names b) # ends rn,
        enabled := (enabled rn)(NStr (names b) := False), connections := (connections rn)(NStr (names b) := None)\<rparr>)\<rparr>"
      using v(2) rn(1) by (auto simp: MakeEnd_def split: if_splits)
    have old: "names j \<noteq> names b" if "j < b" for j
    proof
      assume "names j = names b"
      then have "NStr (names b) \<in> (\<lambda>j. NStr (names j)) ` {..<b}" using that by (metis imageI lessThan_iff)
      then show False using new rn(2) by blast
    qed
    show ?case by (rule exI, rule conjI, rule u) (use rn(2) new old in \<open>auto simp: Connect_def less_Suc_eq lessThan_Suc\<close>)
  qed
  from this [of "cn cfg" cfg'] assms show ?thesis by (simp add: start_ends_def)
qed

lemma start_ends_facts:
  assumes w: "wiring n cfg" and i: "i < n" and s: "start_ends i names cfg = Inr cfg'"
  shows "\<And>j e. j < n \<Longrightarrow> end_of cfg' i j e \<longleftrightarrow> e = NStr (names j)"
    and "\<And>k j e. k \<noteq> i \<Longrightarrow> end_of cfg' k j e \<longleftrightarrow> end_of cfg k j e"
    and "\<And>k j e. k < n \<Longrightarrow> j < n \<Longrightarrow> end_of cfg k j e \<Longrightarrow> e \<notin> (\<lambda>j. NStr (names j)) ` {..<n}"
    and "\<And>j. j < n \<Longrightarrow> connections (cnet cfg') (NStr (names j)) = Some (NInt (int j)) \<and> \<not> enabled (cnet cfg') (NStr (names j))"
    and "\<And>j k. j < n \<Longrightarrow> k < n \<Longrightarrow> names j = names k \<Longrightarrow> j = k"
    and "set (ends (cnet cfg')) = set (ends (cnet cfg)) \<union> (\<lambda>j. NStr (names j)) ` {..<n}"
    and "\<And>e. e \<notin> (\<lambda>j. NStr (names j)) ` {..<n}
      \<Longrightarrow> enabled (cnet cfg') e = enabled (cnet cfg) e \<and> connections (cnet cfg') e = connections (cnet cfg) e"
    and "\<exists>rn. cfg' = cfg\<lparr>endnames := (endnames cfg)[i := Some (map names [0..<n])], cnet := rn\<rparr> \<and> servers rn = servers (cnet cfg)"
proof -
  have size: "cn cfg = n" "length (endnames cfg) = n" using wiringD(1) [OF w] by (simp_all add: sized_def)
  obtain rn where cfg': "cfg' = cfg\<lparr>endnames := (endnames cfg)[i := Some (map names [0..<n])], cnet := rn\<rparr>"
    and new: "\<And>j. j < n \<Longrightarrow> NStr (names j) \<notin> set (ends (cnet cfg)) \<and> connections rn (NStr (names j)) = Some (NInt (int j)) \<and> \<not> enabled rn (NStr (names j))"
    and inj: "\<And>j k. j < n \<Longrightarrow> k < n \<Longrightarrow> names j = names k \<Longrightarrow> j = k"
    and ends: "set (ends rn) = set (ends (cnet cfg)) \<union> (\<lambda>j. NStr (names j)) ` {..<n}"
    and old: "\<And>e. e \<notin> (\<lambda>j. NStr (names j)) ` {..<n} \<Longrightarrow> enabled rn e = enabled (cnet cfg) e \<and> connections rn e = connections (cnet cfg) e"
    and srv: "servers rn = servers (cnet cfg)"
    using start_ends_effect [OF s] size(1) by blast
  show "end_of cfg' i j e \<longleftrightarrow> e = NStr (names j)" if "j < n" for j e
    using that i size by (auto simp: cfg' end_of_def endname_at_def)
  show "end_of cfg' k j e \<longleftrightarrow> end_of cfg k j e" if "k \<noteq> i" for k j e
    using that by (simp add: cfg' end_of_def endname_at_def)
  show "e \<notin> (\<lambda>j. NStr (names j)) ` {..<n}" if "k < n" "j < n" "end_of cfg k j e" for k j e
    using wiringD(4) [OF w that] new by auto
  show "\<And>j. j < n \<Longrightarrow> connections (cnet cfg') (NStr (names j)) = Some (NInt (int j)) \<and> \<not> enabled (cnet cfg') (NStr (names j))"
    "set (ends (cnet cfg')) = set (ends (cnet cfg)) \<union> (\<lambda>j. NStr (names j)) ` {..<n}"
    using new ends by (simp_all add: cfg')
  show "\<And>e. e \<notin> (\<lambda>j. NStr (names j)) ` {..<n}
      \<Longrightarrow> enabled (cnet cfg') e = enabled (cnet cfg) e \<and> connections (cnet cfg') e = connections (cnet cfg) e"
    using old by (simp add: cfg')
  show "\<And>j k. j < n \<Longrightarrow> k < n \<Longrightarrow> names j = names k \<Longrightarrow> j = k" by (rule inj)
  show "\<exists>rn. cfg' = cfg\<lparr>endnames := (endnames cfg)[i := Some (map names [0..<n])], cnet := rn\<rparr> \<and> servers rn = servers (cnet cfg)"
    using cfg' srv by blast
qed

lemma start_ends_named:
  assumes w: "wiring n cfg" and i: "i < n" and s: "start_ends i names cfg = Inr cfg'"
  shows "named_ok n cfg'"
  unfolding named_ok_def
proof (intro conjI allI impI)
  note f = start_ends_facts [OF w i s]
  fix k j e assume k: "k < n" "j < n" "end_of cfg' k j e"
  have "e \<in> set (ends (cnet cfg')) \<and> connections (cnet cfg') e = Some (NInt (int j))"
  proof (cases "k = i")
    case True
    then have "e = NStr (names j)" using k f(1) [OF k(2)] by simp
    then show ?thesis using f(4) [OF k(2)] k(2) f(6) by simp
  next
    case False
    then have o: "end_of cfg k j e" using k(3) f(2) by simp
    then show ?thesis using wiringD(4,5) [OF w k(1,2) o] f(7) [OF f(3) [OF k(1,2) o]] f(6) by simp
  qed
  then show "e \<in> set (ends (cnet cfg'))" "connections (cnet cfg') e = Some (NInt (int j))" by simp_all
next
  note f = start_ends_facts [OF w i s]
  fix k j k' j' e assume k: "k < n" "j < n" "k' < n" "j' < n" "end_of cfg' k j e" "end_of cfg' k' j' e"
  have new_end: "e \<in> (\<lambda>j. NStr (names j)) ` {..<n} \<longleftrightarrow> l = i" if "l < n" "m < n" "end_of cfg' l m e" for l m
    using f(1) [OF that(2)] f(2) [of l m e] f(3) [OF that(1,2)] that by (cases "l = i") auto
  have "k = k' \<and> j = j'"
  proof (cases "k = i")
    case True
    then have "k' = i" using new_end [OF k(1,2,5)] new_end [OF k(3,4,6)] by blast
    then have "names j = names j'" using True k f(1) [OF k(2)] f(1) [OF k(4)] by simp
    then show ?thesis using f(5) [OF k(2,4)] True \<open>k' = i\<close> by blast
  next
    case False
    then have "k' \<noteq> i" using new_end [OF k(1,2,5)] new_end [OF k(3,4,6)] by blast
    then show ?thesis using wiringD(6) [OF w k(1-4)] k(5,6) f(2) False by blast
  qed
  then show "k = k'" "j = j'" by simp_all
qed

lemma start_ends_wiring:
  assumes w: "wiring n cfg" and i: "i < n" "\<not> connected cfg ! i" and s: "start_ends i names cfg = Inr cfg'"
  shows "wiring n cfg'"
proof -
  note f = start_ends_facts [OF w i(1) s]
  obtain rn where cfg': "cfg' = cfg\<lparr>endnames := (endnames cfg)[i := Some (map names [0..<n])], cnet := rn\<rparr>"
    and srv: "servers rn = servers (cnet cfg)" using f(8) by blast
  have "sized n cfg'" using wiringD(1) [OF w] i(1) by (auto simp: sized_def cfg' nth_list_update)
  moreover have "enabled_ok n cfg'"
  proof -
    have e: "enabled (cnet cfg') e \<longleftrightarrow> enabled (cnet cfg) e" for e
    proof (cases "e \<in> (\<lambda>j. NStr (names j)) ` {..<n}")
      case True
      then show ?thesis using f(3,4) wiringD(2) [OF w, of e] by blast
    qed (use f(7) in blast)
    have "end_of cfg k j e \<and> connected cfg ! k \<longleftrightarrow> end_of cfg' k j e \<and> connected cfg' ! k" for k j e
      using f(2) [of k j e] i(2) by (cases "k = i") (simp_all add: cfg')
    then have "(\<exists>k<n. \<exists>j<n. end_of cfg k j e \<and> connected cfg ! k \<and> connected cfg ! j)
      \<longleftrightarrow> (\<exists>k<n. \<exists>j<n. end_of cfg' k j e \<and> connected cfg' ! k \<and> connected cfg' ! j)" for e
      by (simp add: cfg') blast
    moreover have "endnames cfg' ! k \<noteq> None" if k: "k < n" "connected cfg' ! k" for k
    proof -
      have "connected cfg ! k" "k \<noteq> i" using k(2) i(2) by (auto simp: cfg')
      then show ?thesis using wiringD(3) [OF w k(1)] by (simp add: cfg')
    qed
    ultimately show ?thesis unfolding enabled_ok_def e wiringD(2) [OF w] by blast
  qed
  moreover have "served k cfg' \<longleftrightarrow> served k cfg" for k by (simp add: served_def cfg' srv split: option.split)
  ultimately show ?thesis using wiringD(7) [OF w] start_ends_named [OF w i(1) s] by (simp add: wiring_def)
qed

lemma start_persister_effect:
  assumes "start_persister decSnap i cfg = Inr cfg'" and "i < length (saved cfg)"
  shows "cnet cfg' = cnet cfg" "endnames cfg' = endnames cfg" "connected cfg' = connected cfg" "cn cfg' = cn cfg"
    "sheap cfg' = sheap cfg" "snext cfg' = snext cfg" "rafts cfg' = rafts cfg" "rheap cfg' = rheap cfg" "rnext cfg' = rnext cfg"
    "saved cfg' = (saved cfg)[i := Some (pnext cfg)]" "pnext cfg' = pnext cfg + 1"
    "pheap cfg' = (pheap cfg)(pnext cfg := (case saved_at cfg i of None \<Rightarrow> MakePersister | Some p \<Rightarrow> Copy p))"
  using assms by (auto simp: start_persister_def saved_at_def Let_def andThen_Inr ingestSnap_def split: option.splits if_splits prod.splits)

lemma start_raft_effect:
  assumes "saved cfg ! i = Some a"
  shows "endnames (start_raft i names cfg) = endnames cfg" "connected (start_raft i names cfg) = connected cfg" "cn (start_raft i names cfg) = cn cfg"
    "saved (start_raft i names cfg) = saved cfg" "pheap (start_raft i names cfg) = pheap cfg" "pnext (start_raft i names cfg) = pnext cfg"
    "rafts (start_raft i names cfg) = (rafts cfg)[i := Some (rnext cfg)]" "rnext (start_raft i names cfg) = rnext cfg + 1"
    "sheap (start_raft i names cfg) = (sheap cfg)(snext cfg := raft_server (rnext cfg))" "snext (start_raft i names cfg) = snext cfg + 1"
    "cnet (start_raft i names cfg) = AddServer (NInt (int i)) (snext cfg) (cnet cfg)"
    "rheap (start_raft i names cfg) = (rheap cfg)(rnext cfg := Make (map (\<lambda>j. NStr (names j)) [0..<cn cfg]) i a (pheap cfg a))"
  using assms by (simp_all add: start_raft_def Let_def)

lemma start1E:
  assumes "start1 decSnap i names cfg = Inr cfg'"
  obtains u v w where "crash1 i cfg = Inr u" "start_ends i names u = Inr v" "start_persister decSnap i v = Inr w" "cfg' = start_raft i names w"
  using assms by (auto simp: start1_def andThen_Inr)

lemma start1_wiring:
  assumes w: "wiring n cfg" and s: "start1 decSnap i names cfg = Inr cfg'"
  shows "wiring n cfg'"
proof -
  obtain u v x where st: "crash1 i cfg = Inr u" "start_ends i names u = Inr v" "start_persister decSnap i v = Inr x" "cfg' = start_raft i names x"
    using s by (rule start1E)
  note c = crash1_wiring [OF w st(1)]
  have wv: "wiring n v" by (rule start_ends_wiring [OF c(1-3) st(2)])
  have sz: "length (saved v) = n" "length (rafts v) = n" using wiringD(1) [OF wv] by (simp_all add: sized_def)
  note p = start_persister_effect [OF st(3), unfolded sz(1), OF c(2)]
  have sx: "saved x ! i = Some (pnext v)" using p(10) c(2) sz(1) by simp
  note r = start_raft_effect [OF sx, of names, folded st(4), unfolded p]
  have en: "end_of cfg' = end_of v" by (rule end_of_cong [OF r(1)])
  have net: "enabled (cnet cfg') = enabled (cnet v)" "ends (cnet cfg') = ends (cnet v)" "connections (cnet cfg') = connections (cnet v)"
    "servers (cnet cfg') = (servers (cnet v))(NInt (int i) := Some (snext v))" by (simp_all add: r(11) AddServer_def)
  have "sized n cfg'" using wiringD(1) [OF wv] by (simp add: sized_def r)
  moreover have "enabled_ok n cfg'" "named_ok n cfg'"
    using wv by (simp_all add: wiring_def enabled_ok_def named_ok_def en net r(1,2))
  moreover have "served j cfg'" if j: "j < n" for j
  proof (cases "j = i")
    case True
    then have "rafts cfg' ! j = Some (rnext v)" using c(2) sz(2) by (simp add: r(7))
    then show ?thesis using True by (auto simp: served_def r(9,10) net)
  next
    case False
    show ?thesis
    proof (cases "rafts v ! j")
      case None
      then show ?thesis using wiringD(7) [OF wv j] False by (simp add: served_def r(7) net)
    next
      case (Some q)
      then obtain a where "a < snext v" "servers (cnet v) (NInt (int j)) = Some a" "sheap v a = raft_server q"
        using wiringD(7) [OF wv j] by (auto simp: served_def)
      then show ?thesis using Some False by (auto simp: served_def r(7-10) net intro!: exI [of _ a])
    qed
  qed
  ultimately show ?thesis by (simp add: wiring_def)
qed

lemma wiring_cong:
  assumes "cn cfg' = cn cfg" "rafts cfg' = rafts cfg" "connected cfg' = connected cfg" "length (saved cfg') = length (saved cfg)"
    "endnames cfg' = endnames cfg" "snext cfg' = snext cfg" "sheap cfg' = sheap cfg" "enabled (cnet cfg') = enabled (cnet cfg)"
    "ends (cnet cfg') = ends (cnet cfg)" "connections (cnet cfg') = connections (cnet cfg)" "servers (cnet cfg') = servers (cnet cfg)"
  shows "wiring n cfg' = wiring n cfg"
  unfolding wiring_def sized_def enabled_ok_def named_ok_def served_def end_of_cong [OF assms(5)] assms ..

lemma tester_exec_wiring:
  assumes w: "wiring n cfg" and e: "tester_exec decSnap op cfg = Inr cfg'"
  shows "wiring n cfg'"
proof (cases op)
  case (TStart i names)
  then show ?thesis using e start1_wiring [OF w] by (auto split: if_splits)
next
  case (TCrash i)
  then show ?thesis using e crash1_wiring(1) [OF w] by auto
next
  case (TConnect i)
  then show ?thesis using e connect_wiring [OF w] by auto
next
  case (TDisconnect i)
  then show ?thesis using e disconnect_wiring [OF w] by auto
next
  case (TUnreliable b)
  then have "wiring n cfg' = wiring n cfg" using e by (intro wiring_cong) (auto simp: setunreliable_def Reliable_def)
  with w show ?thesis by simp
next
  case (TReordering b)
  then have "wiring n cfg' = wiring n cfg" using e by (intro wiring_cong) (auto simp: setlongreordering_def LongReordering_def)
  with w show ?thesis by simp
next
  case (TSave r st sn)
  then have "wiring n cfg' = wiring n cfg" using e by (intro wiring_cong) (auto split: if_splits)
  with w show ?thesis by simp
qed

lemma empty_end_of: "i < n \<Longrightarrow> \<not> end_of (empty_config n now) i j e"
  by (simp add: end_of_def endname_at_def empty_config_def)

lemma empty_wiring: "wiring n (empty_config n now)"
  unfolding wiring_def
proof (intro conjI allI impI)
  show "enabled_ok n (empty_config n now)" by (simp add: enabled_ok_def empty_end_of) (simp add: empty_config_def MakeNetwork_def)
  show "sized n (empty_config n now)" "\<And>i. i < n \<Longrightarrow> served i (empty_config n now)"
    by (simp_all add: sized_def served_def empty_config_def MakeNetwork_def)
qed (simp add: named_ok_def empty_end_of)

lemma make_config_wiring:
  assumes "make_config decSnap n unreliable names now = Inr (cfg :: ('c, 'v) config)"
  shows "wiring n cfg"
proof -
  let ?c = "(setunreliable unreliable (empty_config n now) :: ('c, 'v) config)"
  let ?d = "?c\<lparr>cnet := LongDelays True (cnet ?c)\<rparr>"
  obtain u where u: "for_each (\<lambda>i c. start1 decSnap i (names i) (c\<lparr>logs := (logs c)[i := (\<lambda>_. None)]\<rparr>)) [0..<n] ?d = Inr u"
    "for_each connect [0..<n] u = Inr cfg"
    using assms by (auto simp: make_config_def Let_def andThen_Inr)
  have logs: "wiring n (c\<lparr>logs := l\<rparr>) = wiring n c" for c :: "('c, 'v) config" and l
    by (rule wiring_cong) simp_all
  have "wiring n ?d = wiring n (empty_config n now :: ('c, 'v) config)"
    by (rule wiring_cong) (simp_all add: setunreliable_def Reliable_def LongDelays_def)
  then have "wiring n ?d" by (simp add: empty_wiring)
  then have "wiring n u"
    by (rule for_each_inv [OF u(1), where P = "wiring n"]) (rule start1_wiring [rotated], assumption, simp only: logs)
  then show ?thesis by (rule for_each_inv [OF u(2), where P = "wiring n"]) (rule connect_wiring)
qed

lemma tester_run_wiring: "for_each (tester_exec decSnap) ops cfg = Inr cfg' \<Longrightarrow> wiring n cfg \<Longrightarrow> wiring n cfg'"
  by (rule for_each_inv [where P = "wiring n"]) (assumption+, rule tester_exec_wiring)

text \<open>
  (C33) The network that the Raft tester simulates. After \<open>make_config\<close> and any sequence of starts,
  crashes, restarts, connections, disconnections and changes of reliability, as long as none of them fails:
  a request through an end reaches a server exactly if the end belongs to the current instance of
  a server \<open>i\<close>, leads to a server \<open>j\<close> that is running, and both are connected; it then reaches, under
  the name of \<open>j\<close>, a server object that dispatches to the current peer of \<open>j\<close>. Ends of crashed instances
  reach nothing.
\<close>

theorem tester_network:
  assumes "make_config decSnap n unreliable names now = Inr cfg0" and "for_each (tester_exec decSnap) ops cfg0 = Inr cfg"
  shows "case iServer (readEndnameInfo e (cnet cfg)) of
     None \<Rightarrow> \<not> (\<exists>i<n. \<exists>j<n. end_of cfg i j e \<and> connected cfg ! i \<and> connected cfg ! j \<and> rafts cfg ! j \<noteq> None)
   | Some (s, a) \<Rightarrow> \<exists>i<n. \<exists>j<n. \<exists>r. end_of cfg i j e \<and> connected cfg ! i \<and> connected cfg ! j
       \<and> rafts cfg ! j = Some r \<and> s = NInt (int j) \<and> sheap cfg a = raft_server r"
proof -
  have w: "wiring n cfg" by (rule tester_run_wiring [OF assms(2) make_config_wiring [OF assms(1)]])
  have L: "iServer (readEndnameInfo e (cnet cfg)) = Some (s, a)
      \<longleftrightarrow> enabled (cnet cfg) e \<and> connections (cnet cfg) e = Some s \<and> servers (cnet cfg) s = Some a" for s a
    by (auto simp: readEndnameInfo_def split: option.splits)
  show ?thesis
  proof (cases "iServer (readEndnameInfo e (cnet cfg))")
    case None
    have "False" if ij: "i < n" "j < n" "end_of cfg i j e" "connected cfg ! i" "connected cfg ! j" "rafts cfg ! j \<noteq> None" for i j
    proof -
      obtain a where "servers (cnet cfg) (NInt (int j)) = Some a" using wiringD(7) [OF w ij(2)] ij(6) by (auto simp: served_def)
      moreover have "enabled (cnet cfg) e" unfolding wiringD(2) [OF w] using ij by blast
      ultimately show False using L None wiringD(5) [OF w ij(1-3)] by (metis option.distinct(1))
    qed
    then have "\<not> (\<exists>i<n. \<exists>j<n. end_of cfg i j e \<and> connected cfg ! i \<and> connected cfg ! j \<and> rafts cfg ! j \<noteq> None)" by blast
    then show ?thesis unfolding None by simp
  next
    case (Some sa)
    obtain s a where sa: "sa = (s, a)" by (cases sa)
    with Some obtain i j where ij: "i < n" "j < n" "end_of cfg i j e" "connected cfg ! i" "connected cfg ! j"
      and s: "connections (cnet cfg) e = Some s" "servers (cnet cfg) s = Some a" unfolding L sa wiringD(2) [OF w] by blast
    have "s = NInt (int j)" using wiringD(5) [OF w ij(1-3)] s(1) by simp
    moreover have "\<exists>r. rafts cfg ! j = Some r \<and> sheap cfg a = raft_server r"
      using wiringD(7) [OF w ij(2)] s(2) calculation by (auto simp: served_def split: option.splits)
    ultimately show ?thesis using ij Some sa by auto
  qed
qed

text \<open>Two servers, of which one crashes, restarts and is connected again.\<close>

definition sample_names :: "nat \<Rightarrow> nat \<Rightarrow> string" where
  "sample_names k j = itoa k @ ''-'' @ itoa j"

definition sample_ops :: "tester_op list" where
  "sample_ops = [TCrash 1, TStart 1 (sample_names 2), TSave 1 (Some ''old'') None, TConnect 1]"

theorem tester_network_witness:
  "\<exists>cfg0 cfg :: (nat, nat) config. make_config (\<lambda>_. None) 2 False sample_names 0 = Inr cfg0
    \<and> for_each (tester_exec (\<lambda>_. None)) sample_ops cfg0 = Inr cfg
    \<and> (\<exists>i<2. \<exists>j<2. \<exists>r a. end_of cfg i j (NStr ''2-0'') \<and> connected cfg ! i \<and> connected cfg ! j \<and> rafts cfg ! j = Some r
        \<and> iServer (readEndnameInfo (NStr ''2-0'') (cnet cfg)) = Some (NInt (int j), a) \<and> sheap cfg a = raft_server r)"
proof -
  have "case make_config (\<lambda>_. None) 2 False sample_names 0 :: fatal + (nat, nat) config of Inl _ \<Rightarrow> False
    | Inr c \<Rightarrow> (case for_each (tester_exec (\<lambda>_. None)) sample_ops c of Inl _ \<Rightarrow> False
       | Inr d \<Rightarrow> \<not> Option.is_none (iServer (readEndnameInfo (NStr ''2-0'') (cnet d))))" by code_simp
  then obtain c d :: "(nat, nat) config" and s a where c: "make_config (\<lambda>_. None) 2 False sample_names 0 = Inr c"
    "for_each (tester_exec (\<lambda>_. None)) sample_ops c = Inr d" and i: "iServer (readEndnameInfo (NStr ''2-0'') (cnet d)) = Some (s, a)"
    by (auto simp: Option.is_none_def split: sum.splits)
  from tester_network [OF c, of "NStr ''2-0''"] show ?thesis unfolding i using c i by fastforce
qed

end
