(* ===== verification/RaftDisk.thy ===== *)
theory RaftDisk
  imports RaftTester
begin

text \<open>
  Crashes and restarts of the Raft tester, as seen by the persisted states: the persisters on the
  heap refine one disk per server, that survives crashes and that only the current instance writes.
\<close>

section \<open>The abstract disks\<close>

text \<open>Which instance of each server is running, the number of the next one, and the disks.\<close>

record disks =
  cur :: "nat option list"
  nextInst :: nat
  disk :: "(string \<times> string) option list"

fun disk_spec :: "tester_op \<Rightarrow> disks \<Rightarrow> disks" where
  "disk_spec (TStart i _) d = d\<lparr>cur := (cur d)[i := Some (nextInst d)], nextInst := nextInst d + 1,
     disk := (disk d)[i := Some (case disk d ! i of None \<Rightarrow> ([], []) | Some x \<Rightarrow> x)]\<rparr>"
| "disk_spec (TCrash i) d = d\<lparr>cur := (cur d)[i := None]\<rparr>"
| "disk_spec (TSave r state snap) d = d\<lparr>disk := map (\<lambda>i. if cur d ! i = Some r then Some (content state, content snap) else disk d ! i)
     [0..<length (disk d)]\<rparr>"
| "disk_spec _ d = d"

definition disk_of :: "('c, 'v) config \<Rightarrow> nat \<Rightarrow> (string \<times> string) option" where
  "disk_of cfg i = map_option (\<lambda>p. (content (raftstate p), content (snapshot p))) (saved_at cfg i)"

definition abs_disks :: "('c, 'v) config \<Rightarrow> disks" where
  "abs_disks cfg = \<lparr>cur = rafts cfg, nextInst = rnext cfg, disk = map (disk_of cfg) [0..<length (saved cfg)]\<rparr>"

section \<open>Isolation\<close>

text \<open>
  Outside the set \<open>X\<close> of servers that are being replaced, a running instance owns the saved persister
  of its server, and no other instance does; inside, no instance owns it.
\<close>

definition isolated :: "nat \<Rightarrow> nat set \<Rightarrow> ('c, 'v) config \<Rightarrow> bool" where
  "isolated n X cfg \<longleftrightarrow> length (saved cfg) = n \<and> length (rafts cfg) = n
     \<and> (\<forall>i<n. \<forall>a. saved cfg ! i = Some a \<longrightarrow> a < pnext cfg)
     \<and> (\<forall>i<n. \<forall>j<n. \<forall>a. saved cfg ! i = Some a \<longrightarrow> saved cfg ! j = Some a \<longrightarrow> i = j)
     \<and> (\<forall>r<rnext cfg. persister (rheap cfg r) < pnext cfg)
     \<and> (\<forall>i<n. \<forall>r. rafts cfg ! i = Some r \<longrightarrow> r < rnext cfg \<and> (i \<notin> X \<longrightarrow> saved cfg ! i = Some (persister (rheap cfg r))))
     \<and> (\<forall>r<rnext cfg. \<forall>i<n. saved cfg ! i = Some (persister (rheap cfg r)) \<longrightarrow> i \<notin> X \<and> rafts cfg ! i = Some r)"

lemma isolatedD:
  assumes "isolated n X cfg"
  shows "length (saved cfg) = n" "length (rafts cfg) = n"
    "\<And>i a. i < n \<Longrightarrow> saved cfg ! i = Some a \<Longrightarrow> a < pnext cfg"
    "\<And>i j a. i < n \<Longrightarrow> j < n \<Longrightarrow> saved cfg ! i = Some a \<Longrightarrow> saved cfg ! j = Some a \<Longrightarrow> i = j"
    "\<And>r. r < rnext cfg \<Longrightarrow> persister (rheap cfg r) < pnext cfg"
    "\<And>i r. i < n \<Longrightarrow> rafts cfg ! i = Some r \<Longrightarrow> r < rnext cfg"
    "\<And>i r. i < n \<Longrightarrow> rafts cfg ! i = Some r \<Longrightarrow> i \<notin> X \<Longrightarrow> saved cfg ! i = Some (persister (rheap cfg r))"
    "\<And>i r. i < n \<Longrightarrow> r < rnext cfg \<Longrightarrow> saved cfg ! i = Some (persister (rheap cfg r)) \<Longrightarrow> i \<notin> X \<and> rafts cfg ! i = Some r"
proof -
  note c = assms [unfolded isolated_def]
  note c2 = c [THEN conjunct2] and c3 = c [THEN conjunct2, THEN conjunct2]
  note c4 = c3 [THEN conjunct2] and c5 = c3 [THEN conjunct2, THEN conjunct2]
  note c6 = c5 [THEN conjunct2] and c7 = c5 [THEN conjunct2, THEN conjunct2]
  show "length (saved cfg) = n" by (rule c [THEN conjunct1])
  show "length (rafts cfg) = n" by (rule c2 [THEN conjunct1])
  show "\<And>i a. i < n \<Longrightarrow> saved cfg ! i = Some a \<Longrightarrow> a < pnext cfg" using c3 [THEN conjunct1] by blast
  show "\<And>i j a. i < n \<Longrightarrow> j < n \<Longrightarrow> saved cfg ! i = Some a \<Longrightarrow> saved cfg ! j = Some a \<Longrightarrow> i = j" using c4 [THEN conjunct1] by blast
  show "\<And>r. r < rnext cfg \<Longrightarrow> persister (rheap cfg r) < pnext cfg" using c5 [THEN conjunct1] by blast
  show "\<And>i r. i < n \<Longrightarrow> rafts cfg ! i = Some r \<Longrightarrow> r < rnext cfg"
    "\<And>i r. i < n \<Longrightarrow> rafts cfg ! i = Some r \<Longrightarrow> i \<notin> X \<Longrightarrow> saved cfg ! i = Some (persister (rheap cfg r))"
    using c6 [THEN conjunct1] by blast+
  show "\<And>i r. i < n \<Longrightarrow> r < rnext cfg \<Longrightarrow> saved cfg ! i = Some (persister (rheap cfg r)) \<Longrightarrow> i \<notin> X \<and> rafts cfg ! i = Some r"
    using c7 by blast
qed

lemma isolated_cong:
  assumes "saved cfg' = saved cfg" "rafts cfg' = rafts cfg" "pnext cfg' = pnext cfg" "rnext cfg' = rnext cfg"
    "\<And>r. persister (rheap cfg' r) = persister (rheap cfg r)"
  shows "isolated n X cfg' = isolated n X cfg"
  unfolding isolated_def assms ..

lemma new_persister_isolated:
  assumes s: "isolated n X cfg" and i: "i < n"
  shows "isolated n (insert i X) (new_persister i p cfg)"
  unfolding isolated_def
proof (intro conjI allI impI)
  let ?c = "new_persister i p cfg"
  show "length (saved ?c) = n" "length (rafts ?c) = n" using isolatedD(1,2) [OF s] by simp_all
  have nth: "saved ?c ! j = (if j = i then Some (pnext cfg) else saved cfg ! j)" if "j < n" for j
    using isolatedD(1) [OF s] i by (simp add: nth_list_update)
  fix j assume j: "j < n"
  show "a < pnext ?c" if "saved ?c ! j = Some a" for a
    using that nth [OF j] isolatedD(3) [OF s j] by (auto simp: less_Suc_eq split: if_splits)
  show "j = k" if "k < n" "saved ?c ! j = Some a" "saved ?c ! k = Some a" for k a
    using that(2,3) nth [OF j] nth [OF that(1)] isolatedD(3) [OF s j, of a] isolatedD(3) [OF s that(1), of a]
      isolatedD(4) [OF s j that(1), of a] by (cases "j = i"; cases "k = i") auto
  show "r < rnext ?c" if "rafts ?c ! j = Some r" for r using that isolatedD(6) [OF s j] by simp
  show "saved ?c ! j = Some (persister (rheap ?c r))" if "rafts ?c ! j = Some r" "j \<notin> insert i X" for r
    using that nth [OF j] isolatedD(7) [OF s j] by simp
  show "j \<notin> insert i X" "rafts ?c ! j = Some r" if "r < rnext ?c" "saved ?c ! j = Some (persister (rheap ?c r))" for r
    using that nth [OF j] isolatedD(5) [OF s, of r] isolatedD(8) [OF s j, of r] by (auto split: if_splits)
next
  fix r assume "r < rnext (new_persister i p cfg)"
  then show "persister (rheap (new_persister i p cfg) r) < pnext (new_persister i p cfg)" using isolatedD(5) [OF s, of r] by simp
qed

lemma disk_of_new_persister:
  assumes "isolated n X cfg" "i < n" "j < n"
  shows "disk_of (new_persister i p cfg) j = (if j = i then Some (content (raftstate p), content (snapshot p)) else disk_of cfg j)"
  using assms isolatedD(1) [OF assms(1)] isolatedD(3) [OF assms(1,3)]
  by (auto simp: disk_of_def saved_at_def nth_list_update map_option_case split: option.splits)

lemma disk_of_cong: "saved cfg' ! i = saved cfg ! i \<Longrightarrow> pheap cfg' = pheap cfg \<Longrightarrow> disk_of cfg' i = disk_of cfg i"
  by (simp add: disk_of_def saved_at_def)

lemma crash_kill_sel [simp]:
  "saved (crash_kill i cfg) = saved cfg" "pheap (crash_kill i cfg) = pheap cfg" "pnext (crash_kill i cfg) = pnext cfg"
  "rnext (crash_kill i cfg) = rnext cfg" "persister (rheap (crash_kill i cfg) r) = persister (rheap cfg r)"
  by (auto simp: crash_kill_def Kill_def split: option.splits)

lemma crash_kill_rafts: "i < length (rafts cfg) \<Longrightarrow> rafts (crash_kill i cfg) = (rafts cfg)[i := None]"
  using list_update_id [of "rafts cfg" i] by (cases "rafts cfg ! i") (simp_all add: crash_kill_def)

text \<open>The instance of a server that is being replaced can be removed, and then the server is settled.\<close>

lemma crash_kill_isolated:
  assumes s: "isolated n X cfg" and i: "i \<in> X" "i < n"
  shows "isolated n (X - {i}) (crash_kill i cfg)"
  unfolding isolated_def crash_kill_sel
proof (intro conjI allI impI)
  have r: "rafts (crash_kill i cfg) = (rafts cfg)[i := None]" using crash_kill_rafts [of i cfg] i(2) isolatedD(2) [OF s] by simp
  show "length (saved cfg) = n" "length (rafts (crash_kill i cfg)) = n" using isolatedD(1,2) [OF s] r by simp_all
  fix j assume j: "j < n"
  have nth: "rafts (crash_kill i cfg) ! j = (if j = i then None else rafts cfg ! j)" using r isolatedD(2) [OF s] i(2) by (simp add: nth_list_update)
  show "a < pnext cfg" if "saved cfg ! j = Some a" for a by (rule isolatedD(3) [OF s j that])
  show "j = k" if "k < n" "saved cfg ! j = Some a" "saved cfg ! k = Some a" for k a by (rule isolatedD(4) [OF s j that])
  show "r < rnext cfg" if "rafts (crash_kill i cfg) ! j = Some r" for r
    using that nth isolatedD(6) [OF s j, of r] by (simp split: if_splits)
  show "saved cfg ! j = Some (persister (rheap cfg r))" if "rafts (crash_kill i cfg) ! j = Some r" "j \<notin> X - {i}" for r
    using that nth isolatedD(7) [OF s j, of r] by (simp split: if_splits)
  show "j \<notin> X - {i}" "rafts (crash_kill i cfg) ! j = Some r" if "r < rnext cfg" "saved cfg ! j = Some (persister (rheap cfg r))" for r
    using isolatedD(8) [OF s j that] nth i(1) by auto
qed (use isolatedD(5) [OF s] in simp)

lemma settle:
  assumes s: "isolated n X cfg" and i: "rafts cfg ! i = None"
  shows "isolated n (X - {i}) cfg"
proof -
  have "j \<notin> X" if "rafts cfg ! j = Some r" "j \<notin> X - {i}" for j r using that i by auto
  then show ?thesis using s unfolding isolated_def by blast
qed

lemma crash_tail_isolated:
  assumes s: "isolated n {} cfg" and i: "i < n"
  shows "isolated n {} (crash_tail i cfg)" and "\<And>j. j < n \<Longrightarrow> disk_of (crash_tail i cfg) j = disk_of cfg j"
proof -
  note len = isolatedD(1,2) [OF s]
  have "isolated n {} (crash_tail i cfg) \<and> (\<forall>j<n. disk_of (crash_tail i cfg) j = disk_of cfg j)"
  proof (cases "saved_at cfg i")
    case None
    then have "saved cfg ! i = None" by (simp add: saved_at_def)
    then have "rafts cfg ! i = None" using isolatedD(7) [OF s i] by (cases "rafts cfg ! i") auto
    then have "crash_tail i cfg = cfg" using None by (simp add: crash_tail_def crash_persister_def crash_kill_def crash_save_def)
    then show ?thesis using s by simp
  next
    case (Some p)
    let ?a = "new_persister i (Copy p) cfg"
    let ?b = "crash_kill i ?a"
    let ?c = "new_persister i (Save (ReadRaftState (Copy p)) (ReadSnapshot (Copy p)) MakePersister) ?b"
    have a: "isolated n {i} ?a" using new_persister_isolated [OF s i] by simp
    have b: "isolated n {} ?b" using crash_kill_isolated [OF a _ i] by simp
    have c: "isolated n {i} ?c" using new_persister_isolated [OF b i] by simp
    have "rafts ?c ! i = None" using crash_kill_rafts [of i ?a] i len by simp
    then have c': "isolated n {} ?c" using settle [OF c, of i] by simp
    have "saved_at ?b i = Some (Copy p)" using i len by (simp add: saved_at_def)
    then have t: "crash_tail i cfg = ?c" using Some by (simp add: crash_tail_def crash_persister_def crash_save_def)
    have "disk_of ?c j = disk_of cfg j" if j: "j < n" for j
    proof -
      have "disk_of ?b j = disk_of ?a j" by (rule disk_of_cong) simp_all
      then show ?thesis using Some disk_of_new_persister [OF b i j] disk_of_new_persister [OF s i j] by (simp add: disk_of_def)
    qed
    then show ?thesis using c' t by simp
  qed
  then show "isolated n {} (crash_tail i cfg)" "\<And>j. j < n \<Longrightarrow> disk_of (crash_tail i cfg) j = disk_of cfg j" by simp_all
qed

lemma start_raft_isolated:
  assumes s: "isolated n {i} cfg" and i: "i < n" and a: "saved cfg ! i = Some a"
  shows "isolated n {} (start_raft i names cfg)"
  unfolding isolated_def
proof (intro conjI allI impI)
  let ?c = "start_raft i names cfg"
  note f = start_raft_effect [OF a, of names]
  note len = isolatedD(1,2) [OF s]
  have pers: "persister (rheap ?c r) = (if r = rnext cfg then a else persister (rheap cfg r))" for r
    by (simp add: f(12) Make_def readPersist_def)
  show "length (saved ?c) = n" "length (rafts ?c) = n" using len by (simp_all add: f)
  fix j assume j: "j < n"
  have nth: "rafts ?c ! j = (if j = i then Some (rnext cfg) else rafts cfg ! j)" using len i by (simp add: f(7) nth_list_update)
  show "b < pnext ?c" if "saved ?c ! j = Some b" for b using isolatedD(3) [OF s j] that by (simp add: f)
  show "j = k" if "k < n" "saved ?c ! j = Some b" "saved ?c ! k = Some b" for k b
    using isolatedD(4) [OF s j that(1)] that by (simp add: f)
  show "r < rnext ?c" if "rafts ?c ! j = Some r" for r
    using that nth isolatedD(6) [OF s j, of r] by (auto simp: f(8) split: if_splits)
  show "saved ?c ! j = Some (persister (rheap ?c r))" if "rafts ?c ! j = Some r" for r
    using that nth isolatedD(6,7) [OF s j, of r] a by (auto simp: f(4) pers split: if_splits)
  show "j \<notin> {}" by simp
  show "rafts ?c ! j = Some r" if r: "r < rnext ?c" "saved ?c ! j = Some (persister (rheap ?c r))" for r
  proof (cases "r = rnext cfg")
    case True
    then have "saved cfg ! j = Some a" using r(2) by (simp add: f(4) pers)
    then show ?thesis using isolatedD(4) [OF s j i _ a] nth True by simp
  next
    case False
    then show ?thesis using r isolatedD(8) [OF s j, of r] nth by (auto simp: f(4,8) pers)
  qed
next
  fix r assume "r < rnext (start_raft i names cfg)"
  then show "persister (rheap (start_raft i names cfg) r) < pnext (start_raft i names cfg)"
    using isolatedD(3) [OF s i a] isolatedD(5) [OF s, of r]
    by (auto simp: start_raft_effect [OF a, of names] Make_def readPersist_def less_Suc_eq)
qed

lemma abs_disks_eq:
  assumes "rafts cfg' = rs" "rnext cfg' = k" "length (saved cfg') = n" "length ds = n" "\<And>i. i < n \<Longrightarrow> disk_of cfg' i = ds ! i"
  shows "abs_disks cfg' = \<lparr>cur = rs, nextInst = k, disk = ds\<rparr>"
  using assms by (auto simp: abs_disks_def intro: nth_equalityI)

lemma crash1_disks:
  assumes w: "wiring n cfg" and s: "isolated n {} cfg" and c: "crash1 i cfg = Inr cfg'"
  shows "isolated n {} cfg'" and "i < n" and "\<And>j. j < n \<Longrightarrow> disk_of cfg' j = disk_of cfg j"
    and "rafts cfg' = (rafts cfg)[i := None]" and "rnext cfg' = rnext cfg"
proof -
  obtain u where u: "disconnect i cfg = Inr u" "cfg' = crash_tail i (u\<lparr>cnet := DeleteServer (NInt (int i)) (cnet u)\<rparr>)"
    using c by (rule crash1E)
  note eff = disconnect_effect [OF wiringD(1) [OF w] u(1)]
  let ?v = "u\<lparr>cnet := DeleteServer (NInt (int i)) (cnet u)\<rparr>"
  show i: "i < n" by (rule eff(1))
  have v: "saved ?v = saved cfg" "rafts ?v = rafts cfg" "pnext ?v = pnext cfg" "rnext ?v = rnext cfg" "rheap ?v = rheap cfg" "pheap ?v = pheap cfg"
    by (simp_all add: eff(2))
  have sv: "isolated n {} ?v" using s isolated_cong [of ?v cfg n "{}"] v by simp
  show "isolated n {} cfg'" unfolding u(2) by (rule crash_tail_isolated(1) [OF sv i])
  show "rafts cfg' = (rafts cfg)[i := None]" using crash_tail_rafts [of i ?v] i isolatedD(2) [OF sv] v(2) u(2) by simp
  show "rnext cfg' = rnext cfg" using v(4) u(2) by simp
  show "disk_of cfg' j = disk_of cfg j" if "j < n" for j
    using crash_tail_isolated(2) [OF sv i that] disk_of_cong [of ?v j cfg] v u(2) by simp
qed

lemma start1_disks:
  assumes w: "wiring n cfg" and s: "isolated n {} cfg" and st: "start1 decSnap i names cfg = Inr cfg'"
  shows "isolated n {} cfg'" and "abs_disks cfg' = disk_spec (TStart i names) (abs_disks cfg)"
proof -
  obtain u v x where st: "crash1 i cfg = Inr u" "start_ends i names u = Inr v" "start_persister decSnap i v = Inr x" "cfg' = start_raft i names x"
    using st by (rule start1E)
  note c = crash1_disks [OF w s st(1)] and wc = crash1_wiring [OF w st(1)]
  obtain rn where v: "v = u\<lparr>endnames := (endnames u)[i := Some (map names [0..<n])], cnet := rn\<rparr>"
    using start_ends_facts(8) [OF wc(1,2) st(2)] by blast
  have sv: "isolated n {} v" using c(1) isolated_cong [of v u n "{}"] by (simp add: v)
  note len = isolatedD(1,2) [OF sv]
  note p = start_persister_effect [OF st(3), unfolded len(1), OF c(2)]
  let ?p = "case saved_at v i of None \<Rightarrow> MakePersister | Some p \<Rightarrow> Copy p"
  have "isolated n {i} (new_persister i ?p v)" using new_persister_isolated [OF sv c(2)] by simp
  then have sx: "isolated n {i} x" using isolated_cong [of x "new_persister i ?p v" n "{i}"] p by simp
  have sa: "saved x ! i = Some (pnext v)" using p(10) c(2) len(1) by simp
  show "isolated n {} cfg'" unfolding st(4) by (rule start_raft_isolated [OF sx c(2) sa])
  note r = start_raft_effect [OF sa, of names, folded st(4)]
  have d: "disk_of cfg' j = (if j = i then Some (case disk_of cfg i of None \<Rightarrow> ([], []) | Some y \<Rightarrow> y) else disk_of cfg j)" if j: "j < n" for j
  proof -
    have "disk_of cfg' j = disk_of (new_persister i ?p v) j" by (rule disk_of_cong) (simp_all add: r p)
    moreover have vd: "disk_of v k = disk_of cfg k" if "k < n" for k using c(3) [OF that] disk_of_cong [of v k u] by (simp add: v)
    moreover have "(content (raftstate ?p), content (snapshot ?p)) = (case disk_of v i of None \<Rightarrow> ([], []) | Some y \<Rightarrow> y)"
      by (cases "saved_at v i") (simp_all add: disk_of_def)
    ultimately show ?thesis using disk_of_new_persister [OF sv c(2) j, of ?p] j c(2) by (simp del: prod.inject)
  qed
  have "abs_disks cfg' = \<lparr>cur = (rafts cfg)[i := Some (rnext cfg)], nextInst = rnext cfg + 1,
      disk = (map (disk_of cfg) [0..<n])[i := Some (case disk_of cfg i of None \<Rightarrow> ([], []) | Some y \<Rightarrow> y)]\<rparr>"
  proof (rule abs_disks_eq)
    show "rafts cfg' = (rafts cfg)[i := Some (rnext cfg)]" "rnext cfg' = rnext cfg + 1" using c(4,5) by (simp_all add: r p v)
    show "length (saved cfg') = n" using len by (simp add: r p)
  qed (use d c(2) in \<open>simp_all add: nth_list_update\<close>)
  then show "abs_disks cfg' = disk_spec (TStart i names) (abs_disks cfg)"
    using c(2) isolatedD(1) [OF s] by (simp add: abs_disks_def)
qed

section \<open>Refinement\<close>

lemma quiet_disks:
  assumes s: "isolated n {} cfg" and q: "saved cfg' = saved cfg" "rafts cfg' = rafts cfg" "pnext cfg' = pnext cfg" "rnext cfg' = rnext cfg"
    "rheap cfg' = rheap cfg" "pheap cfg' = pheap cfg"
  shows "isolated n {} cfg'" and "abs_disks cfg' = abs_disks cfg"
  using s isolated_cong [of cfg' cfg n "{}"] q by (simp_all add: abs_disks_def disk_of_def saved_at_def)

lemma tester_exec_disks:
  assumes w: "wiring n cfg" and s: "isolated n {} cfg" and e: "tester_exec decSnap op cfg = Inr cfg'"
  shows "isolated n {} cfg' \<and> abs_disks cfg' = disk_spec op (abs_disks cfg)"
proof (cases op)
  case (TStart i names)
  then show ?thesis using e start1_disks [OF w s, of decSnap i names cfg'] by (simp split: if_splits)
next
  case (TCrash i)
  then have "crash1 i cfg = Inr cfg'" using e by simp
  note c = crash1_disks [OF w s this]
  have "abs_disks cfg' = \<lparr>cur = (rafts cfg)[i := None], nextInst = rnext cfg, disk = map (disk_of cfg) [0..<n]\<rparr>"
  proof (rule abs_disks_eq)
    show "disk_of cfg' j = map (disk_of cfg) [0..<n] ! j" if "j < n" for j using c(3) [OF that] that by simp
  qed (use c(4,5) isolatedD(1) [OF c(1)] in simp_all)
  then show ?thesis using c(1) TCrash isolatedD(1) [OF s] by (simp add: abs_disks_def)
next
  case (TConnect i)
  then have "connect i cfg = Inr cfg'" using e by simp
  note eff = connect_effect(3) [OF wiringD(1) [OF w] this]
  show ?thesis using TConnect quiet_disks [OF s, of cfg'] by (simp add: eff)
next
  case (TDisconnect i)
  then have "disconnect i cfg = Inr cfg'" using e by simp
  note eff = disconnect_effect(2) [OF wiringD(1) [OF w] this]
  show ?thesis using TDisconnect quiet_disks [OF s, of cfg'] by (simp add: eff)
next
  case (TUnreliable b)
  then have "cfg' = setunreliable b cfg" using e by simp
  then show ?thesis using TUnreliable quiet_disks [OF s, of cfg'] by (simp add: setunreliable_def)
next
  case (TReordering b)
  then have "cfg' = setlongreordering b cfg" using e by simp
  then show ?thesis using TReordering quiet_disks [OF s, of cfg'] by (simp add: setlongreordering_def)
next
  case (TSave r st sn)
  have own: "saved cfg ! i = Some (persister (rheap cfg r)) \<longleftrightarrow> rafts cfg ! i = Some r" if "i < n" "r < rnext cfg" for i
    using isolatedD(7) [OF s that(1)] isolatedD(8) [OF s that] by blast
  show ?thesis
  proof (cases "r < rnext cfg")
    case True
    then have c': "cfg' = cfg\<lparr>pheap := (pheap cfg)(persister (rheap cfg r) := Save st sn (pheap cfg (persister (rheap cfg r))))\<rparr>" using e TSave by simp
    have "isolated n {} cfg'" using s isolated_cong [of cfg' cfg n "{}"] by (simp add: c')
    moreover have "disk_of cfg' i = (if rafts cfg ! i = Some r then Some (content st, content sn) else disk_of cfg i)" if "i < n" for i
      using own [OF that True] by (cases "saved cfg ! i") (auto simp: c' disk_of_def saved_at_def)
    ultimately show ?thesis using TSave isolatedD(1) [OF s] by (simp add: abs_disks_def c')
  next
    case False
    then have "rafts cfg ! i \<noteq> Some r" if "i < n" for i using isolatedD(6) [OF s that] by blast
    then show ?thesis using False e TSave s isolatedD(1) [OF s] by (auto simp: abs_disks_def)
  qed
qed

lemma tester_run_disks:
  assumes "wiring n cfg" and "isolated n {} cfg" and "for_each (tester_exec decSnap) ops cfg = Inr cfg'"
  shows "isolated n {} cfg' \<and> abs_disks cfg' = fold disk_spec ops (abs_disks cfg)"
  using assms
proof (induction ops arbitrary: cfg)
  case (Cons op ops)
  then obtain u where u: "tester_exec decSnap op cfg = Inr u" "for_each (tester_exec decSnap) ops u = Inr cfg'" by (auto simp: andThen_Inr)
  then show ?case using Cons.IH [OF tester_exec_wiring [OF Cons.prems(1) u(1)]] tester_exec_disks [OF Cons.prems(1,2) u(1)] by simp
qed simp

lemma make_config_disks:
  assumes "make_config decSnap n unreliable names now = Inr (cfg :: ('c, 'v) config)"
  shows "isolated n {} cfg"
proof -
  let ?c = "(setunreliable unreliable (empty_config n now) :: ('c, 'v) config)"
  let ?d = "?c\<lparr>cnet := LongDelays True (cnet ?c)\<rparr>" and ?P = "\<lambda>c :: ('c, 'v) config. wiring n c \<and> isolated n {} c"
  obtain u where u: "for_each (\<lambda>i c. start1 decSnap i (names i) (c\<lparr>logs := (logs c)[i := (\<lambda>_. None)]\<rparr>)) [0..<n] ?d = Inr u"
    "for_each connect [0..<n] u = Inr cfg"
    using assms by (auto simp: make_config_def Let_def andThen_Inr)
  have logs: "wiring n (c\<lparr>logs := l\<rparr>) = wiring n c" "isolated n {} (c\<lparr>logs := l\<rparr>) = isolated n {} c" for c :: "('c, 'v) config" and l
    by (rule wiring_cong isolated_cong; simp)+
  have "wiring n ?d = wiring n (empty_config n now :: ('c, 'v) config)"
    by (rule wiring_cong) (simp_all add: setunreliable_def Reliable_def LongDelays_def)
  then have d: "?P ?d" by (simp add: empty_wiring) (simp add: isolated_def setunreliable_def empty_config_def)
  have step: "?P c'" if "?P c" "start1 decSnap i (names i) (c\<lparr>logs := l\<rparr>) = Inr c'" for i c c' l
    using that start1_wiring [OF _ that(2)] start1_disks(1) [OF _ _ that(2)] logs by blast
  have con: "?P c'" if "?P c" "connect i c = Inr c'" for i c c'
    using that connect_wiring [OF _ that(2)] tester_exec_disks [of n c "\<lambda>_. None" "TConnect i" c'] by auto
  have "?P u" by (rule for_each_inv [OF u(1), where P = ?P, OF d]) (rule step)
  then have "?P cfg" by (rule for_each_inv [OF u(2), where P = ?P]) (rule con)
  then show ?thesis by simp
qed

text \<open>
  (C34) Persisted state survives crashes, and instances are isolated. From \<open>make_config\<close> on, through any
  sequence of crashes, restarts, connections, disconnections and saves by any peer that was ever
  created, the saved persisters behave as one disk per server: a save by the running instance of a server
  replaces the content of its disk, a save by an instance that crashed changes no disk, a crash keeps
  the disk, and a restart hands it to the new instance. In particular a peer that is started again is made from
  exactly what the last running instance of its server saved.
\<close>

theorem persisted_state_refines:
  assumes "make_config decSnap n unreliable names now = Inr cfg0" and "for_each (tester_exec decSnap) ops cfg0 = Inr cfg"
  shows "abs_disks cfg = fold disk_spec ops (abs_disks cfg0)
    \<and> (\<forall>i<n. \<forall>r. rafts cfg ! i = Some r \<longrightarrow> disk_of cfg i = Some (content (raftstate (pheap cfg (persister (rheap cfg r)))),
        content (snapshot (pheap cfg (persister (rheap cfg r))))))"
proof -
  note s = tester_run_disks [OF make_config_wiring [OF assms(1)] make_config_disks [OF assms(1)] assms(2)]
  have "disk_of cfg i = Some (content (raftstate (pheap cfg (persister (rheap cfg r)))), content (snapshot (pheap cfg (persister (rheap cfg r)))))"
    if "i < n" "rafts cfg ! i = Some r" for i r
    using isolatedD(7) [of n "{}" cfg, OF _ that] s by (simp add: disk_of_def saved_at_def)
  then show ?thesis using s by blast
qed

definition sample_saves :: "tester_op list" where
  "sample_saves = [TSave 1 (Some ''x'') None, TCrash 1, TSave 1 (Some ''late'') None, TStart 1 (sample_names 2), TSave 1 (Some ''later'') None]"

theorem persisted_state_refines_witness:
  "\<exists>cfg0 cfg :: (nat, nat) config. make_config (\<lambda>_. None) 2 False sample_names 0 = Inr cfg0
    \<and> for_each (tester_exec (\<lambda>_. None)) sample_saves cfg0 = Inr cfg \<and> abs_disks cfg = fold disk_spec sample_saves (abs_disks cfg0)
    \<and> disk_of cfg 1 = Some (''x'', [])"
proof -
  have "case make_config (\<lambda>_. None) 2 False sample_names 0 :: fatal + (nat, nat) config of Inl _ \<Rightarrow> False
    | Inr c \<Rightarrow> (case for_each (tester_exec (\<lambda>_. None)) sample_saves c of Inl _ \<Rightarrow> False | Inr d \<Rightarrow> disk_of d 1 = Some (''x'', []))" by code_simp
  then obtain c d :: "(nat, nat) config" where "make_config (\<lambda>_. None) 2 False sample_names 0 = Inr c"
    "for_each (tester_exec (\<lambda>_. None)) sample_saves c = Inr d" "disk_of d 1 = Some (''x'', [])" by (auto split: sum.splits)
  then show ?thesis using persisted_state_refines by blast
qed

end
