(* ===== verification/KvConfig.thy ===== *)
theory KvConfig
  imports Raft "HOL-Library.AList"
begin

text \<open>
  The testers of the key/value service and of the shard controller, \<open>kvraft/config.go\<close> and
  \<open>shardctrler/config.go\<close>. The two files have the same functions, up to the type of the service
  object and a few fields, so that the model is generic in that type and \<open>ShardCtrlerConfig\<close> gives the
  instances and the differences of the second. As in the Raft tester, objects are addresses into heaps,
  random names and the clock are arguments, and the errors are values.
\<close>

section \<open>Clerks of the key/value service\<close>

text \<open>\<open>kvraft/client.go\<close>: the clerk, whose operations call no server.\<close>

record Clerk =
  ckServers :: "name list"

definition MakeClerk :: "name list \<Rightarrow> Clerk" where
  "MakeClerk handles = \<lparr>ckServers = handles\<rparr>"

definition Clerk_Get :: "Clerk \<Rightarrow> string \<Rightarrow> string" where
  "Clerk_Get ck k = []"

definition Clerk_PutAppend :: "Clerk \<Rightarrow> string \<Rightarrow> string \<Rightarrow> string \<Rightarrow> Clerk" where
  "Clerk_PutAppend ck k v op = ck"

definition Clerk_Put :: "Clerk \<Rightarrow> string \<Rightarrow> string \<Rightarrow> Clerk" where
  "Clerk_Put ck k v = Clerk_PutAppend ck k v ''Put''"

definition Clerk_Append :: "Clerk \<Rightarrow> string \<Rightarrow> string \<Rightarrow> Clerk" where
  "Clerk_Append ck k v = Clerk_PutAppend ck k v ''Append''"

section \<open>Services\<close>

text \<open>What the testers use of a service: creation from its index, its peer and the limit of the raft state; \<open>Kill\<close>; and its peer.\<close>

record 's service_ops =
  svMake :: "nat \<Rightarrow> nat \<Rightarrow> int \<Rightarrow> 's"
  svKill :: "'s \<Rightarrow> 's"
  svRf :: "'s \<Rightarrow> nat"

text \<open>The names of the ends of the servers, of the clerks and their objects; a server object of the network is the pair of the
  service object and the peer that its two services dispatch to.\<close>

record 's gconfig =
  gnet :: Network
  gn :: nat
  gservers :: "nat option list"
  gsaved :: "nat option list"
  gends :: "string list option list"
  gclerks :: "(nat \<times> string list) list"
  gnextClientId :: int
  gmaxraftstate :: int
  gstart :: int
  gt0 :: int
  grpcs0 :: int
  gops :: "32 word"
  gpheap :: "nat \<Rightarrow> Persister"
  gpnext :: nat
  grheap :: "nat \<Rightarrow> Raft"
  grnext :: nat
  gobjs :: "nat \<Rightarrow> 's"
  gonext :: nat
  gclerkObjs :: "nat \<Rightarrow> Clerk"
  gcnext :: nat
  gnsrv :: "nat \<Rightarrow> nat \<times> nat"
  gnnext :: nat

section \<open>Handles\<close>

text \<open>\<open>random_handles\<close>: \<open>rnd i\<close> is what \<open>rand.Intn(i + 1)\<close> returns.\<close>

definition swap_at :: "nat \<Rightarrow> nat \<Rightarrow> 'a list \<Rightarrow> 'a list" where
  "swap_at i j sa = sa[i := sa ! j, j := sa ! i]"

definition random_handles :: "(nat \<Rightarrow> nat) \<Rightarrow> 'a list \<Rightarrow> 'a list" where
  "random_handles rnd kvh = fold (\<lambda>i sa. swap_at i (rnd i) sa) [0..<length kvh] kvh"

section \<open>Timing, cleaning up, sizes\<close>

definition gcheckTimeout :: "bool \<Rightarrow> int \<Rightarrow> 's gconfig \<Rightarrow> fatal + 's gconfig" where
  "gcheckTimeout failed now cfg = (if \<not> failed \<and> now - gstart cfg > 120 * 1000000000
     then Inl (Fatal ''test took longer than 120 seconds'') else Inr cfg)"

definition gkill :: "'s service_ops \<Rightarrow> nat \<Rightarrow> 's gconfig \<Rightarrow> 's gconfig" where
  "gkill S a cfg = (let rf = svRf S (gobjs cfg a) in
     cfg\<lparr>gobjs := (gobjs cfg)(a := svKill S (gobjs cfg a)), grheap := (grheap cfg)(rf := Kill (grheap cfg rf))\<rparr>)"

definition gcleanup :: "'s service_ops \<Rightarrow> bool \<Rightarrow> int \<Rightarrow> 's gconfig \<Rightarrow> fatal + 's gconfig" where
  "gcleanup S failed now cfg = (let cfg = fold (\<lambda>i c. case gservers c ! i of None \<Rightarrow> c | Some a \<Rightarrow> gkill S a c) [0..<length (gservers cfg)] cfg in
     andThen (Cleanup (gnet cfg)) (\<lambda>rn. gcheckTimeout failed now (cfg\<lparr>gnet := rn\<rparr>)))"

definition gsaved_at :: "'s gconfig \<Rightarrow> nat \<Rightarrow> Persister option" where
  "gsaved_at cfg i = map_option (gpheap cfg) (gsaved cfg ! i)"

definition max_size :: "(Persister \<Rightarrow> nat) \<Rightarrow> 's gconfig \<Rightarrow> fatal + nat" where
  "max_size sz cfg = for_each (\<lambda>i m. case gsaved_at cfg i of None \<Rightarrow> Inl (Panic ''nil pointer dereference'')
     | Some p \<Rightarrow> Inr (if sz p > m then sz p else m)) [0..<gn cfg] 0"

definition gLogSize :: "'s gconfig \<Rightarrow> fatal + nat" where
  "gLogSize cfg = max_size RaftStateSize cfg"

definition gSnapshotSize :: "'s gconfig \<Rightarrow> fatal + nat" where
  "gSnapshotSize cfg = max_size SnapshotSize cfg"

section \<open>Wiring\<close>

definition gend_at :: "'s gconfig \<Rightarrow> nat \<Rightarrow> nat \<Rightarrow> fatal + name" where
  "gend_at cfg i j = (if i < length (gends cfg) then (case gends cfg ! i of None \<Rightarrow> Inl bounds
     | Some es \<Rightarrow> if j < length es then Inr (NStr (es ! j)) else Inl bounds) else Inl bounds)"

definition genable :: "nat \<Rightarrow> nat \<Rightarrow> bool \<Rightarrow> 's gconfig \<Rightarrow> fatal + 's gconfig" where
  "genable i j b cfg = andThen (gend_at cfg i j) (\<lambda>e. Inr (cfg\<lparr>gnet := Enable e b (gnet cfg)\<rparr>))"

definition connectUnlocked :: "nat \<Rightarrow> nat list \<Rightarrow> 's gconfig \<Rightarrow> fatal + 's gconfig" where
  "connectUnlocked i to cfg = andThen (for_each (\<lambda>t. genable i t True) to cfg) (for_each (\<lambda>t. genable t i True) to)"

text \<open>\<open>disconnectUnlocked\<close>: the test for the incoming ends is on \<open>endnames[j]\<close>, not on \<open>endnames[from[j]]\<close>.\<close>

definition if_named :: "nat \<Rightarrow> ('s gconfig \<Rightarrow> fatal + 's gconfig) \<Rightarrow> 's gconfig \<Rightarrow> fatal + 's gconfig" where
  "if_named k f cfg = (if k \<ge> length (gends cfg) then Inl bounds else if gends cfg ! k \<noteq> None then f cfg else Inr cfg)"

definition disconnectUnlocked :: "nat \<Rightarrow> nat list \<Rightarrow> 's gconfig \<Rightarrow> fatal + 's gconfig" where
  "disconnectUnlocked i from cfg = andThen (for_each (\<lambda>t. if_named i (genable i t False)) from cfg)
     (for_each (\<lambda>(j, t). if_named j (genable t i False)) (enumerate 0 from))"

definition All_servers :: "'s gconfig \<Rightarrow> nat list" where
  "All_servers cfg = [0..<gn cfg]"

definition ConnectAll :: "'s gconfig \<Rightarrow> fatal + 's gconfig" where
  "ConnectAll cfg = for_each (\<lambda>i c. connectUnlocked i (All_servers c) c) [0..<gn cfg] cfg"

definition partition_servers :: "nat list \<Rightarrow> nat list \<Rightarrow> 's gconfig \<Rightarrow> fatal + 's gconfig" where
  "partition_servers p1 p2 cfg =
     andThen (for_each (\<lambda>i c. andThen (disconnectUnlocked i p2 c) (connectUnlocked i p1)) p1 cfg)
       (for_each (\<lambda>i c. andThen (disconnectUnlocked i p1 c) (connectUnlocked i p2)) p2)"

section \<open>Clerks\<close>

definition clerk_end :: "nat \<Rightarrow> nat \<Rightarrow> 's gconfig \<Rightarrow> fatal + name" where
  "clerk_end ck t cfg = (let es = (case map_of (gclerks cfg) ck of None \<Rightarrow> [] | Some es \<Rightarrow> es) in
     if t < length es then Inr (NStr (es ! t)) else Inl bounds)"

definition switch_client :: "bool \<Rightarrow> nat \<Rightarrow> nat list \<Rightarrow> 's gconfig \<Rightarrow> fatal + 's gconfig" where
  "switch_client b ck ts = for_each (\<lambda>t cfg. andThen (clerk_end ck t cfg) (\<lambda>e. Inr (cfg\<lparr>gnet := Enable e b (gnet cfg)\<rparr>))) ts"

definition ConnectClientUnlocked :: "nat \<Rightarrow> nat list \<Rightarrow> 's gconfig \<Rightarrow> fatal + 's gconfig" where
  "ConnectClientUnlocked ck to = switch_client True ck to"

definition DisconnectClientUnlocked :: "nat \<Rightarrow> nat list \<Rightarrow> 's gconfig \<Rightarrow> fatal + 's gconfig" where
  "DisconnectClientUnlocked ck from = switch_client False ck from"

text \<open>A fresh end for each server, connected to it by number.\<close>

definition make_ends :: "(nat \<Rightarrow> string) \<Rightarrow> 's gconfig \<Rightarrow> fatal + 's gconfig" where
  "make_ends names cfg = for_each (\<lambda>j c. andThen (MakeEnd (NStr (names j)) (gnet c))
     (\<lambda>rn. Inr (c\<lparr>gnet := Connect (NStr (names j)) (NInt (int j)) rn\<rparr>))) [0..<gn cfg] cfg"

definition makeClient :: "(nat \<Rightarrow> string) \<Rightarrow> (nat \<Rightarrow> nat) \<Rightarrow> nat list \<Rightarrow> 's gconfig \<Rightarrow> fatal + 's gconfig \<times> nat" where
  "makeClient names rnd to cfg = andThen (make_ends names cfg) (\<lambda>cfg.
     let ck = gcnext cfg;
         cfg = cfg\<lparr>gclerkObjs := (gclerkObjs cfg)(ck := MakeClerk (random_handles rnd (map (\<lambda>j. NStr (names j)) [0..<gn cfg]))), gcnext := ck + 1,
           gclerks := AList.update ck (map names [0..<gn cfg]) (gclerks cfg), gnextClientId := gnextClientId cfg + 1\<rparr> in
     andThen (ConnectClientUnlocked ck to cfg) (\<lambda>cfg. Inr (cfg, ck)))"

definition deleteClient :: "nat \<Rightarrow> 's gconfig \<Rightarrow> 's gconfig" where
  "deleteClient ck cfg = cfg\<lparr>gclerks := AList.delete ck (gclerks cfg)\<rparr>"

section \<open>Servers\<close>

definition gnew_persister :: "nat \<Rightarrow> Persister \<Rightarrow> 's gconfig \<Rightarrow> 's gconfig" where
  "gnew_persister i p cfg = cfg\<lparr>gpheap := (gpheap cfg)(gpnext cfg := p), gsaved := (gsaved cfg)[i := Some (gpnext cfg)], gpnext := gpnext cfg + 1\<rparr>"

definition ShutdownServer :: "'s service_ops \<Rightarrow> nat \<Rightarrow> 's gconfig \<Rightarrow> fatal + 's gconfig" where
  "ShutdownServer S i cfg = (if i \<ge> gn cfg then Inl bounds else andThen (disconnectUnlocked i (All_servers cfg) cfg) (\<lambda>cfg.
     let cfg = cfg\<lparr>gnet := DeleteServer (NInt (int i)) (gnet cfg)\<rparr>;
         cfg = (case gsaved_at cfg i of None \<Rightarrow> cfg | Some p \<Rightarrow> gnew_persister i (Copy p) cfg) in
     Inr (case gservers cfg ! i of None \<Rightarrow> cfg | Some a \<Rightarrow> (gkill S a cfg)\<lparr>gservers := (gservers cfg)[i := None]\<rparr>)))"

definition StartServer :: "'s service_ops \<Rightarrow> nat \<Rightarrow> (nat \<Rightarrow> string) \<Rightarrow> 's gconfig \<Rightarrow> fatal + 's gconfig" where
  "StartServer S i names cfg = (if i \<ge> gn cfg then Inl bounds else
     andThen (make_ends names (cfg\<lparr>gends := (gends cfg)[i := Some (map names [0..<gn cfg])]\<rparr>)) (\<lambda>cfg.
     let cfg = gnew_persister i (case gsaved_at cfg i of None \<Rightarrow> MakePersister | Some p \<Rightarrow> Copy p) cfg;
         a = gpnext cfg - 1; rf = grnext cfg; obj = gonext cfg; srv = gnnext cfg in
     Inr (cfg\<lparr>grheap := (grheap cfg)(rf := Make (map (\<lambda>j. NStr (names j)) [0..<gn cfg]) i a (gpheap cfg a)), grnext := rf + 1,
       gobjs := (gobjs cfg)(obj := svMake S i rf (gmaxraftstate cfg)), gonext := obj + 1, gservers := (gservers cfg)[i := Some obj],
       gnsrv := (gnsrv cfg)(srv := (obj, rf)), gnnext := srv + 1, gnet := AddServer (NInt (int i)) srv (gnet cfg)\<rparr>)))"

section \<open>Partitions\<close>

text \<open>\<open>Leader\<close>: \<open>gs i\<close> is whether the peer of server \<open>i\<close> claims to be the leader; a server that is not running panics.\<close>

fun Leader_loop :: "(nat \<Rightarrow> bool) \<Rightarrow> 's gconfig \<Rightarrow> nat list \<Rightarrow> fatal + bool \<times> nat" where
  "Leader_loop gs cfg [] = Inr (False, 0)"
| "Leader_loop gs cfg (i # is) = (if gservers cfg ! i = None then Inl (Panic ''nil pointer dereference'')
     else if gs i then Inr (True, i) else Leader_loop gs cfg is)"

definition Leader :: "(nat \<Rightarrow> bool) \<Rightarrow> 's gconfig \<Rightarrow> fatal + bool \<times> nat" where
  "Leader gs cfg = Leader_loop gs cfg [0..<gn cfg]"

text \<open>The loop and the last assignment of \<open>make_partition\<close>, for \<open>n\<close> servers and the leader \<open>l\<close>.\<close>

definition place_server :: "nat \<Rightarrow> nat \<Rightarrow> nat list \<times> nat list \<times> nat \<Rightarrow> fatal + nat list \<times> nat list \<times> nat" where
  "place_server l i = (\<lambda>(p1, p2, j). if i = l then Inr (p1, p2, j)
     else if j < length p1 then Inr (p1[j := i], p2, j + 1)
     else if j - length p1 < length p2 then Inr (p1, p2[j - length p1 := i], j + 1) else Inl bounds)"

definition split_servers :: "nat \<Rightarrow> nat \<Rightarrow> fatal + nat list \<times> nat list" where
  "split_servers n l = andThen (for_each (place_server l) [0..<n] (replicate (n div 2 + 1) 0, replicate (n div 2) 0, 0))
     (\<lambda>(p1, p2, _). if p2 = [] then Inl bounds else Inr (p1, p2[length p2 - 1 := l]))"

definition make_partition :: "(nat \<Rightarrow> bool) \<Rightarrow> 's gconfig \<Rightarrow> fatal + nat list \<times> nat list" where
  "make_partition gs cfg = andThen (Leader gs cfg) (\<lambda>(_, l). split_servers (gn cfg) l)"

section \<open>Creation and figures\<close>

definition gempty :: "nat \<Rightarrow> int \<Rightarrow> int \<Rightarrow> 's \<Rightarrow> 's gconfig" where
  "gempty n maxraftstate now z = \<lparr>gnet = MakeNetwork, gn = n, gservers = replicate n None, gsaved = replicate n None,
     gends = replicate n None, gclerks = [], gnextClientId = int n + 1000, gmaxraftstate = maxraftstate, gstart = now, gt0 = 0,
     grpcs0 = 0, gops = 0, gpheap = (\<lambda>_. MakePersister), gpnext = 0, grheap = (\<lambda>_. \<lparr>peers = [], persister = 0, me = 0, dead = 0\<rparr>), grnext = 0,
     gobjs = (\<lambda>_. z), gonext = 0, gclerkObjs = (\<lambda>_. MakeClerk []), gcnext = 0, gnsrv = (\<lambda>_. (0, 0)), gnnext = 0\<rparr>"

definition gmake_config :: "'s service_ops \<Rightarrow> nat \<Rightarrow> bool \<Rightarrow> int \<Rightarrow> (nat \<Rightarrow> nat \<Rightarrow> string) \<Rightarrow> int \<Rightarrow> 's \<Rightarrow> fatal + 's gconfig" where
  "gmake_config S n unreliable maxraftstate names now z =
     andThen (for_each (\<lambda>i. StartServer S i (names i)) [0..<n] (gempty n maxraftstate now z)) (\<lambda>cfg.
     andThen (ConnectAll cfg) (\<lambda>cfg. Inr (cfg\<lparr>gnet := Reliable (\<not> unreliable) (gnet cfg)\<rparr>)))"

definition grpcTotal :: "'s gconfig \<Rightarrow> int" where
  "grpcTotal cfg = GetTotalCount (gnet cfg)"

definition gbegin :: "int \<Rightarrow> 's gconfig \<Rightarrow> 's gconfig" where
  "gbegin now cfg = cfg\<lparr>gt0 := now, grpcs0 := grpcTotal cfg, gops := 0\<rparr>"

definition gop :: "'s gconfig \<Rightarrow> 's gconfig" where
  "gop cfg = cfg\<lparr>gops := gops cfg + 1\<rparr>"

definition gend :: "bool \<Rightarrow> int \<Rightarrow> 's gconfig \<Rightarrow> fatal + (int \<times> nat \<times> int \<times> int) option" where
  "gend failed now cfg = andThen (gcheckTimeout failed now cfg) (\<lambda>cfg. Inr (if failed then None
     else Some (now - gt0 cfg, gn cfg, grpcTotal cfg - grpcs0 cfg, sint (gops cfg))))"

section \<open>The key/value service\<close>

text \<open>\<open>kvraft/server.go\<close>: the handlers are empty, so that a reply stays as the network made it.\<close>

record KVServer =
  kvMe :: nat
  kvRf :: nat
  kvDead :: "32 word"
  kvMaxraftstate :: int

definition StartKVServer :: "nat \<Rightarrow> nat \<Rightarrow> int \<Rightarrow> KVServer" where
  "StartKVServer i rf maxraftstate = \<lparr>kvMe = i, kvRf = rf, kvDead = 0, kvMaxraftstate = maxraftstate\<rparr>"

definition KVServer_Get :: "KVServer \<Rightarrow> 'v \<Rightarrow> 'v \<Rightarrow> KVServer \<times> 'v" where
  "KVServer_Get kv a r = (kv, r)"

definition KVServer_PutAppend :: "KVServer \<Rightarrow> 'v \<Rightarrow> 'v \<Rightarrow> KVServer \<times> 'v" where
  "KVServer_PutAppend kv a r = (kv, r)"

definition KVServer_Kill :: "KVServer \<Rightarrow> KVServer" where
  "KVServer_Kill kv = kv\<lparr>kvDead := 1\<rparr>"

definition KVServer_killed :: "KVServer \<Rightarrow> bool" where
  "KVServer_killed kv \<longleftrightarrow> kvDead kv = 1"

definition kv_ops :: "KVServer service_ops" where
  "kv_ops = \<lparr>svMake = StartKVServer, svKill = KVServer_Kill, svRf = kvRf\<rparr>"

end
