(* ===== verification/KvPartition.thy ===== *)
theory KvPartition
  imports KvConfig
begin

text \<open>
  Network partitions of the testers of the services: the wiring operations as sequences of switches of
  links, the effect of \<open>partition\<close> on every link, and the two groups that \<open>make_partition\<close> chooses.
\<close>

section \<open>Links\<close>

definition gname :: "'s gconfig \<Rightarrow> nat \<Rightarrow> nat \<Rightarrow> string" where
  "gname cfg i j = the (gends cfg ! i) ! j"

definition link :: "'s gconfig \<Rightarrow> nat \<Rightarrow> nat \<Rightarrow> bool" where
  "link cfg i j = enabled (gnet cfg) (NStr (gname cfg i j))"

text \<open>Every server has been started, and no two of their ends have the same name.\<close>

definition gwired :: "'s gconfig \<Rightarrow> bool" where
  "gwired cfg \<longleftrightarrow> length (gends cfg) = gn cfg \<and> list_all (\<lambda>es. es \<noteq> None \<and> length (the es) = gn cfg) (gends cfg)
     \<and> distinct (map (\<lambda>(i, j). gname cfg i j) (List.product [0..<gn cfg] [0..<gn cfg]))"

type_synonym switch = "nat \<times> nat \<times> bool"

definition flip :: "switch list \<Rightarrow> 's gconfig \<Rightarrow> 's gconfig" where
  "flip L cfg = cfg\<lparr>gnet := fold (\<lambda>(i, j, b). Enable (NStr (gname cfg i j)) b) L (gnet cfg)\<rparr>"

lemma flip_fields [simp]: "gends (flip L cfg) = gends cfg" "gn (flip L cfg) = gn cfg" "gservers (flip L cfg) = gservers cfg"
  by (simp_all add: flip_def)

lemma gname_flip [simp]: "gname (flip L cfg) = gname cfg"
  by (simp add: gname_def fun_eq_iff)

lemma gwired_flip [simp]: "gwired (flip L cfg) = gwired cfg"
  by (simp add: gwired_def)

lemma flip_Nil [simp]: "flip [] cfg = cfg"
  by (simp add: flip_def)

lemma flip_flip [simp]: "flip M (flip L cfg) = flip (L @ M) cfg"
  by (simp add: flip_def gname_def)

lemma gname_inject:
  assumes "gwired cfg" and "i < gn cfg" "j < gn cfg" "k < gn cfg" "m < gn cfg"
  shows "gname cfg i j = gname cfg k m \<longleftrightarrow> i = k \<and> j = m"
proof -
  have "inj_on (\<lambda>(i, j). gname cfg i j) ({0..<gn cfg} \<times> {0..<gn cfg})"
    using assms(1) by (simp add: gwired_def distinct_map)
  from inj_on_eq_iff [OF this, of "(i, j)" "(k, m)"] show ?thesis using assms by simp
qed

text \<open>The switches as updates of a relation, and the links after them.\<close>

definition wires :: "switch list \<Rightarrow> (nat \<times> nat \<Rightarrow> bool) \<Rightarrow> nat \<times> nat \<Rightarrow> bool" where
  "wires L f = fold (\<lambda>(a, c, b) f. f((a, c) := b)) L f"

definition in_range :: "nat \<Rightarrow> switch list \<Rightarrow> bool" where
  "in_range n L \<longleftrightarrow> (\<forall>(a, c, b) \<in> set L. a < n \<and> c < n)"

lemma link_flip:
  assumes "gwired cfg" and "in_range (gn cfg) L" and "i < gn cfg" "j < gn cfg"
  shows "link (flip L cfg) i j = wires L (\<lambda>(i, j). link cfg i j) (i, j)"
  using assms(2)
proof (induction L rule: rev_induct)
  case Nil
  then show ?case by (simp add: wires_def)
next
  case (snoc x L)
  obtain a c b where x: "x = (a, c, b)" by (cases x)
  with snoc.prems have "a < gn cfg" "c < gn cfg" and L: "in_range (gn cfg) L" by (auto simp: in_range_def)
  with assms have n: "gname cfg i j = gname cfg a c \<longleftrightarrow> i = a \<and> j = c" by (intro gname_inject)
  have "link (flip (L @ [x]) cfg) i j = (if i = a \<and> j = c then b else link (flip L cfg) i j)"
    using n by (auto simp: link_def flip_def gname_def x Enable_def)
  then show ?case using snoc.IH [OF L] by (auto simp: wires_def x)
qed

lemma wires_const:
  assumes "\<forall>b'. (a, c, b') \<in> set L \<longrightarrow> b' = b" and "(a, c, b) \<in> set L \<or> f (a, c) = b"
  shows "wires L f (a, c) = b"
  using assms
proof (induction L rule: rev_induct)
  case (snoc x L)
  then show ?case by (cases x) (auto simp: wires_def)
qed (simp add: wires_def)

section \<open>The wiring operations as switches\<close>

lemma gend_at_wired: "gwired cfg \<Longrightarrow> i < gn cfg \<Longrightarrow> j < gn cfg \<Longrightarrow> gend_at cfg i j = Inr (NStr (gname cfg i j))"
  by (auto simp: gend_at_def gwired_def gname_def list_all_length split: option.split)

lemma genable_flip: "gwired cfg \<Longrightarrow> i < gn cfg \<Longrightarrow> j < gn cfg \<Longrightarrow> genable i j b cfg = Inr (flip [(i, j, b)] cfg)"
  by (simp add: genable_def gend_at_wired flip_def)

lemma if_named_wired: "gwired cfg \<Longrightarrow> k < gn cfg \<Longrightarrow> if_named k f cfg = f cfg"
  by (auto simp: if_named_def gwired_def list_all_length)

lemma for_each_flip:
  assumes "gwired cfg" and "gn cfg = n"
    and "\<And>x c. x \<in> set xs \<Longrightarrow> gwired c \<Longrightarrow> gn c = n \<Longrightarrow> f x c = Inr (flip (m x) c)"
  shows "for_each f xs cfg = Inr (flip (concat (map m xs)) cfg)"
  using assms
proof (induction xs arbitrary: cfg)
  case (Cons x xs)
  have "f x cfg = Inr (flip (m x) cfg)" using Cons.prems by simp
  moreover have "for_each f xs (flip (m x) cfg) = Inr (flip (concat (map m xs)) (flip (m x) cfg))"
    using Cons.prems by (intro Cons.IH) simp_all
  ultimately show ?case by simp
qed simp

definition switch_all :: "bool \<Rightarrow> nat \<Rightarrow> nat list \<Rightarrow> switch list" where
  "switch_all b i ts = concat (map (\<lambda>t. [(i, t, b)]) ts) @ concat (map (\<lambda>t. [(t, i, b)]) ts)"

lemma set_switch_all: "(a, c, b') \<in> set (switch_all b i ts) \<longleftrightarrow> b' = b \<and> (a = i \<and> c \<in> set ts \<or> a \<in> set ts \<and> c = i)"
  by (auto simp: switch_all_def)

lemma connectUnlocked_flip:
  assumes "gwired cfg" and "i < gn cfg" and "set to \<subseteq> {0..<gn cfg}"
  shows "connectUnlocked i to cfg = Inr (flip (switch_all True i to) cfg)"
proof -
  have "for_each (\<lambda>t. genable i t True) to cfg = Inr (flip (concat (map (\<lambda>t. [(i, t, True)]) to)) cfg)"
    using assms by (intro for_each_flip [where n = "gn cfg"] genable_flip) auto
  moreover have "for_each (\<lambda>t. genable t i True) to c = Inr (flip (concat (map (\<lambda>t. [(t, i, True)]) to)) c)"
    if "gwired c" "gn c = gn cfg" for c :: "'a gconfig"
    using assms that by (intro for_each_flip [where n = "gn cfg"] genable_flip) auto
  ultimately show ?thesis using assms(1) by (simp add: connectUnlocked_def switch_all_def)
qed

lemma disconnectUnlocked_flip:
  assumes "gwired cfg" and "i < gn cfg" and "set from \<subseteq> {0..<gn cfg}" and "length from \<le> gn cfg"
  shows "disconnectUnlocked i from cfg = Inr (flip (switch_all False i from) cfg)"
proof -
  have 1: "for_each (\<lambda>t. if_named i (genable i t False)) from cfg = Inr (flip (concat (map (\<lambda>t. [(i, t, False)]) from)) cfg)"
    using assms by (intro for_each_flip [where n = "gn cfg"]) (auto simp: if_named_wired genable_flip)
  have "for_each (\<lambda>(j, t). if_named j (genable t i False)) (enumerate 0 from) c
      = Inr (flip (concat (map (\<lambda>(j, t). [(t, i, False)]) (enumerate 0 from))) c)"
    if "gwired c" "gn c = gn cfg" for c :: "'a gconfig"
    using assms that
    by (intro for_each_flip [where n = "gn cfg"]) (auto simp: if_named_wired genable_flip in_set_enumerate_eq dest: nth_mem)
  moreover have "map (\<lambda>(j, t). [(t, i, False)]) (enumerate 0 from) = map (\<lambda>t. [(t, i, False)]) from"
    by (rule nth_equalityI) (auto simp: nth_enumerate_eq)
  ultimately show ?thesis using assms(1) 1 by (simp add: disconnectUnlocked_def switch_all_def)
qed

section \<open>Partitions\<close>

definition part_switches :: "nat list \<Rightarrow> nat list \<Rightarrow> switch list" where
  "part_switches p q = concat (map (\<lambda>i. switch_all False i q @ switch_all True i p) p)"

lemma set_part_switches:
  "(a, c, b) \<in> set (part_switches p q) \<longleftrightarrow>
     (if b then a \<in> set p \<and> c \<in> set p else a \<in> set p \<and> c \<in> set q \<or> a \<in> set q \<and> c \<in> set p)"
  by (auto simp: part_switches_def set_switch_all)

lemma partition_half_flip:
  assumes "gwired cfg" and "set p \<subseteq> {0..<gn cfg}" "set q \<subseteq> {0..<gn cfg}" and "length q \<le> gn cfg"
  shows "for_each (\<lambda>i c. andThen (disconnectUnlocked i q c) (connectUnlocked i p)) p cfg = Inr (flip (part_switches p q) cfg)"
  unfolding part_switches_def
proof (rule for_each_flip [where n = "gn cfg"])
  fix i and c :: "'a gconfig"
  assume "i \<in> set p" "gwired c" "gn c = gn cfg"
  with assms have "disconnectUnlocked i q c = Inr (flip (switch_all False i q) c)"
    "connectUnlocked i p (flip (switch_all False i q) c) = Inr (flip (switch_all True i p) (flip (switch_all False i q) c))"
    by (intro disconnectUnlocked_flip connectUnlocked_flip; auto)+
  then show "andThen (disconnectUnlocked i q c) (connectUnlocked i p) = Inr (flip (switch_all False i q @ switch_all True i p) c)" by simp
qed (use assms in auto)

lemma partition_servers_flip:
  assumes "gwired cfg" and "distinct (p1 @ p2)" and "set (p1 @ p2) \<subseteq> {0..<gn cfg}"
  shows "partition_servers p1 p2 cfg = Inr (flip (part_switches p1 p2 @ part_switches p2 p1) cfg)"
proof -
  have "length (p1 @ p2) \<le> gn cfg"
    using assms(2,3) card_mono [OF _ assms(3)] by (metis distinct_card finite_atLeastLessThan card_atLeastLessThan diff_zero)
  then show ?thesis using assms by (simp add: partition_servers_def partition_half_flip)
qed

text \<open>Links within a group are on, links between the groups are off, and the other links are as they were.\<close>

lemma partition_servers_links:
  assumes "gwired cfg" and "distinct (p1 @ p2)" and "set (p1 @ p2) \<subseteq> {0..<gn cfg}"
  obtains cfg' where "partition_servers p1 p2 cfg = Inr cfg'" and "gwired cfg'" and "gn cfg' = gn cfg"
    and "\<And>i j. i \<in> set (p1 @ p2) \<Longrightarrow> j \<in> set (p1 @ p2) \<Longrightarrow> link cfg' i j \<longleftrightarrow> (i \<in> set p1 \<longleftrightarrow> j \<in> set p1)"
    and "\<And>i j. i < gn cfg \<Longrightarrow> j < gn cfg \<Longrightarrow> i \<notin> set (p1 @ p2) \<or> j \<notin> set (p1 @ p2) \<Longrightarrow> link cfg' i j = link cfg i j"
proof -
  let ?L = "part_switches p1 p2 @ part_switches p2 p1"
  have r: "in_range (gn cfg) ?L"
  proof -
    have "\<forall>x \<in> set (p1 @ p2). x < gn cfg" using assms(3) by auto
    then show ?thesis by (auto simp: in_range_def set_part_switches split: if_splits)
  qed
  have l: "link (flip ?L cfg) i j = wires ?L (\<lambda>(i, j). link cfg i j) (i, j)" if "i < gn cfg" "j < gn cfg" for i j
    using link_flip [OF assms(1) r that] .
  show thesis
  proof (rule that [OF partition_servers_flip [OF assms]])
    fix i j assume ij: "i \<in> set (p1 @ p2)" "j \<in> set (p1 @ p2)"
    have "wires ?L (\<lambda>(i, j). link cfg i j) (i, j) = (i \<in> set p1 \<longleftrightarrow> j \<in> set p1)"
      using ij assms(2) by (intro wires_const) (auto simp: set_part_switches)
    moreover have "i < gn cfg" "j < gn cfg" using ij assms(3) by auto
    ultimately show "link (flip ?L cfg) i j = (i \<in> set p1 \<longleftrightarrow> j \<in> set p1)" using l [of i j] by simp
  next
    fix i j assume ij: "i < gn cfg" "j < gn cfg" "i \<notin> set (p1 @ p2) \<or> j \<notin> set (p1 @ p2)"
    then have "wires ?L (\<lambda>(i, j). link cfg i j) (i, j) = link cfg i j"
      by (intro wires_const) (auto simp: set_part_switches split: if_splits)
    then show "link (flip ?L cfg) i j = link cfg i j" using l ij by simp
  qed (use assms in simp_all)
qed

section \<open>The groups of \<open>make_partition\<close>\<close>

text \<open>The two arrays after the servers \<open>ns\<close> have been placed, with the zeros that are left.\<close>

definition placed :: "nat \<Rightarrow> nat \<Rightarrow> nat list \<Rightarrow> nat list \<times> nat list \<times> nat" where
  "placed A B ns = (take A ns @ replicate (A - length ns) 0, drop A ns @ replicate (B - (length ns - A)) 0, length ns)"

lemma place_server_placed:
  assumes "i \<noteq> l" and "length ns < A + B"
  shows "place_server l i (placed A B ns) = Inr (placed A B (ns @ [i]))"
proof (cases "length ns < A")
  case True
  then have "A - length ns = Suc (A - Suc (length ns))" by simp
  with True show ?thesis using assms by (simp add: place_server_def placed_def list_update_append)
next
  case False
  then have "B - (length ns - A) = Suc (B - Suc (length ns - A))" using assms(2) by simp
  with False show ?thesis using assms by (simp add: place_server_def placed_def list_update_append Suc_diff_le)
qed

lemma place_all:
  "length (filter (\<lambda>i. i \<noteq> l) xs) \<le> A + B \<Longrightarrow>
     for_each (place_server l) xs (placed A B []) = Inr (placed A B (filter (\<lambda>i. i \<noteq> l) xs))"
proof (induction xs rule: rev_induct)
  case (snoc x xs)
  then have "for_each (place_server l) xs (placed A B []) = Inr (placed A B (filter (\<lambda>i. i \<noteq> l) xs))" by simp
  moreover have "place_server l x (placed A B ns) = Inr (placed A B ns)" if "x = l" for ns
    using that by (simp add: place_server_def placed_def)
  ultimately show ?case using snoc.prems place_server_placed by (cases "x = l") (simp_all add: for_each_snoc)
qed simp

lemma others_count: "l < n \<Longrightarrow> length (filter (\<lambda>i. i \<noteq> l) [0..<n]) = n - 1"
proof -
  assume "l < n"
  have "length (filter (\<lambda>i. i \<noteq> l) [0..<n]) = card ({0..<n} - {l})"
    by (subst distinct_card [symmetric]) (auto intro!: arg_cong [where f = card])
  then show ?thesis using \<open>l < n\<close> by simp
qed

lemma split_servers_placed:
  assumes "l < n" and "1 < n"
  shows "split_servers n l = (let ns = filter (\<lambda>i. i \<noteq> l) [0..<n]; A = n div 2 + 1; p2 = drop A ns @ replicate (n div 2 - (n - 1 - A)) 0 in
    Inr (take A ns @ replicate (A - (n - 1)) 0, p2[length p2 - 1 := l]))"
proof -
  let ?ns = "filter (\<lambda>i. i \<noteq> l) [0..<n]"
  have "for_each (place_server l) [0..<n] (placed (n div 2 + 1) (n div 2) []) = Inr (placed (n div 2 + 1) (n div 2) ?ns)"
    using others_count [OF assms(1)] by (intro place_all) linarith
  then show ?thesis using others_count [OF assms(1)] assms by (auto simp: split_servers_def placed_def Let_def)
qed

text \<open>With an odd number of servers the two groups are a partition, and the leader is in the smaller one.\<close>

lemma split_servers_odd:
  assumes "l < n" and "1 < n" and "odd n"
  obtains p1 p2 where "split_servers n l = Inr (p1, p2)" and "distinct (p1 @ p2)" and "set (p1 @ p2) = {0..<n}"
    and "length p1 = n div 2 + 1" and "length p2 = n div 2" and "l \<in> set p2"
proof -
  let ?ns = "filter (\<lambda>i. i \<noteq> l) [0..<n]" and ?A = "n div 2 + 1"
  from assms obtain k where k: "n = 2 * k + 1" "0 < k" by (auto elim: oddE)
  have "split_servers n l = Inr (take ?A ?ns, drop ?A ?ns @ [l])"
    using split_servers_placed [OF assms(1,2)] others_count [OF assms(1)] k by (simp add: Let_def list_update_append)
  then show thesis
  proof (rule that)
    have e: "take ?A ?ns @ drop ?A ?ns @ [l] = ?ns @ [l]" by (metis append_assoc append_take_drop_id)
    show "distinct (take ?A ?ns @ drop ?A ?ns @ [l])" unfolding e by simp
    show "set (take ?A ?ns @ drop ?A ?ns @ [l]) = {0..<n}" unfolding e using assms(1) by auto
    have "?A \<le> n - 1" "n - 1 - ?A + 1 = n div 2" using k by simp_all
    then show "length (take ?A ?ns) = ?A" "length (drop ?A ?ns @ [l]) = n div 2"
      unfolding length_append length_take length_drop others_count [OF assms(1)] by simp_all
  qed simp
qed

text \<open>With an even number of servers a zero that was never overwritten makes some server appear twice.\<close>

lemma split_servers_even:
  assumes "l < n" and "even n"
  obtains p1 p2 where "split_servers n l = Inr (p1, p2)" and "\<not> distinct (p1 @ p2)"
proof -
  let ?ns = "filter (\<lambda>i. i \<noteq> l) [0..<n]" and ?A = "n div 2 + 1"
  from assms obtain k where k: "n = 2 * k" "0 < k" by (auto elim: evenE)
  have "\<exists>p1 p2. split_servers n l = Inr (p1, p2) \<and> p1 @ p2 = ?ns @ [0, l]"
  proof (cases "k = 1")
    case True
    then show ?thesis using split_servers_placed [OF assms(1)] others_count [OF assms(1)] k by (simp add: Let_def)
  next
    case False
    with k obtain m where m: "n div 2 = m + 2" "n = 2 * m + 4" by (intro that [of "k - 2"]) auto
    have u: "(xs @ replicate 2 0)[length (xs @ replicate 2 0) - 1 := l] = xs @ [0, l]" for xs :: "nat list"
      by (simp add: list_update_append numeral_2_eq_2)
    have "n div 2 - (n - 1 - ?A) = 2" "?A - (n - 1) = 0" "1 < n" using m by simp_all
    then have "split_servers n l = Inr (take ?A ?ns, drop ?A ?ns @ [0, l])"
      unfolding split_servers_placed [OF assms(1) \<open>1 < n\<close>] Let_def by (simp only: u replicate_0 append_Nil2)
    moreover have "take ?A ?ns @ drop ?A ?ns @ [0, l] = ?ns @ [0, l]" by (metis append_assoc append_take_drop_id)
    ultimately show ?thesis by blast
  qed
  then obtain p1 p2 where p: "split_servers n l = Inr (p1, p2)" "p1 @ p2 = ?ns @ [0, l]" by blast
  have "0 \<in> set ?ns \<or> l = 0" using assms(1) by auto
  then have "\<not> distinct (?ns @ [0, l])" unfolding distinct_append by fastforce
  then show thesis unfolding p(2) [symmetric] by (rule that [OF p(1)])
qed

section \<open>A configuration is wired\<close>

lemma make_ends_named:
  assumes "for_each (\<lambda>j c. andThen (MakeEnd (NStr (names j)) (gnet c)) (\<lambda>rn. Inr (c\<lparr>gnet := Connect (NStr (names j)) (NInt (int j)) rn\<rparr>))) xs cfg = Inr cfg'"
  shows "distinct (map names xs) \<and> (\<forall>j \<in> set xs. NStr (names j) \<notin> set (ends (gnet cfg)))
    \<and> set (ends (gnet cfg')) = set (ends (gnet cfg)) \<union> (\<lambda>j. NStr (names j)) ` set xs \<and> cfg' = cfg\<lparr>gnet := gnet cfg'\<rparr>"
  using assms
proof (induction xs arbitrary: cfg)
  case (Cons x xs)
  let ?c = "cfg\<lparr>gnet := Connect (NStr (names x)) (NInt (int x)) (projr (MakeEnd (NStr (names x)) (gnet cfg)))\<rparr>"
  from Cons.prems have new: "NStr (names x) \<notin> set (ends (gnet cfg))" by (auto simp: MakeEnd_def split: if_splits)
  with Cons.prems have "for_each (\<lambda>j c. andThen (MakeEnd (NStr (names j)) (gnet c)) (\<lambda>rn. Inr (c\<lparr>gnet := Connect (NStr (names j)) (NInt (int j)) rn\<rparr>))) xs ?c = Inr cfg'"
    by (simp add: MakeEnd_def)
  from Cons.IH [OF this] new show ?case by (simp add: MakeEnd_def Connect_def) (metis image_iff gconfig.unfold_congs(1))
qed simp

text \<open>The servers \<open>0\<close> to \<open>k - 1\<close> have been started, with ends of the given names.\<close>

definition started :: "(nat \<Rightarrow> nat \<Rightarrow> string) \<Rightarrow> nat \<Rightarrow> nat \<Rightarrow> 's gconfig \<Rightarrow> bool" where
  "started names n k cfg \<longleftrightarrow> gn cfg = n \<and> length (gends cfg) = n \<and> length (gservers cfg) = n
     \<and> (\<forall>i < k. gends cfg ! i = Some (map (names i) [0..<n]) \<and> gservers cfg ! i \<noteq> None \<and> (\<forall>j < n. NStr (names i j) \<in> set (ends (gnet cfg))))
     \<and> inj_on (\<lambda>(i, j). names i j) ({0..<k} \<times> {0..<n})"

lemma StartServer_started:
  assumes "started names n k cfg" and "StartServer S k (names k) cfg = Inr cfg'"
  shows "started names n (Suc k) cfg'"
proof -
  from assms have "k < n" by (auto simp: StartServer_def started_def split: if_splits)
  let ?c = "cfg\<lparr>gends := (gends cfg)[k := Some (map (names k) [0..<gn cfg])]\<rparr>"
  from assms \<open>k < n\<close> obtain c where c: "make_ends (names k) ?c = Inr c"
    and f: "gends cfg' = gends c" "gn cfg' = gn c" "ends (gnet cfg') = ends (gnet c)"
    and s: "gservers cfg' = (gservers c)[k := Some (gonext c)]"
    by (auto simp: StartServer_def started_def andThen_Inr Let_def gnew_persister_def AddServer_def)
  from make_ends_named [OF c [unfolded make_ends_def]]
  have d: "inj_on (names k) {0..<n}" "\<forall>j < n. NStr (names k j) \<notin> set (ends (gnet cfg))"
    and e: "set (ends (gnet c)) = set (ends (gnet cfg)) \<union> (\<lambda>j. NStr (names k j)) ` {0..<n}" and g: "c = ?c\<lparr>gnet := gnet c\<rparr>"
    using assms(1) by (auto simp: distinct_map started_def)
  have h: "gends c = gends ?c" "gn c = gn cfg" "gservers c = gservers cfg" by (subst g; simp)+
  have o: "names i j \<noteq> names k j'" if "i < k" "j < n" "j' < n" for i j j'
    using assms(1) d(2) that unfolding started_def by metis
  have "inj_on (\<lambda>(i, j). names i j) ({0..<k} \<times> {0..<n})" using assms(1) by (simp add: started_def)
  moreover have "{0..<Suc k} \<times> {0..<n} = {0..<k} \<times> {0..<n} \<union> {k} \<times> {0..<n}" by auto
  moreover have "inj_on (\<lambda>(i, j). names i j) ({k} \<times> {0..<n})" by (rule inj_onI) (use d(1) in \<open>fastforce dest: inj_onD\<close>)
  ultimately have i: "inj_on (\<lambda>(i, j). names i j) ({0..<Suc k} \<times> {0..<n})"
    using o by (simp only: inj_on_Un) fastforce
  have "gends cfg' ! i = Some (map (names i) [0..<n]) \<and> gservers cfg' ! i \<noteq> None \<and> (\<forall>j < n. NStr (names i j) \<in> set (ends (gnet cfg')))"
    if "i < Suc k" for i
    using that assms(1) \<open>k < n\<close> e by (cases "i = k") (auto simp: started_def f s h)
  then show ?thesis using assms(1) i unfolding started_def by (simp add: f s h)
qed

lemma started_all:
  "for_each (\<lambda>i. StartServer S i (names i)) [0..<k] (gempty n mx now z) = Inr cfg \<Longrightarrow> started names n k cfg"
proof (induction k arbitrary: cfg)
  case (Suc k)
  then show ?case by (auto simp: for_each_snoc andThen_Inr intro: StartServer_started)
qed (simp add: started_def gempty_def)

text \<open>With names that are all different no end exists already, so that every server starts.\<close>

lemma make_ends_total:
  assumes "distinct (map names xs)" and "\<forall>j \<in> set xs. NStr (names j) \<notin> set (ends (gnet cfg))"
  shows "\<exists>cfg'. for_each (\<lambda>j c. andThen (MakeEnd (NStr (names j)) (gnet c)) (\<lambda>rn. Inr (c\<lparr>gnet := Connect (NStr (names j)) (NInt (int j)) rn\<rparr>))) xs cfg = Inr cfg'"
  using assms
proof (induction xs arbitrary: cfg)
  case (Cons x xs)
  let ?c = "cfg\<lparr>gnet := Connect (NStr (names x)) (NInt (int x)) (projr (MakeEnd (NStr (names x)) (gnet cfg)))\<rparr>"
  have "\<forall>j \<in> set xs. NStr (names j) \<notin> set (ends (gnet ?c))" using Cons.prems by (auto simp: MakeEnd_def Connect_def) (metis imageI)
  with Cons show ?case by (simp add: MakeEnd_def)
qed simp

lemma StartServer_total:
  assumes "k < gn cfg" and "distinct (map names [0..<gn cfg])" and "\<forall>j < gn cfg. NStr (names j) \<notin> set (ends (gnet cfg))"
  obtains cfg' where "StartServer S k names cfg = Inr cfg'"
    and "set (ends (gnet cfg')) = set (ends (gnet cfg)) \<union> (\<lambda>j. NStr (names j)) ` {0..<gn cfg}" and "gn cfg' = gn cfg"
proof -
  let ?c = "cfg\<lparr>gends := (gends cfg)[k := Some (map names [0..<gn cfg])]\<rparr>"
  from make_ends_total [of names "[0..<gn cfg]" ?c] assms obtain c where c: "make_ends names ?c = Inr c"
    by (auto simp: make_ends_def)
  from make_ends_named [OF c [unfolded make_ends_def]]
  have "set (ends (gnet c)) = set (ends (gnet cfg)) \<union> (\<lambda>j. NStr (names j)) ` {0..<gn cfg}" and g: "c = ?c\<lparr>gnet := gnet c\<rparr>" by simp_all
  moreover have "gn c = gn cfg" by (subst g) simp
  moreover have "\<exists>cfg'. StartServer S k names cfg = Inr cfg' \<and> ends (gnet cfg') = ends (gnet c) \<and> gn cfg' = gn c"
    using c assms(1) by (simp add: StartServer_def Let_def gnew_persister_def AddServer_def)
  ultimately show thesis using that by metis
qed

lemma start_all_total:
  assumes "inj_on (\<lambda>(i, j). names i j) ({0..<n} \<times> {0..<n})" and "k \<le> n"
  shows "\<exists>cfg. for_each (\<lambda>i. StartServer S i (names i)) [0..<k] (gempty n mx now z) = Inr cfg \<and> gn cfg = n
    \<and> set (ends (gnet cfg)) = (\<Union>i \<in> {0..<k}. (\<lambda>j. NStr (names i j)) ` {0..<n})"
  using assms(2)
proof (induction k)
  case (Suc k)
  then obtain cfg where cfg: "for_each (\<lambda>i. StartServer S i (names i)) [0..<k] (gempty n mx now z) = Inr cfg" "gn cfg = n"
    "set (ends (gnet cfg)) = (\<Union>i \<in> {0..<k}. (\<lambda>j. NStr (names i j)) ` {0..<n})" by auto
  have ne: "names k j \<noteq> names i j'" if "i < k" "j < n" "j' < n" for i j j'
    using inj_onD [OF assms(1), of "(k, j)" "(i, j')"] that Suc.prems by auto
  have "inj_on (names k) {0..<n}"
  proof (rule inj_onI)
    fix j j' assume "j \<in> {0..<n}" "j' \<in> {0..<n}" "names k j = names k j'"
    then show "j = j'" using inj_onD [OF assms(1), of "(k, j)" "(k, j')"] Suc.prems by simp
  qed
  then have "distinct (map (names k) [0..<gn cfg])" by (simp add: cfg(2) distinct_map)
  moreover have "\<forall>j < gn cfg. NStr (names k j) \<notin> set (ends (gnet cfg))" unfolding cfg(2,3) using ne by fastforce
  moreover have "k < gn cfg" using Suc.prems cfg(2) by simp
  ultimately obtain cfg' where "StartServer S k (names k) cfg = Inr cfg'"
    "set (ends (gnet cfg')) = set (ends (gnet cfg)) \<union> (\<lambda>j. NStr (names k j)) ` {0..<n}" "gn cfg' = n"
    using StartServer_total [of k cfg "names k" S] unfolding cfg(2) by metis
  moreover have "{0..<Suc k} = insert k {0..<k}" by auto
  ultimately show ?case using cfg(1,3) by (auto simp: for_each_snoc)
qed (simp add: gempty_def MakeNetwork_def)

lemma started_gwired: "started names n n cfg \<Longrightarrow> gwired cfg \<and> gn cfg = n \<and> (\<forall>i < n. gservers cfg ! i \<noteq> None)"
proof -
  assume s: "started names n n cfg"
  have "map (\<lambda>(i, j). gname cfg i j) (List.product [0..<n] [0..<n]) = map (\<lambda>(i, j). names i j) (List.product [0..<n] [0..<n])"
    using s by (auto simp: started_def gname_def)
  moreover have "distinct (map (\<lambda>(i, j). names i j) (List.product [0..<n] [0..<n]))"
    using s by (simp add: started_def distinct_map distinct_product)
  ultimately have "distinct (map (\<lambda>(i, j). gname cfg i j) (List.product [0..<n] [0..<n]))" by (rule ssubst)
  then show ?thesis using s unfolding started_def gwired_def by (simp add: list_all_length)
qed

lemma ConnectAll_flip: "gwired cfg \<Longrightarrow> ConnectAll cfg = Inr (flip (concat (map (\<lambda>i. switch_all True i [0..<gn cfg]) [0..<gn cfg])) cfg)"
  unfolding ConnectAll_def by (rule for_each_flip [where n = "gn cfg"]) (auto simp: All_servers_def intro!: connectUnlocked_flip)

lemma link_all_on:
  assumes "gwired c" and "i < gn c" "j < gn c"
  shows "link (flip (concat (map (\<lambda>i. switch_all True i [0..<gn c]) [0..<gn c])) c) i j"
proof -
  define L where "L = concat (map (\<lambda>i. switch_all True i [0..<gn c]) [0..<gn c])"
  have L: "x \<in> set L \<longleftrightarrow> (\<exists>k < gn c. x \<in> set (switch_all True k [0..<gn c]))" for x by (auto simp: L_def)
  have "in_range (gn c) L" by (auto simp: in_range_def L set_switch_all)
  moreover have "(i, j, True) \<in> set L" using assms by (auto simp: L set_switch_all)
  moreover have "\<forall>b. (i, j, b) \<in> set L \<longrightarrow> b = True" by (auto simp: L set_switch_all)
  ultimately show ?thesis unfolding L_def [symmetric] using assms wires_const [of i j L True] by (simp add: link_flip)
qed

lemma make_config_gwired:
  assumes "gmake_config S n unreliable mx names now z = Inr cfg"
  shows "gwired cfg" and "gn cfg = n" and "\<forall>i < n. gservers cfg ! i \<noteq> None" and "\<forall>i < n. \<forall>j < n. link cfg i j"
proof -
  from assms obtain c where c: "for_each (\<lambda>i. StartServer S i (names i)) [0..<n] (gempty n mx now z) = Inr c"
    by (auto simp: gmake_config_def andThen_Inr)
  note w = started_gwired [OF started_all [OF c]]
  let ?L = "concat (map (\<lambda>i. switch_all True i [0..<gn c]) [0..<gn c])"
  from assms c w have cfg: "cfg = (flip ?L c)\<lparr>gnet := Reliable (\<not> unreliable) (gnet (flip ?L c))\<rparr>"
    by (simp add: gmake_config_def ConnectAll_flip)
  have same: "gends cfg = gends c" "gn cfg = gn c" "gservers cfg = gservers c" "\<And>i j. link cfg i j = link (flip ?L c) i j"
    by (simp_all add: cfg link_def gname_def Reliable_def)
  have n: "gname cfg = gname c" by (simp add: gname_def same(1) fun_eq_iff)
  show "gwired cfg" "gn cfg = n" "\<forall>i < n. gservers cfg ! i \<noteq> None"
    using w unfolding gwired_def same(1-3) n by blast+
  show "\<forall>i < n. \<forall>j < n. link cfg i j"
  proof (intro allI impI)
    fix i j assume "i < n" "j < n"
    then have ij: "i < gn c" "j < gn c" using w by simp_all
    then have "link (flip ?L c) i j" using w by (intro link_all_on) simp_all
    then show "link cfg i j" unfolding same(4) .
  qed
qed

lemma make_config_total:
  assumes "inj_on (\<lambda>(i, j). names i j) ({0..<n} \<times> {0..<n})"
  obtains cfg where "gmake_config S n unreliable mx names now z = Inr cfg"
proof -
  from start_all_total [OF assms order.refl] obtain cfg where
    c: "for_each (\<lambda>i. StartServer S i (names i)) [0..<n] (gempty n mx now z) = Inr cfg" by metis
  with started_gwired [OF started_all [OF c]] show thesis by (intro that) (simp add: gmake_config_def ConnectAll_flip)
qed

section \<open>Isolating the leader\<close>

lemma Leader_loop_running:
  "\<forall>i \<in> set xs. gservers cfg ! i \<noteq> None \<Longrightarrow>
     Leader_loop gs cfg xs = Inr (case find gs xs of None \<Rightarrow> (False, 0) | Some i \<Rightarrow> (True, i))"
  by (induction xs) auto

lemma Leader_running:
  assumes "\<forall>i < gn cfg. gservers cfg ! i \<noteq> None" and "0 < gn cfg"
  obtains b l where "Leader gs cfg = Inr (b, l)" and "l < gn cfg" and "b \<longleftrightarrow> (\<exists>i < gn cfg. gs i)" and "b \<longrightarrow> gs l"
proof -
  have L: "Leader gs cfg = Inr (case find gs [0..<gn cfg] of None \<Rightarrow> (False, 0) | Some i \<Rightarrow> (True, i))"
    unfolding Leader_def using assms(1) by (intro Leader_loop_running) simp
  show thesis
  proof (cases "find gs [0..<gn cfg]")
    case None
    then have "\<forall>i < gn cfg. \<not> gs i" by (simp add: find_None_iff)
    then show thesis using that [of False 0] L None assms(2) by simp
  next
    case (Some i)
    then have "gs i" "i < gn cfg" by (auto simp: find_Some_iff)
    then show thesis using that [of True i] L Some by auto
  qed
qed

text \<open>
  (C37) On a configuration whose servers are all running, with an odd number of at least three servers,
  \<open>make_partition\<close> followed by \<open>partition\<close> isolates the leader in a minority: the two groups are
  disjoint and cover the servers, the first is a majority, the second holds the server that \<open>Leader\<close>
  reports, no step panics, and afterwards a link is on exactly when its two servers are in the same group.
\<close>

theorem partition_isolates_leader:
  assumes "gwired cfg" and "odd (gn cfg)" and "1 < gn cfg" and "\<forall>i < gn cfg. gservers cfg ! i \<noteq> None"
  shows "\<exists>b l p1 p2 cfg'. Leader gs cfg = Inr (b, l) \<and> b = (\<exists>i < gn cfg. gs i) \<and> (b \<longrightarrow> gs l)
    \<and> make_partition gs cfg = Inr (p1, p2) \<and> partition_servers p1 p2 cfg = Inr cfg'
    \<and> distinct (p1 @ p2) \<and> set (p1 @ p2) = {0..<gn cfg} \<and> gn cfg < 2 * length p1 \<and> l \<in> set p2
    \<and> gwired cfg' \<and> (\<forall>i < gn cfg. \<forall>j < gn cfg. link cfg' i j \<longleftrightarrow> (i \<in> set p1 \<longleftrightarrow> j \<in> set p1))"
proof -
  have "0 < gn cfg" using assms(3) by simp
  from Leader_running [OF assms(4) this, of gs] obtain b l where l: "Leader gs cfg = Inr (b, l)" "l < gn cfg"
    "b = (\<exists>i < gn cfg. gs i)" "b \<longrightarrow> gs l" .
  from split_servers_odd [OF l(2) assms(3,2)] obtain p1 p2 where p: "split_servers (gn cfg) l = Inr (p1, p2)"
    "distinct (p1 @ p2)" "set (p1 @ p2) = {0..<gn cfg}" "length p1 = gn cfg div 2 + 1" "l \<in> set p2" .
  have "set (p1 @ p2) \<subseteq> {0..<gn cfg}" using p(3) by simp
  from partition_servers_links [OF assms(1) p(2) this] obtain cfg' where c: "partition_servers p1 p2 cfg = Inr cfg'" "gwired cfg'"
    "\<And>i j. i \<in> set (p1 @ p2) \<Longrightarrow> j \<in> set (p1 @ p2) \<Longrightarrow> link cfg' i j \<longleftrightarrow> (i \<in> set p1 \<longleftrightarrow> j \<in> set p1)" by metis
  have "\<forall>i < gn cfg. \<forall>j < gn cfg. link cfg' i j \<longleftrightarrow> (i \<in> set p1 \<longleftrightarrow> j \<in> set p1)" using c(3) unfolding p(3) by simp
  moreover have "make_partition gs cfg = Inr (p1, p2)" by (simp add: make_partition_def l(1) p(1))
  moreover have "gn cfg < 2 * length p1" using p(4) by simp
  moreover note l(1,3,4) p(2,3,5) c(1,2)
  ultimately show ?thesis
    by (intro exI [of _ b] exI [of _ l] exI [of _ p1] exI [of _ p2] exI [of _ cfg'] conjI)
qed

theorem partition_isolates_leader_witness:
  "case gmake_config kv_ops 3 False (- 1) (\<lambda>i j. replicate (3 * i + j) CHR ''x'') 0 (StartKVServer 0 0 0) of Inl _ \<Rightarrow> False
   | Inr cfg \<Rightarrow> \<exists>l p1 p2 cfg'. Leader (\<lambda>i. i = 1) cfg = Inr (True, l) \<and> make_partition (\<lambda>i. i = 1) cfg = Inr (p1, p2)
      \<and> partition_servers p1 p2 cfg = Inr cfg' \<and> l \<in> set p2 \<and> (\<forall>i < 3. \<forall>j < 3. link cfg' i j \<longleftrightarrow> (i \<in> set p1 \<longleftrightarrow> j \<in> set p1))"
proof -
  let ?r = "gmake_config kv_ops 3 False (- 1) (\<lambda>i j. replicate (3 * i + j) CHR ''x'') 0 (StartKVServer 0 0 0)"
  have "inj_on (\<lambda>(i, j). replicate (3 * i + j) CHR ''x'') ({0..<3} \<times> {0..<3})"
    by (rule inj_onI) (auto dest!: arg_cong [where f = length], presburger)
  from make_config_total [OF this] obtain cfg where r: "?r = Inr cfg" .
  note w = make_config_gwired [OF r]
  have "\<exists>i < (3::nat). i = 1" by (intro exI [of _ 1]) simp
  then have "\<exists>l p1 p2 cfg'. Leader (\<lambda>i. i = 1) cfg = Inr (True, l) \<and> make_partition (\<lambda>i. i = 1) cfg = Inr (p1, p2)
      \<and> partition_servers p1 p2 cfg = Inr cfg' \<and> l \<in> set p2 \<and> (\<forall>i < 3. \<forall>j < 3. link cfg' i j \<longleftrightarrow> (i \<in> set p1 \<longleftrightarrow> j \<in> set p1))"
    using partition_isolates_leader [OF w(1), of "\<lambda>i. i = 1", unfolded w(2)] w(3) by force
  then show ?thesis unfolding r by simp
qed

end
