(* ===== verification/ShardCtrler.thy ===== *)
theory ShardCtrler
  imports KvPartition
begin

text \<open>
  The shard controller, \<open>shardctrler/\<close>: configurations, the clerk and its retry loops, the server, and
  its tester, which has the functions of the key/value tester on another service. A call of a clerk is an
  oracle: \<open>call k srv a\<close> is the reply to the \<open>k\<close>-th call, \<open>None\<close> when \<open>Call\<close> returns false. The loops have
  no bound, so that they are partial functions whose value \<open>None\<close> means that the operation never returns.
\<close>

section \<open>Configurations and messages\<close>

definition NShards :: nat where
  "NShards = 10"

text \<open>A Go map as an association list; a nil map and an empty map have the same lookups.\<close>

record Config =
  Num :: int
  Shards :: "int list"
  Groups :: "(int \<times> string list) list"

definition zero_Config :: Config where
  "zero_Config = \<lparr>Num = 0, Shards = replicate NShards 0, Groups = []\<rparr>"

record JoinArgs =
  jServers :: "(int \<times> string list) list"

record LeaveArgs =
  lGIDs :: "int list"

record MoveArgs =
  mShard :: int
  mGID :: int

record QueryArgs =
  qNum :: int

text \<open>The replies of \<open>Join\<close>, \<open>Leave\<close> and \<open>Move\<close> have the same fields; that of \<open>Query\<close> has the configuration too.\<close>

record CtrlerReply =
  WrongLeader :: bool
  replyErr :: string

record QueryReply = CtrlerReply +
  replyConfig :: Config

definition zero_CtrlerReply :: CtrlerReply where
  "zero_CtrlerReply = \<lparr>WrongLeader = False, replyErr = []\<rparr>"

definition zero_QueryReply :: QueryReply where
  "zero_QueryReply = \<lparr>WrongLeader = False, replyErr = [], replyConfig = zero_Config\<rparr>"

section \<open>The clerk\<close>

record CtrlerClerk =
  ctServers :: "name list"

definition MakeCtrlerClerk :: "name list \<Rightarrow> CtrlerClerk" where
  "MakeCtrlerClerk handles = \<lparr>ctServers = handles\<rparr>"

text \<open>The loop over the servers: the first reply that is no \<open>WrongLeader\<close>, or the number of the next call.\<close>

fun ask_round :: "(nat \<Rightarrow> name \<Rightarrow> ('r CtrlerReply_scheme) option) \<Rightarrow> name list \<Rightarrow> nat \<Rightarrow> nat + ('r CtrlerReply_scheme \<times> nat)" where
  "ask_round call [] k = Inl k"
| "ask_round call (srv # hs) k = (case call k srv of
     None \<Rightarrow> ask_round call hs (k + 1)
   | Some re \<Rightarrow> if WrongLeader re = False then Inr (re, k + 1) else ask_round call hs (k + 1))"

text \<open>The outer loop; after a round the clerk sleeps.\<close>

partial_function (option) ask_servers :: "(nat \<Rightarrow> name \<Rightarrow> ('r CtrlerReply_scheme) option) \<Rightarrow> name list \<Rightarrow> nat \<Rightarrow> ('r CtrlerReply_scheme \<times> nat) option" where
  "ask_servers call hs k = (case ask_round call hs k of Inr r \<Rightarrow> Some r | Inl k' \<Rightarrow> ask_servers call hs k')"

definition Clerk_Query :: "(nat \<Rightarrow> name \<Rightarrow> QueryArgs \<Rightarrow> QueryReply option) \<Rightarrow> CtrlerClerk \<Rightarrow> int \<Rightarrow> nat \<Rightarrow> (Config \<times> nat) option" where
  "Clerk_Query call ck num k = map_option (\<lambda>(re, k'). (replyConfig re, k')) (ask_servers (\<lambda>k srv. call k srv \<lparr>qNum = num\<rparr>) (ctServers ck) k)"

definition Clerk_Join :: "(nat \<Rightarrow> name \<Rightarrow> JoinArgs \<Rightarrow> CtrlerReply option) \<Rightarrow> CtrlerClerk \<Rightarrow> (int \<times> string list) list \<Rightarrow> nat \<Rightarrow> nat option" where
  "Clerk_Join call ck hs k = map_option snd (ask_servers (\<lambda>k srv. call k srv \<lparr>jServers = hs\<rparr>) (ctServers ck) k)"

definition Clerk_Leave :: "(nat \<Rightarrow> name \<Rightarrow> LeaveArgs \<Rightarrow> CtrlerReply option) \<Rightarrow> CtrlerClerk \<Rightarrow> int list \<Rightarrow> nat \<Rightarrow> nat option" where
  "Clerk_Leave call ck gids k = map_option snd (ask_servers (\<lambda>k srv. call k srv \<lparr>lGIDs = gids\<rparr>) (ctServers ck) k)"

definition Clerk_Move :: "(nat \<Rightarrow> name \<Rightarrow> MoveArgs \<Rightarrow> CtrlerReply option) \<Rightarrow> CtrlerClerk \<Rightarrow> int \<Rightarrow> int \<Rightarrow> nat \<Rightarrow> nat option" where
  "Clerk_Move call ck shard gid k = map_option snd (ask_servers (\<lambda>k srv. call k srv \<lparr>mShard = shard, mGID = gid\<rparr>) (ctServers ck) k)"

section \<open>The server\<close>

record ShardCtrler =
  scMe :: nat
  scRf :: nat
  scConfigs :: "Config list"

definition ShardCtrler_Join :: "ShardCtrler \<Rightarrow> JoinArgs \<Rightarrow> CtrlerReply \<Rightarrow> ShardCtrler \<times> CtrlerReply" where
  "ShardCtrler_Join sc a r = (sc, r)"

definition ShardCtrler_Leave :: "ShardCtrler \<Rightarrow> LeaveArgs \<Rightarrow> CtrlerReply \<Rightarrow> ShardCtrler \<times> CtrlerReply" where
  "ShardCtrler_Leave sc a r = (sc, r)"

definition ShardCtrler_Move :: "ShardCtrler \<Rightarrow> MoveArgs \<Rightarrow> CtrlerReply \<Rightarrow> ShardCtrler \<times> CtrlerReply" where
  "ShardCtrler_Move sc a r = (sc, r)"

definition ShardCtrler_Query :: "ShardCtrler \<Rightarrow> QueryArgs \<Rightarrow> QueryReply \<Rightarrow> ShardCtrler \<times> QueryReply" where
  "ShardCtrler_Query sc a r = (sc, r)"

text \<open>\<open>Kill\<close> only kills the peer, which the tester does on its heap.\<close>

definition ShardCtrler_Kill :: "ShardCtrler \<Rightarrow> ShardCtrler" where
  "ShardCtrler_Kill sc = sc"

definition ShardCtrler_Raft :: "ShardCtrler \<Rightarrow> nat" where
  "ShardCtrler_Raft sc = scRf sc"

definition sc_StartServer :: "nat \<Rightarrow> nat \<Rightarrow> ShardCtrler" where
  "sc_StartServer i rf = \<lparr>scMe = i, scRf = rf, scConfigs = [zero_Config\<lparr>Groups := []\<rparr>]\<rparr>"

definition sc_ops :: "ShardCtrler service_ops" where
  "sc_ops = \<lparr>svMake = (\<lambda>i rf _. sc_StartServer i rf), svKill = ShardCtrler_Kill, svRf = ShardCtrler_Raft\<rparr>"

section \<open>The tester\<close>

text \<open>\<open>shardctrler/config.go\<close> has the text of \<open>kvraft/config.go\<close> for the functions that are instances here.\<close>

type_synonym sc_config = "ShardCtrler gconfig"

definition sc_random_handles :: "(nat \<Rightarrow> nat) \<Rightarrow> name list \<Rightarrow> name list" where
  "sc_random_handles = random_handles"

definition sc_checkTimeout :: "bool \<Rightarrow> int \<Rightarrow> sc_config \<Rightarrow> fatal + sc_config" where
  "sc_checkTimeout = gcheckTimeout"

definition sc_cleanup :: "bool \<Rightarrow> int \<Rightarrow> sc_config \<Rightarrow> fatal + sc_config" where
  "sc_cleanup = gcleanup sc_ops"

definition sc_LogSize :: "sc_config \<Rightarrow> fatal + nat" where
  "sc_LogSize = gLogSize"

definition sc_connectUnlocked :: "nat \<Rightarrow> nat list \<Rightarrow> sc_config \<Rightarrow> fatal + sc_config" where
  "sc_connectUnlocked = connectUnlocked"

definition sc_disconnectUnlocked :: "nat \<Rightarrow> nat list \<Rightarrow> sc_config \<Rightarrow> fatal + sc_config" where
  "sc_disconnectUnlocked = disconnectUnlocked"

definition sc_ConnectAll :: "sc_config \<Rightarrow> fatal + sc_config" where
  "sc_ConnectAll = ConnectAll"

definition sc_partition :: "nat list \<Rightarrow> nat list \<Rightarrow> sc_config \<Rightarrow> fatal + sc_config" where
  "sc_partition = partition_servers"

definition sc_makeClient :: "(nat \<Rightarrow> string) \<Rightarrow> (nat \<Rightarrow> nat) \<Rightarrow> nat list \<Rightarrow> sc_config \<Rightarrow> fatal + sc_config \<times> nat" where
  "sc_makeClient = makeClient"

definition sc_deleteClient :: "nat \<Rightarrow> sc_config \<Rightarrow> sc_config" where
  "sc_deleteClient = deleteClient"

definition sc_ConnectClientUnlocked :: "nat \<Rightarrow> nat list \<Rightarrow> sc_config \<Rightarrow> fatal + sc_config" where
  "sc_ConnectClientUnlocked = ConnectClientUnlocked"

definition sc_DisconnectClientUnlocked :: "nat \<Rightarrow> nat list \<Rightarrow> sc_config \<Rightarrow> fatal + sc_config" where
  "sc_DisconnectClientUnlocked = DisconnectClientUnlocked"

definition sc_ShutdownServer :: "nat \<Rightarrow> sc_config \<Rightarrow> fatal + sc_config" where
  "sc_ShutdownServer = ShutdownServer sc_ops"

definition sc_StartServer_at :: "nat \<Rightarrow> (nat \<Rightarrow> string) \<Rightarrow> sc_config \<Rightarrow> fatal + sc_config" where
  "sc_StartServer_at = StartServer sc_ops"

text \<open>This \<open>Leader\<close> skips the servers that are not running.\<close>

definition sc_Leader :: "(nat \<Rightarrow> bool) \<Rightarrow> sc_config \<Rightarrow> bool \<times> nat" where
  "sc_Leader gs cfg = (case find (\<lambda>i. gservers cfg ! i \<noteq> None \<and> gs i) [0..<gn cfg] of Some i \<Rightarrow> (True, i) | None \<Rightarrow> (False, 0))"

definition sc_make_partition :: "(nat \<Rightarrow> bool) \<Rightarrow> sc_config \<Rightarrow> fatal + nat list \<times> nat list" where
  "sc_make_partition gs cfg = (let (_, l) = sc_Leader gs cfg in split_servers (gn cfg) l)"

definition sc_make_config :: "nat \<Rightarrow> bool \<Rightarrow> (nat \<Rightarrow> nat \<Rightarrow> string) \<Rightarrow> int \<Rightarrow> fatal + sc_config" where
  "sc_make_config n unreliable names now = gmake_config sc_ops n unreliable 0 names now (sc_StartServer 0 0)"

section \<open>The clerk returns the first answer\<close>

text \<open>Whether call \<open>m\<close> of an operation that started at call \<open>k\<close> is answered by a leader, and which server it asks.\<close>

definition asked :: "name list \<Rightarrow> nat \<Rightarrow> nat \<Rightarrow> name" where
  "asked hs k m = hs ! ((m - k) mod length hs)"

definition accepts :: "'r CtrlerReply_scheme option \<Rightarrow> bool" where
  "accepts a \<longleftrightarrow> (case a of None \<Rightarrow> False | Some re \<Rightarrow> WrongLeader re = False)"

lemma ask_round_Inr:
  "ask_round call hs k = Inr (r, k') \<longleftrightarrow>
     (\<exists>i < length hs. k' = k + i + 1 \<and> call (k + i) (hs ! i) = Some r \<and> accepts (call (k + i) (hs ! i)) \<and> (\<forall>j < i. \<not> accepts (call (k + j) (hs ! j))))"
proof (induction hs arbitrary: k)
  case (Cons srv hs)
  have ex: "(\<exists>i < Suc n. P i) \<longleftrightarrow> P 0 \<or> (\<exists>i < n. P (Suc i))" for P and n :: nat by (auto simp: less_Suc_eq_0_disj)
  have all: "(\<forall>j < Suc n. P j) \<longleftrightarrow> P 0 \<and> (\<forall>j < n. P (Suc j))" for P and n :: nat by (auto simp: less_Suc_eq_0_disj)
  show ?case
    by (cases "call k srv") (auto simp: Cons.IH ex all accepts_def split: option.splits if_splits)
qed simp

lemma ask_round_Inl:
  "ask_round call hs k = Inl k' \<longleftrightarrow> k' = k + length hs \<and> (\<forall>i < length hs. \<not> accepts (call (k + i) (hs ! i)))"
proof (induction hs arbitrary: k)
  case (Cons srv hs)
  have all: "(\<forall>j < Suc n. P j) \<longleftrightarrow> P 0 \<and> (\<forall>j < n. P (Suc j))" for P and n :: nat by (auto simp: less_Suc_eq_0_disj)
  show ?case
    by (cases "call k srv") (auto simp: Cons.IH all accepts_def split: option.splits if_splits)
qed auto

lemma asked_shift: "k + length hs \<le> m \<Longrightarrow> asked hs (k + length hs) m = asked hs k m"
proof -
  assume "k + length hs \<le> m"
  then have "m - k = (m - (k + length hs)) + length hs" by simp
  then show ?thesis unfolding asked_def by (metis mod_add_self2)
qed

lemma asked_first: "i < length hs \<Longrightarrow> asked hs k (k + i) = hs ! i"
  by (simp add: asked_def)

text \<open>The first call of an operation, from call \<open>k\<close> on, that a leader answers.\<close>

definition first_answer :: "(nat \<Rightarrow> name \<Rightarrow> ('r CtrlerReply_scheme) option) \<Rightarrow> name list \<Rightarrow> nat \<Rightarrow> nat \<Rightarrow> bool" where
  "first_answer call hs k m \<longleftrightarrow> k \<le> m \<and> accepts (call m (asked hs k m)) \<and> (\<forall>j. k \<le> j \<and> j < m \<longrightarrow> \<not> accepts (call j (asked hs k j)))"

lemma first_answer_here:
  assumes "i < length hs" and "accepts (call (k + i) (hs ! i))" and "\<forall>j < i. \<not> accepts (call (k + j) (hs ! j))"
  shows "first_answer call hs k (k + i)"
proof -
  have "\<not> accepts (call j (asked hs k j))" if "k \<le> j" "j < k + i" for j
  proof -
    from le_Suc_ex [OF that(1)] obtain d where d: "j = k + d" ..
    show ?thesis using that(2) assms(1,3) unfolding d by (simp add: asked_first)
  qed
  then show ?thesis using assms(1,2) by (simp add: first_answer_def asked_first)
qed

lemma first_answer_later:
  assumes "\<forall>i < length hs. \<not> accepts (call (k + i) (hs ! i))" and "first_answer call hs (k + length hs) m"
  shows "first_answer call hs k m"
proof -
  have "\<not> accepts (call j (asked hs k j))" if "k \<le> j" "j < m" for j
  proof (cases "j < k + length hs")
    case True
    from le_Suc_ex [OF that(1)] obtain d where d: "j = k + d" ..
    show ?thesis using True assms(1) unfolding d by (simp add: asked_first)
  next
    case False
    then have "k + length hs \<le> j \<and> j < m" using that by simp
    then have "\<not> accepts (call j (asked hs (k + length hs) j))" using assms(2) unfolding first_answer_def by blast
    then show ?thesis using False by (simp add: asked_shift)
  qed
  then show ?thesis using assms(2) asked_shift [of k hs m] by (auto simp: first_answer_def)
qed

abbreviation answered :: "(nat \<Rightarrow> name \<Rightarrow> ('r CtrlerReply_scheme) option) \<Rightarrow> name list \<Rightarrow> nat \<Rightarrow> 'r CtrlerReply_scheme \<times> nat \<Rightarrow> bool" where
  "answered call hs k x \<equiv> (\<exists>m. snd x = m + 1 \<and> call m (asked hs k m) = Some (fst x) \<and> first_answer call hs k m)"

lemma ask_sound_step:
  assumes "\<And>k2. f k2 = Some x \<Longrightarrow> answered call hs k2 x"
    and "(case ask_round call hs k of Inr r \<Rightarrow> Some r | Inl k2 \<Rightarrow> f k2) = Some x"
  shows "answered call hs k x"
proof (cases "ask_round call hs k")
  case (Inl k2)
  then have r: "k2 = k + length hs" "\<forall>i < length hs. \<not> accepts (call (k + i) (hs ! i))" by (simp_all add: ask_round_Inl)
  from Inl assms(2) have "f k2 = Some x" by simp
  from assms(1) [OF this] obtain m where m: "snd x = m + 1" "call m (asked hs (k + length hs) m) = Some (fst x)"
    "first_answer call hs (k + length hs) m" unfolding r(1) by (elim exE conjE) simp
  then have "k + length hs \<le> m" by (simp add: first_answer_def)
  then show ?thesis using m(1,2) first_answer_later [OF r(2) m(3)] by (auto simp: asked_shift)
next
  case (Inr y)
  with assms(2) have "ask_round call hs k = Inr (fst x, snd x)" by simp
  then obtain i where i: "i < length hs" "snd x = k + i + 1" "call (k + i) (hs ! i) = Some (fst x)"
    "accepts (call (k + i) (hs ! i))" "\<forall>j < i. \<not> accepts (call (k + j) (hs ! j))" unfolding ask_round_Inr by blast
  then show ?thesis using first_answer_here [of i hs call k] by (intro exI [of _ "k + i"]) (simp add: asked_first)
qed

lemma ask_sound: "ask_servers call hs k = Some x \<Longrightarrow> answered call hs k x"
  by (rule ask_servers.raw_induct [where P = answered]) (rule ask_sound_step)

lemma ask_complete:
  assumes "hs \<noteq> []" and "first_answer call hs k m"
  shows "ask_servers call hs k = Some (the (call m (asked hs k m)), m + 1)"
  using assms(2)
proof (induction "m - k" arbitrary: k rule: less_induct)
  case less
  note f = less.prems [unfolded first_answer_def]
  show ?case
  proof (cases "m < k + length hs")
    case True
    define i where "i = m - k"
    with True f have i: "i < length hs" "m = k + i" by auto
    have "\<not> accepts (call (k + j) (hs ! j))" if "j < i" for j
    proof -
      have "k \<le> k + j \<and> k + j < m" using that i by simp
      with f have "\<not> accepts (call (k + j) (asked hs k (k + j)))" by blast
      then show ?thesis using that i by (simp add: asked_first)
    qed
    moreover obtain r where "call m (asked hs k m) = Some r" using f by (auto simp: accepts_def split: option.splits)
    ultimately have "ask_round call hs k = Inr (r, m + 1)"
      unfolding ask_round_Inr using i f asked_first [of i hs k] by auto
    then show ?thesis using \<open>call m (asked hs k m) = Some r\<close> by (simp add: ask_servers.simps)
  next
    case False
    have "\<not> accepts (call (k + i) (hs ! i))" if "i < length hs" for i
    proof -
      have "k \<le> k + i \<and> k + i < m" using that False by simp
      with f have "\<not> accepts (call (k + i) (asked hs k (k + i)))" by blast
      then show ?thesis using that by (simp add: asked_first)
    qed
    then have "ask_round call hs k = Inl (k + length hs)" by (simp add: ask_round_Inl)
    moreover have "first_answer call hs (k + length hs) m"
      unfolding first_answer_def using f False asked_shift [of k hs] by auto
    moreover have "m - (k + length hs) < m - k" using assms(1) False by (cases hs) auto
    ultimately show ?thesis using less.hyps [of "k + length hs"] False asked_shift [of k hs m] by (simp add: ask_servers.simps [of call hs k])
  qed
qed

lemma first_answer_exists: "(\<exists>m. first_answer call hs k m) \<longleftrightarrow> (\<exists>m \<ge> k. accepts (call m (asked hs k m)))"
proof
  assume "\<exists>m \<ge> k. accepts (call m (asked hs k m))"
  then have "\<exists>m. k \<le> m \<and> accepts (call m (asked hs k m))" by blast
  from exists_least_iff [THEN iffD1, OF this] show "\<exists>m. first_answer call hs k m" unfolding first_answer_def by blast
qed (auto simp: first_answer_def)

text \<open>
  (C38) \<open>Query\<close> of the controller's clerk asks the servers in turn and forever: it returns the
  configuration of the first reply, in the order of its calls, that is not lost and not from a wrong
  leader, and it never returns exactly when there is no such reply.
\<close>

theorem ctrler_query_first_answer:
  assumes "ctServers ck \<noteq> []"
  shows "(Clerk_Query call ck num k = Some (c, k') \<longleftrightarrow>
      (\<exists>m re. first_answer (\<lambda>k srv. call k srv \<lparr>qNum = num\<rparr>) (ctServers ck) k m \<and> k' = m + 1
        \<and> call m (asked (ctServers ck) k m) \<lparr>qNum = num\<rparr> = Some re \<and> replyConfig re = c))
    \<and> (Clerk_Query call ck num k = None \<longleftrightarrow> (\<forall>m \<ge> k. \<not> accepts (call m (asked (ctServers ck) k m) \<lparr>qNum = num\<rparr>)))"
proof -
  let ?call = "\<lambda>k srv. call k srv \<lparr>qNum = num\<rparr>" and ?hs = "ctServers ck"
  note s = ask_sound [of ?call ?hs k "(r, k')" for r k'] and t = ask_complete [OF assms, of ?call k]
  have "Clerk_Query call ck num k = None \<longleftrightarrow> \<not> (\<exists>m. first_answer ?call ?hs k m)"
  proof (cases "ask_servers ?call ?hs k")
    case None
    then show ?thesis using t by (auto simp: Clerk_Query_def)
  next
    case (Some p)
    then show ?thesis using ask_sound [of ?call ?hs k p] by (auto simp: Clerk_Query_def)
  qed
  moreover have "Clerk_Query call ck num k = Some (c, k') \<longleftrightarrow> (\<exists>m re. first_answer ?call ?hs k m \<and> k' = m + 1
        \<and> call m (asked ?hs k m) \<lparr>qNum = num\<rparr> = Some re \<and> replyConfig re = c)"
  proof
    assume "Clerk_Query call ck num k = Some (c, k')"
    then obtain r where "ask_servers ?call ?hs k = Some (r, k')" "replyConfig r = c" by (auto simp: Clerk_Query_def)
    with s [of r k'] show "\<exists>m re. first_answer ?call ?hs k m \<and> k' = m + 1
        \<and> call m (asked ?hs k m) \<lparr>qNum = num\<rparr> = Some re \<and> replyConfig re = c" by auto
  next
    assume "\<exists>m re. first_answer ?call ?hs k m \<and> k' = m + 1
        \<and> call m (asked ?hs k m) \<lparr>qNum = num\<rparr> = Some re \<and> replyConfig re = c"
    then obtain m re where "first_answer ?call ?hs k m" "k' = m + 1" "call m (asked ?hs k m) \<lparr>qNum = num\<rparr> = Some re" "replyConfig re = c"
      by blast
    then show "Clerk_Query call ck num k = Some (c, k')" using t by (simp add: Clerk_Query_def)
  qed
  ultimately show ?thesis unfolding first_answer_exists by simp
qed

theorem ctrler_query_first_answer_witness:
  "Clerk_Query (\<lambda>k srv a. if k = 3 then Some (zero_QueryReply\<lparr>replyConfig := zero_Config\<lparr>Num := 7\<rparr>\<rparr>)
       else if k = 1 then Some (zero_QueryReply\<lparr>WrongLeader := True\<rparr>) else None) (MakeCtrlerClerk [NStr ''a'', NStr ''b'']) (- 1) 0
   = Some (zero_Config\<lparr>Num := 7\<rparr>, 4)"
proof -
  let ?call = "\<lambda>k srv (a :: QueryArgs). if k = 3 then Some (zero_QueryReply\<lparr>replyConfig := zero_Config\<lparr>Num := 7\<rparr>\<rparr>)
       else if k = 1 then Some (zero_QueryReply\<lparr>WrongLeader := True\<rparr>) else None"
  have n: "ctServers (MakeCtrlerClerk [NStr ''a'', NStr ''b'']) \<noteq> []" by (simp add: MakeCtrlerClerk_def)
  have "first_answer (\<lambda>k srv. ?call k srv \<lparr>qNum = - 1\<rparr>) (ctServers (MakeCtrlerClerk [NStr ''a'', NStr ''b''])) 0 3"
    by (simp add: first_answer_def accepts_def zero_QueryReply_def)
  then show ?thesis
    using ctrler_query_first_answer [OF n, of ?call "- 1" 0 "zero_Config\<lparr>Num := 7\<rparr>" 4] by auto
qed

text \<open>When all servers run, the two testers choose the same groups.\<close>

lemma sc_make_partition_eq:
  assumes "\<forall>i < gn cfg. gservers cfg ! i \<noteq> None"
  shows "sc_make_partition gs cfg = make_partition gs cfg"
proof -
  have "Leader gs cfg = Inr (case find gs [0..<gn cfg] of None \<Rightarrow> (False, 0) | Some i \<Rightarrow> (True, i))"
    unfolding Leader_def using assms by (intro Leader_loop_running) simp
  moreover have "find (\<lambda>i. gservers cfg ! i \<noteq> None \<and> gs i) [0..<gn cfg] = find gs [0..<gn cfg]"
    using assms by (intro find_cong) simp_all
  ultimately show ?thesis by (simp add: sc_make_partition_def make_partition_def sc_Leader_def split: option.split)
qed

end
