(* ===== verification/ShardKv.thy ===== *)
theory ShardKv
  imports ShardCtrler
begin

text \<open>
  The sharded key/value service, \<open>shardkv/\<close>: the map of keys to shards, the clerk and its retry loops over
  the group of a shard and the controller, and the server. Calls are oracles as in \<open>ShardCtrler\<close>, one for
  the controllers and one for the groups, which share the numbering of the clerk's calls.
\<close>

section \<open>Keys and messages\<close>

definition key2shard :: "string \<Rightarrow> nat" where
  "key2shard key = (let shard = (if length key > 0 then of_char (hd key) else 0) in shard mod NShards)"

lemma key2shard_bound: "key2shard key < NShards"
  by (simp add: key2shard_def NShards_def)

datatype Err = NoErr | OK | ErrNoKey | ErrWrongGroup | ErrWrongLeader

record GetArgs =
  gaKey :: string

record GetReply =
  grErr :: Err
  grValue :: string

record PutAppendArgs =
  paKey :: string
  paValue :: string
  paOp :: string

record PutAppendReply =
  prErr :: Err

section \<open>The clerk\<close>

record ShardClerk =
  skSm :: CtrlerClerk
  skConfig :: Config
  skMakeEnd :: "string \<Rightarrow> name"

definition MakeShardClerk :: "name list \<Rightarrow> (string \<Rightarrow> name) \<Rightarrow> ShardClerk" where
  "MakeShardClerk ctrlers mkend = \<lparr>skSm = MakeCtrlerClerk ctrlers, skConfig = zero_Config, skMakeEnd = mkend\<rparr>"

text \<open>
  The loop over the servers of a group, common to \<open>Get\<close> and \<open>PutAppend\<close>: \<open>good\<close> is the test of the
  reply that ends the operation, \<open>wrong\<close> the one that leaves the loop.
\<close>

fun try_group :: "('r \<Rightarrow> bool) \<Rightarrow> ('r \<Rightarrow> bool) \<Rightarrow> (nat \<Rightarrow> name \<Rightarrow> 'r option) \<Rightarrow> (string \<Rightarrow> name) \<Rightarrow> string list \<Rightarrow> nat \<Rightarrow> nat + 'r \<times> nat" where
  "try_group good wrong call mkend [] k = Inl k"
| "try_group good wrong call mkend (s # ss) k = (case call k (mkend s) of
     None \<Rightarrow> try_group good wrong call mkend ss (k + 1)
   | Some r \<Rightarrow> if good r then Inr (r, k + 1) else if wrong r then Inl (k + 1) else try_group good wrong call mkend ss (k + 1))"

definition try_config :: "('r \<Rightarrow> bool) \<Rightarrow> ('r \<Rightarrow> bool) \<Rightarrow> (nat \<Rightarrow> name \<Rightarrow> 'r option) \<Rightarrow> ShardClerk \<Rightarrow> string \<Rightarrow> nat \<Rightarrow> nat + 'r \<times> nat" where
  "try_config good wrong call ck key k = (let shard = key2shard key; gid = Shards (skConfig ck) ! shard in
     case map_of (Groups (skConfig ck)) gid of None \<Rightarrow> Inl k | Some ss \<Rightarrow> try_group good wrong call (skMakeEnd ck) ss k)"

text \<open>The outer loop: after a round, sleep and ask the controller for the latest configuration.\<close>

partial_function (option) retry ::
  "('r \<Rightarrow> bool) \<Rightarrow> ('r \<Rightarrow> bool) \<Rightarrow> (nat \<Rightarrow> name \<Rightarrow> 'r option) \<Rightarrow> (nat \<Rightarrow> name \<Rightarrow> QueryArgs \<Rightarrow> QueryReply option)
    \<Rightarrow> string \<Rightarrow> ShardClerk \<Rightarrow> nat \<Rightarrow> ('r \<times> ShardClerk \<times> nat) option" where
  "retry good wrong call qcall key ck k = (case try_config good wrong call ck key k of
     Inr (r, k') \<Rightarrow> Some (r, ck, k')
   | Inl k' \<Rightarrow> Option.bind (Clerk_Query qcall (skSm ck) (- 1) k') (\<lambda>(c, k''). retry good wrong call qcall key (ck\<lparr>skConfig := c\<rparr>) k''))"

definition ShardClerk_Get ::
  "(nat \<Rightarrow> name \<Rightarrow> GetArgs \<Rightarrow> GetReply option) \<Rightarrow> (nat \<Rightarrow> name \<Rightarrow> QueryArgs \<Rightarrow> QueryReply option)
    \<Rightarrow> ShardClerk \<Rightarrow> string \<Rightarrow> nat \<Rightarrow> (string \<times> ShardClerk \<times> nat) option" where
  "ShardClerk_Get call qcall ck key k = map_option (\<lambda>(r, ck', k'). (grValue r, ck', k'))
     (retry (\<lambda>r. grErr r = OK \<or> grErr r = ErrNoKey) (\<lambda>r. grErr r = ErrWrongGroup)
       (\<lambda>k e. call k e \<lparr>gaKey = key\<rparr>) qcall key ck k)"

definition ShardClerk_PutAppend ::
  "(nat \<Rightarrow> name \<Rightarrow> PutAppendArgs \<Rightarrow> PutAppendReply option) \<Rightarrow> (nat \<Rightarrow> name \<Rightarrow> QueryArgs \<Rightarrow> QueryReply option)
    \<Rightarrow> ShardClerk \<Rightarrow> string \<Rightarrow> string \<Rightarrow> string \<Rightarrow> nat \<Rightarrow> (ShardClerk \<times> nat) option" where
  "ShardClerk_PutAppend call qcall ck key v op k = map_option snd
     (retry (\<lambda>r. prErr r = OK) (\<lambda>r. prErr r = ErrWrongGroup)
       (\<lambda>k e. call k e \<lparr>paKey = key, paValue = v, paOp = op\<rparr>) qcall key ck k)"

definition ShardClerk_Put where
  "ShardClerk_Put call qcall ck key v k = ShardClerk_PutAppend call qcall ck key v ''Put'' k"

definition ShardClerk_Append where
  "ShardClerk_Append call qcall ck key v k = ShardClerk_PutAppend call qcall ck key v ''Append'' k"

section \<open>The server\<close>

record ShardKV =
  kMe :: nat
  kRf :: nat
  kGid :: nat
  kCtrlers :: "name list"
  kMaxraftstate :: int

definition ShardKV_Get :: "ShardKV \<Rightarrow> GetArgs \<Rightarrow> GetReply \<Rightarrow> ShardKV \<times> GetReply" where
  "ShardKV_Get kv a r = (kv, r)"

definition ShardKV_PutAppend :: "ShardKV \<Rightarrow> PutAppendArgs \<Rightarrow> PutAppendReply \<Rightarrow> ShardKV \<times> PutAppendReply" where
  "ShardKV_PutAppend kv a r = (kv, r)"

definition ShardKV_Kill :: "ShardKV \<Rightarrow> ShardKV" where
  "ShardKV_Kill kv = kv"

definition ShardKV_StartServer :: "nat \<Rightarrow> nat \<Rightarrow> int \<Rightarrow> nat \<Rightarrow> name list \<Rightarrow> ShardKV" where
  "ShardKV_StartServer i rf maxraftstate gid ctrlers = \<lparr>kMe = i, kRf = rf, kGid = gid, kCtrlers = ctrlers, kMaxraftstate = maxraftstate\<rparr>"

section \<open>A result is a reply of the shard's group\<close>

text \<open>A round that starts at call \<open>k\<close> gets as far as server \<open>i\<close>: those before it are lost, or neither end the operation nor the round.\<close>

definition passed :: "('r \<Rightarrow> bool) \<Rightarrow> ('r \<Rightarrow> bool) \<Rightarrow> (nat \<Rightarrow> name \<Rightarrow> 'r option) \<Rightarrow> (string \<Rightarrow> name) \<Rightarrow> string list \<Rightarrow> nat \<Rightarrow> nat \<Rightarrow> bool" where
  "passed good wrong call mkend ss k i \<longleftrightarrow>
     (\<forall>j<i. \<forall>r. call (k + j) (mkend (ss ! j)) = Some r \<longrightarrow> \<not> good r \<and> \<not> wrong r)"

lemma passed_0 [simp]: "passed good wrong call mkend ss k 0"
  by (simp add: passed_def)

lemma passed_Suc: "passed good wrong call mkend (s # ss) k (Suc i) \<longleftrightarrow>
    (\<forall>r. call k (mkend s) = Some r \<longrightarrow> \<not> good r \<and> \<not> wrong r) \<and> passed good wrong call mkend ss (k + 1) i"
  unfolding passed_def by (auto simp: All_less_Suc2)

lemma try_group_Inr:
  "try_group good wrong call mkend ss k = Inr (r, k') \<longleftrightarrow>
     (\<exists>i<length ss. k' = k + i + 1 \<and> call (k + i) (mkend (ss ! i)) = Some r \<and> good r \<and> passed good wrong call mkend ss k i)"
proof (induction ss arbitrary: k)
  case (Cons s ss)
  have ex: "(\<exists>i<Suc n. P i) \<longleftrightarrow> P 0 \<or> (\<exists>i<n. P (Suc i))" for P and n :: nat by (auto simp: less_Suc_eq_0_disj)
  show ?case by (cases "call k (mkend s)") (auto simp: Cons.IH ex passed_Suc)
qed simp

lemma try_group_next: "try_group good wrong call mkend ss k = Inl k' \<Longrightarrow> k \<le> k'"
  by (induction ss arbitrary: k) (fastforce split: option.splits if_splits)+

lemma try_config_next: "try_config good wrong call ck key k = Inl k' \<Longrightarrow> k \<le> k'"
  by (auto simp: try_config_def Let_def dest: try_group_next split: option.splits)

text \<open>The servers that a clerk's configuration gives for a key.\<close>

definition owners :: "ShardClerk \<Rightarrow> string \<Rightarrow> string list" where
  "owners ck key = (case map_of (Groups (skConfig ck)) (Shards (skConfig ck) ! key2shard key) of None \<Rightarrow> [] | Some ss \<Rightarrow> ss)"

definition replied :: "('r \<Rightarrow> bool) \<Rightarrow> ('r \<Rightarrow> bool) \<Rightarrow> (nat \<Rightarrow> name \<Rightarrow> 'r option) \<Rightarrow> string \<Rightarrow> 'r \<times> ShardClerk \<times> nat \<Rightarrow> bool" where
  "replied good wrong call key = (\<lambda>(r, ck, k'). \<exists>m. \<exists>i<length (owners ck key). k' = m + i + 1
     \<and> call (m + i) (skMakeEnd ck (owners ck key ! i)) = Some r \<and> good r \<and> passed good wrong call (skMakeEnd ck) (owners ck key) m i)"

lemma try_config_owners: "try_config good wrong call ck key k = try_group good wrong call (skMakeEnd ck) (owners ck key) k"
  by (simp add: try_config_def owners_def Let_def split: option.split)

lemma try_config_reply: "try_config good wrong call ck key k = Inr (r, k') \<Longrightarrow> replied good wrong call key (r, ck, k')"
  unfolding try_config_owners try_group_Inr replied_def by auto

lemma retry_step:
  assumes "\<And>ck k. f ck k = Some x \<Longrightarrow> replied good wrong call key x"
    and "(case try_config good wrong call ck key k of Inr (r, k') \<Rightarrow> Some (r, ck, k')
       | Inl k' \<Rightarrow> Option.bind (Clerk_Query qcall (skSm ck) (- 1) k') (\<lambda>(c, k''). f (ck\<lparr>skConfig := c\<rparr>) k'')) = Some x"
  shows "replied good wrong call key x"
proof (cases "try_config good wrong call ck key k")
  case (Inl k')
  with assms(2) obtain c k'' where "f (ck\<lparr>skConfig := c\<rparr>) k'' = Some x" by (auto simp: bind_eq_Some_conv)
  then show ?thesis by (rule assms(1))
next
  case (Inr p)
  obtain r k' where p: "p = (r, k')" by (cases p)
  with Inr assms(2) have "x = (r, ck, k')" by simp
  then show ?thesis using try_config_reply [OF Inr [unfolded p]] by simp
qed

lemma retry_sound: "retry good wrong call qcall key ck k = Some x \<Longrightarrow> replied good wrong call key x"
  by (rule retry.raw_induct [where P = "\<lambda>good wrong call qcall key ck k x. replied good wrong call key x"]) (rule retry_step)

section \<open>The loops end once the group answers\<close>

lemma Clerk_Query_next: "Clerk_Query qcall ck num k = Some (c, k') \<Longrightarrow> k < k'"
  by (auto simp: Clerk_Query_def first_answer_def dest!: ask_sound)

lemma try_config_answers:
  assumes "i < length (owners ck key)" and "\<And>m. k \<le> m \<Longrightarrow> \<exists>r. call m (skMakeEnd ck (owners ck key ! i)) = Some r \<and> good r"
    and "\<And>m j r. k \<le> m \<Longrightarrow> j < i \<Longrightarrow> call m (skMakeEnd ck (owners ck key ! j)) = Some r \<Longrightarrow> \<not> wrong r"
  shows "\<exists>r k'. try_config good wrong call ck key k = Inr (r, k')"
proof -
  let ?ss = "owners ck key"
  define P where "P j \<longleftrightarrow> (\<exists>r. call (k + j) (skMakeEnd ck (?ss ! j)) = Some r \<and> good r)" for j
  have "P i" unfolding P_def using assms(2) [of "k + i"] by simp
  then obtain j where j: "P j" "\<forall>l<j. \<not> P l" "j \<le> i" using exists_least_iff [of P] by (metis linorder_not_le)
  then obtain r where r: "call (k + j) (skMakeEnd ck (?ss ! j)) = Some r" "good r" by (auto simp: P_def)
  have "passed good wrong call (skMakeEnd ck) ?ss k j"
    unfolding passed_def
  proof (intro allI impI)
    fix l r' assume l: "l < j" "call (k + l) (skMakeEnd ck (?ss ! l)) = Some r'"
    then show "\<not> good r' \<and> \<not> wrong r'" using j(2,3) assms(3) [of "k + l" l r'] by (auto simp: P_def)
  qed
  then have "try_config good wrong call ck key k = Inr (r, k + j + 1)"
    unfolding try_config_owners try_group_Inr using r j(3) assms(1) by auto
  then show ?thesis by blast
qed

text \<open>
  From call \<open>K\<close> on, every configuration that the controllers give has a group for the key, in which some
  server \<open>i\<close> answers every call and no server before it refuses the key as one of another group; servers
  that are lost or are not the leader may stand before it, and the other ends may do what they want.
\<close>

definition serving :: "('r \<Rightarrow> bool) \<Rightarrow> ('r \<Rightarrow> bool) \<Rightarrow> (nat \<Rightarrow> name \<Rightarrow> 'r option) \<Rightarrow> nat \<Rightarrow> string \<Rightarrow> ShardClerk \<Rightarrow> bool" where
  "serving good wrong call K key ck \<longleftrightarrow> (\<exists>i<length (owners ck key).
     (\<forall>m\<ge>K. \<exists>r. call m (skMakeEnd ck (owners ck key ! i)) = Some r \<and> good r)
     \<and> (\<forall>m\<ge>K. \<forall>j<i. \<forall>r. call m (skMakeEnd ck (owners ck key ! j)) = Some r \<longrightarrow> \<not> wrong r))"

definition settled :: "('r \<Rightarrow> bool) \<Rightarrow> ('r \<Rightarrow> bool) \<Rightarrow> (nat \<Rightarrow> name \<Rightarrow> 'r option) \<Rightarrow> (nat \<Rightarrow> name \<Rightarrow> QueryArgs \<Rightarrow> QueryReply option)
    \<Rightarrow> string \<Rightarrow> nat \<Rightarrow> ShardClerk \<Rightarrow> bool" where
  "settled good wrong call qcall key K ck \<longleftrightarrow>
     (\<forall>k c k'. K \<le> k \<and> Clerk_Query qcall (skSm ck) (- 1) k = Some (c, k') \<longrightarrow> serving good wrong call K key (ck\<lparr>skConfig := c\<rparr>))"

lemma settled_config [simp]: "settled good wrong call qcall key K (ck\<lparr>skConfig := c\<rparr>) = settled good wrong call qcall key K ck"
  by (simp add: settled_def)

lemma retry_settled:
  assumes "settled good wrong call qcall key K ck" and "\<And>k. Clerk_Query qcall (skSm ck) (- 1) k \<noteq> None"
  shows "retry good wrong call qcall key ck k \<noteq> None"
  using assms
proof (induction "(if K \<le> k \<and> serving good wrong call K key ck then 0 else Suc (K - k))" arbitrary: ck k rule: less_induct)
  case less
  show ?case
  proof (cases "try_config good wrong call ck key k")
    case (Inl k')
    then have "k \<le> k'" by (rule try_config_next)
    obtain c k'' where q: "Clerk_Query qcall (skSm ck) (- 1) k' = Some (c, k'')" using less.prems(2) by fastforce
    have k'': "k < k''" using Clerk_Query_next [OF q] \<open>k \<le> k'\<close> by simp
    have n: "\<not> (K \<le> k \<and> serving good wrong call K key ck)"
    proof
      assume s: "K \<le> k \<and> serving good wrong call K key ck"
      then obtain i where "i < length (owners ck key)" "\<forall>m\<ge>K. \<exists>r. call m (skMakeEnd ck (owners ck key ! i)) = Some r \<and> good r"
        "\<forall>m\<ge>K. \<forall>j<i. \<forall>r. call m (skMakeEnd ck (owners ck key ! j)) = Some r \<longrightarrow> \<not> wrong r" unfolding serving_def by blast
      then have "\<exists>r k'. try_config good wrong call ck key k = Inr (r, k')"
        using s by (intro try_config_answers) (blast intro: order.trans)+
      with Inl show False by simp
    qed
    have "K \<le> k \<Longrightarrow> serving good wrong call K key (ck\<lparr>skConfig := c\<rparr>)"
      using less.prems(1) q \<open>k \<le> k'\<close> unfolding settled_def by (meson order.trans)
    then have "K \<le> k \<and> serving good wrong call K key (ck\<lparr>skConfig := c\<rparr>) \<or> k < K" by linarith
    with n k'' have "retry good wrong call qcall key (ck\<lparr>skConfig := c\<rparr>) k'' \<noteq> None"
      using less.prems by (intro less.hyps) (auto split: if_splits)
    then show ?thesis using Inl q by (simp add: retry.simps [of good wrong call qcall key ck k])
  next
    case (Inr p)
    then show ?thesis by (cases p) (simp add: retry.simps [of good wrong call qcall key ck k])
  qed
qed

text \<open>The tests of \<open>Get\<close> on a reply.\<close>

abbreviation get_good :: "GetReply \<Rightarrow> bool" where
  "get_good r \<equiv> grErr r = OK \<or> grErr r = ErrNoKey"

abbreviation get_wrong :: "GetReply \<Rightarrow> bool" where
  "get_wrong r \<equiv> grErr r = ErrWrongGroup"

text \<open>
  (C39) The clerk of the sharded service. Suppose that the controllers always answer eventually and that,
  from some call on, the configurations they give have for the key a group in which some server answers
  every call with \<open>OK\<close> or \<open>ErrNoKey\<close> and no server before it answers \<open>ErrWrongGroup\<close>; the servers before it
  may be lost or not the leader, and nothing is assumed of other ends. Then \<open>Get\<close> returns. The value is that
  of an \<open>OK\<close> or \<open>ErrNoKey\<close> reply of a server that the clerk's configuration at that moment gives for the
  shard of the key, asked in a round that tried the group in order, in which no server before it had
  answered \<open>OK\<close>, \<open>ErrNoKey\<close> or \<open>ErrWrongGroup\<close>.
\<close>

theorem shardkv_get_returns:
  assumes "settled get_good get_wrong (\<lambda>k e. call k e \<lparr>gaKey = key\<rparr>) qcall key K ck"
    and "\<forall>k. Clerk_Query qcall (skSm ck) (- 1) k \<noteq> None"
  shows "\<exists>v ck' k'. ShardClerk_Get call qcall ck key k = Some (v, ck', k') \<and>
    (\<exists>m. \<exists>i<length (owners ck' key). \<exists>r. k' = m + i + 1 \<and> call (m + i) (skMakeEnd ck' (owners ck' key ! i)) \<lparr>gaKey = key\<rparr> = Some r
      \<and> (grErr r = OK \<or> grErr r = ErrNoKey) \<and> grValue r = v
      \<and> (\<forall>j<i. \<forall>r'. call (m + j) (skMakeEnd ck' (owners ck' key ! j)) \<lparr>gaKey = key\<rparr> = Some r' \<longrightarrow> grErr r' \<notin> {OK, ErrNoKey, ErrWrongGroup}))"
proof -
  let ?call = "\<lambda>k e. call k e \<lparr>gaKey = key\<rparr>"
  from retry_settled [OF assms(1)] assms(2) obtain x where x: "retry get_good get_wrong ?call qcall key ck k = Some x" by blast
  obtain r ck' k' where r: "x = (r, ck', k')" by (cases x)
  from retry_sound [OF x] have "replied get_good get_wrong ?call key (r, ck', k')" by (simp add: r)
  then obtain m i where mi: "i < length (owners ck' key)" "k' = m + i + 1" "?call (m + i) (skMakeEnd ck' (owners ck' key ! i)) = Some r" "get_good r"
    "passed get_good get_wrong ?call (skMakeEnd ck') (owners ck' key) m i" by (auto simp: replied_def)
  have "ShardClerk_Get call qcall ck key k = Some (grValue r, ck', k')" using x by (simp add: ShardClerk_Get_def r)
  moreover have "\<forall>j<i. \<forall>r'. ?call (m + j) (skMakeEnd ck' (owners ck' key ! j)) = Some r' \<longrightarrow> grErr r' \<notin> {OK, ErrNoKey, ErrWrongGroup}"
    using mi(5) by (auto simp: passed_def)
  ultimately show ?thesis using mi(1-4) by blast
qed

text \<open>A group of two servers, of which the first is not the leader.\<close>

theorem shardkv_get_returns_witness:
  "\<exists>v ck' k'. ShardClerk_Get (\<lambda>m e a. if e = NStr ''s1'' then Some \<lparr>grErr = OK, grValue = ''x''\<rparr>
        else if e = NStr ''s0'' then Some \<lparr>grErr = ErrWrongLeader, grValue = []\<rparr> else None)
     (\<lambda>m e a. Some (zero_QueryReply\<lparr>replyConfig := zero_Config\<lparr>Groups := [(0, [''s0'', ''s1''])]\<rparr>\<rparr>))
     (MakeShardClerk [NStr ''c''] NStr) ''k'' 0 = Some (v, ck', k')"
proof -
  let ?call = "\<lambda>m e (a :: GetArgs). if e = NStr ''s1'' then Some \<lparr>grErr = OK, grValue = ''x''\<rparr>
        else if e = NStr ''s0'' then Some \<lparr>grErr = ErrWrongLeader, grValue = []\<rparr> else None"
    and ?c = "zero_Config\<lparr>Groups := [(0, [''s0'', ''s1''])]\<rparr>" and ?ck = "MakeShardClerk [NStr ''c''] NStr"
  let ?q = "\<lambda>m e (a :: QueryArgs). Some (zero_QueryReply\<lparr>replyConfig := ?c\<rparr>)"
  have q: "Clerk_Query ?q (skSm ?ck) (- 1) k = Some (?c, k + 1)" for k
    by (simp add: Clerk_Query_def ask_servers.simps MakeShardClerk_def MakeCtrlerClerk_def zero_QueryReply_def)
  have "Shards ?c ! key2shard ''k'' = 0" using key2shard_bound [of "''k''"] by (simp add: zero_Config_def)
  then have o: "owners (?ck\<lparr>skConfig := ?c\<rparr>) ''k'' = [''s0'', ''s1'']" by (simp add: owners_def)
  have "serving get_good get_wrong (\<lambda>k e. ?call k e \<lparr>gaKey = ''k''\<rparr>) 0 ''k'' (?ck\<lparr>skConfig := ?c\<rparr>)"
    unfolding serving_def o by (rule exI [of _ 1]) (simp add: MakeShardClerk_def)
  then have "settled get_good get_wrong (\<lambda>k e. ?call k e \<lparr>gaKey = ''k''\<rparr>) ?q ''k'' 0 ?ck" unfolding settled_def q by simp
  from shardkv_get_returns [OF this, of 0] q show ?thesis by blast
qed

section \<open>The service of the repository\<close>

lemma ask_zero: "(\<And>k e re. call k e = Some re \<Longrightarrow> re = zero_QueryReply) \<Longrightarrow> ask_servers call hs k = Some x \<Longrightarrow> fst x = zero_QueryReply"
  by (auto dest!: ask_sound)

lemma retry_stuck_step:
  assumes "\<And>ck k. f ck k = Some x \<Longrightarrow> Groups (skConfig ck) \<noteq> []"
    and "\<And>k e a re. qcall k e a = Some re \<Longrightarrow> re = zero_QueryReply"
    and "(case try_config good wrong call ck key k of Inr (r, k') \<Rightarrow> Some (r, ck, k')
       | Inl k' \<Rightarrow> Option.bind (Clerk_Query qcall (skSm ck) (- 1) k') (\<lambda>(c, k''). f (ck\<lparr>skConfig := c\<rparr>) k'')) = Some x"
  shows "Groups (skConfig ck) \<noteq> []"
proof
  assume "Groups (skConfig ck) = []"
  then have "try_config good wrong call ck key k = Inl k" by (simp add: try_config_def)
  with assms(3) obtain c k' where c: "Clerk_Query qcall (skSm ck) (- 1) k = Some (c, k')" "f (ck\<lparr>skConfig := c\<rparr>) k' = Some x"
    by (auto simp: bind_eq_Some_conv)
  from c(1) obtain y where y: "ask_servers (\<lambda>k srv. qcall k srv \<lparr>qNum = - 1\<rparr>) (ctServers (skSm ck)) k = Some y" "c = replyConfig (fst y)"
    by (auto simp: Clerk_Query_def)
  have "fst y = zero_QueryReply" using assms(2) by (rule ask_zero [OF _ y(1)])
  then have "Groups c = []" using y(2) by (simp add: zero_QueryReply_def zero_Config_def)
  with assms(1) [OF c(2)] show False by simp
qed

lemma retry_stuck:
  assumes "\<And>k e a re. qcall k e a = Some re \<Longrightarrow> re = zero_QueryReply" and "Groups (skConfig ck) = []"
  shows "retry good wrong call qcall key ck k = None"
proof (cases "retry good wrong call qcall key ck k")
  case (Some x)
  have "(\<forall>k e a re. qcall k e a = Some re \<longrightarrow> re = zero_QueryReply) \<longrightarrow> Groups (skConfig ck) \<noteq> []"
    using Some by (rule retry.raw_induct [where P = "\<lambda>good wrong call qcall key ck k x.
      (\<forall>k e a re. qcall k e a = Some re \<longrightarrow> re = zero_QueryReply) \<longrightarrow> Groups (skConfig ck) \<noteq> []", rotated])
      (intro impI, erule retry_stuck_step [rotated 2], blast, blast)
  with assms show ?thesis by blast
qed

text \<open>
  With the controllers of the repository, whose \<open>Query\<close> leaves the reply as it is, a clerk never
  learns of a group, and so neither \<open>Get\<close> nor \<open>PutAppend\<close> of the sharded service ever returns, whatever the
  servers of the groups do and whatever the network loses.
\<close>

theorem shardkv_clerk_stuck:
  assumes "\<forall>k e a re. qcall k e a = Some re \<longrightarrow> (\<exists>sc. re = snd (ShardCtrler_Query sc a zero_QueryReply))"
  shows "ShardClerk_Get call qcall (MakeShardClerk ctrlers mkend) key k = None
    \<and> ShardClerk_PutAppend pcall qcall (MakeShardClerk ctrlers mkend) key v op k = None"
proof -
  have "re = zero_QueryReply" if "qcall k e a = Some re" for k e a re
    using assms that by (auto simp: ShardCtrler_Query_def)
  then show ?thesis
    by (simp add: ShardClerk_Get_def ShardClerk_PutAppend_def retry_stuck MakeShardClerk_def zero_Config_def)
qed

theorem shardkv_clerk_stuck_witness:
  "ShardClerk_Get (\<lambda>_ _ _. Some \<lparr>grErr = OK, grValue = ''x''\<rparr>)
     (\<lambda>_ _ a. Some (snd (ShardCtrler_Query (sc_StartServer 0 0) a zero_QueryReply))) (MakeShardClerk [NStr ''c''] NStr) ''k'' 0 = None"
  using shardkv_clerk_stuck [where call = "\<lambda>_ _ _. Some \<lparr>grErr = OK, grValue = ''x''\<rparr>" and mkend = NStr and ctrlers = "[NStr ''c'']"
    and key = "''k''" and k = 0 and qcall = "\<lambda>_ _ a. Some (snd (ShardCtrler_Query (sc_StartServer 0 0) a zero_QueryReply))"] by blast

end
