(* ===== verification/ShardKvConfig.thy ===== *)
theory ShardKvConfig
  imports ShardKv
begin

text \<open>
  The tester of the sharded service, \<open>shardkv/config.go\<close>: three controllers, three groups of servers and
  clerks on one network. The stream of random strings is part of the configuration: \<open>kRand\<close> with the
  number \<open>kDrawn\<close> of strings drawn so far.
\<close>

section \<open>State\<close>

record group =
  ggid :: nat
  ggservers :: "nat option list"
  ggsaved :: "nat option list"
  ggends :: "string list list"
  ggmends :: "string list list"

record sk_config =
  knet :: Network
  kstart :: int
  nctrlers :: nat
  kctrlers :: "nat option list"
  mck :: CtrlerClerk
  ngroups :: nat
  kn :: nat
  groups :: "group list"
  kclerks :: "(nat \<times> string list) list"
  knextClientId :: int
  kmaxraftstate :: int
  kRand :: "nat \<Rightarrow> string"
  kDrawn :: nat
  kpheap :: "nat \<Rightarrow> Persister"
  kpnext :: nat
  krheap :: "nat \<Rightarrow> Raft"
  krnext :: nat
  kobjs :: "nat \<Rightarrow> ShardKV"
  konext :: nat
  kcobjs :: "nat \<Rightarrow> ShardCtrler"
  kconext :: nat
  kclerkObjs :: "nat \<Rightarrow> CtrlerClerk"
  kcnext :: nat
  knsrv :: "nat \<Rightarrow> nat \<times> nat"
  knnext :: nat

section \<open>Names and ends\<close>

definition ctrlername :: "nat \<Rightarrow> string" where
  "ctrlername i = ''ctrler'' @ itoa i"

definition servername :: "nat \<Rightarrow> nat \<Rightarrow> string" where
  "servername gid i = ''server-'' @ itoa gid @ ''-'' @ itoa i"

text \<open>A fresh end with a random name, connected to a server and enabled: the body of the loops and of the closures \<open>make_end\<close>.\<close>

definition open_end :: "string \<Rightarrow> sk_config \<Rightarrow> fatal + string \<times> sk_config" where
  "open_end target cfg = (let e = kRand cfg (kDrawn cfg) in andThen (MakeEnd (NStr e) (knet cfg)) (\<lambda>rn.
     Inr (e, cfg\<lparr>knet := Enable (NStr e) True (Connect (NStr e) (NStr target) rn), kDrawn := kDrawn cfg + 1\<rparr>)))"

fun open_ends :: "string list \<Rightarrow> sk_config \<Rightarrow> fatal + string list \<times> sk_config" where
  "open_ends [] cfg = Inr ([], cfg)"
| "open_ends (t # ts) cfg = andThen (open_end t cfg) (\<lambda>(e, cfg). andThen (open_ends ts cfg) (\<lambda>(es, cfg). Inr (e # es, cfg)))"

definition ctrler_ends :: "sk_config \<Rightarrow> fatal + string list \<times> sk_config" where
  "ctrler_ends cfg = open_ends (map ctrlername [0..<nctrlers cfg]) cfg"

section \<open>Timing and checks\<close>

definition sk_checkTimeout :: "bool \<Rightarrow> int \<Rightarrow> sk_config \<Rightarrow> fatal + sk_config" where
  "sk_checkTimeout failed now cfg = (if \<not> failed \<and> now - kstart cfg > 120 * 1000000000
     then Inl (Fatal ''test took longer than 120 seconds'') else Inr cfg)"

definition checklog :: "sk_config \<Rightarrow> Persister \<Rightarrow> fatal + unit" where
  "checklog cfg p = (if kmaxraftstate cfg \<ge> 0 \<and> int (RaftStateSize p) > 8 * kmaxraftstate cfg then Inl (Fatal ''persister.RaftStateSize()'')
     else if kmaxraftstate cfg < 0 \<and> length (content (ReadSnapshot p)) > 0 then Inl (Fatal ''maxraftstate is -1, but snapshot is non-empty!'')
     else Inr ())"

definition checklogs :: "sk_config \<Rightarrow> fatal + unit" where
  "checklogs cfg = for_each (\<lambda>gi. for_each (\<lambda>i _. case ggsaved (groups cfg ! gi) ! i of None \<Rightarrow> Inl (Panic ''nil pointer dereference'')
     | Some a \<Rightarrow> checklog cfg (kpheap cfg a)) [0..<kn cfg]) [0..<ngroups cfg] ()"

section \<open>Clients\<close>

text \<open>
  \<open>makeClient\<close>: the slice of names has \<open>cfg.n\<close> elements and is filled for each controller. Of the new
  clerk the configuration keeps the clerk of the controllers; its \<open>make_end\<close> is \<open>open_end\<close>.
\<close>

definition client_end :: "nat \<Rightarrow> string list \<times> string list \<times> sk_config \<Rightarrow> fatal + string list \<times> string list \<times> sk_config" where
  "client_end j r = (case r of (endnames, es, cfg) \<Rightarrow> if j \<ge> length endnames then Inl bounds else
     andThen (open_end (ctrlername j) cfg) (\<lambda>(e, cfg). Inr (endnames[j := e], es @ [e], cfg)))"

definition sk_makeClient :: "sk_config \<Rightarrow> fatal + sk_config \<times> nat" where
  "sk_makeClient cfg = andThen (for_each client_end [0..<nctrlers cfg] (replicate (kn cfg) [], [], cfg)) (\<lambda>(endnames, es, cfg).
     let ck = kcnext cfg in
     Inr (cfg\<lparr>kclerkObjs := (kclerkObjs cfg)(ck := MakeCtrlerClerk (map NStr es)), kcnext := ck + 1,
       kclerks := AList.update ck endnames (kclerks cfg), knextClientId := knextClientId cfg + 1\<rparr>, ck))"

definition sk_deleteClient :: "nat \<Rightarrow> sk_config \<Rightarrow> sk_config" where
  "sk_deleteClient ck cfg = cfg\<lparr>kclerks := AList.delete ck (kclerks cfg)\<rparr>"

definition shardclerk :: "sk_config \<Rightarrow> fatal + CtrlerClerk \<times> sk_config" where
  "shardclerk cfg = andThen (ctrler_ends cfg) (\<lambda>(es, cfg). Inr (MakeCtrlerClerk (map NStr es), cfg))"

section \<open>Servers of the groups\<close>

definition set_group :: "nat \<Rightarrow> group \<Rightarrow> sk_config \<Rightarrow> sk_config" where
  "set_group gi gg cfg = cfg\<lparr>groups := (groups cfg)[gi := gg]\<rparr>"

definition k_disable :: "string \<Rightarrow> sk_config \<Rightarrow> sk_config" where
  "k_disable e cfg = cfg\<lparr>knet := Enable (NStr e) False (knet cfg)\<rparr>"

definition k_new_persister :: "nat \<Rightarrow> nat \<Rightarrow> Persister \<Rightarrow> sk_config \<Rightarrow> sk_config" where
  "k_new_persister gi i p cfg = (let gg = groups cfg ! gi in set_group gi (gg\<lparr>ggsaved := (ggsaved gg)[i := Some (kpnext cfg)]\<rparr>)
     (cfg\<lparr>kpheap := (kpheap cfg)(kpnext cfg := p), kpnext := kpnext cfg + 1\<rparr>))"

definition k_kill :: "nat \<Rightarrow> nat \<Rightarrow> sk_config \<Rightarrow> sk_config" where
  "k_kill gi i cfg = (let gg = groups cfg ! gi in case ggservers gg ! i of None \<Rightarrow> cfg
     | Some a \<Rightarrow> (let rf = kRf (kobjs cfg a) in set_group gi (gg\<lparr>ggservers := (ggservers gg)[i := None]\<rparr>)
         (cfg\<lparr>kobjs := (kobjs cfg)(a := ShardKV_Kill (kobjs cfg a)), krheap := (krheap cfg)(rf := Kill (krheap cfg rf))\<rparr>)))"

definition sk_ShutdownServer :: "nat \<Rightarrow> nat \<Rightarrow> sk_config \<Rightarrow> fatal + sk_config" where
  "sk_ShutdownServer gi i cfg = (if gi \<ge> length (groups cfg) then Inl bounds else let gg = groups cfg ! gi in
     if length (ggservers gg) > 0 \<and> (i \<ge> length (ggends gg) \<or> length (ggends gg ! i) < length (ggservers gg)) \<or> i \<ge> length (ggmends gg)
       \<or> i \<ge> length (ggsaved gg) then Inl bounds else
     let cfg = fold (\<lambda>j. k_disable (ggends gg ! i ! j)) [0..<length (ggservers gg)] cfg;
         cfg = fold k_disable (ggmends gg ! i) cfg;
         cfg = cfg\<lparr>knet := DeleteServer (NStr (servername (ggid gg) i)) (knet cfg)\<rparr>;
         cfg = (case ggsaved gg ! i of None \<Rightarrow> cfg | Some a \<Rightarrow> k_new_persister gi i (Copy (kpheap cfg a)) cfg) in
     Inr (k_kill gi i cfg))"

definition ShutdownGroup :: "nat \<Rightarrow> sk_config \<Rightarrow> fatal + sk_config" where
  "ShutdownGroup gi cfg = for_each (sk_ShutdownServer gi) [0..<kn cfg] cfg"

text \<open>\<open>StartServer\<close>: the ends to the group, the ends to the controllers, the persister, and the server.\<close>

definition start_group_ends :: "nat \<Rightarrow> nat \<Rightarrow> sk_config \<Rightarrow> fatal + string list \<times> sk_config" where
  "start_group_ends gi i cfg = (let gg = groups cfg ! gi in if i \<ge> length (ggends gg) then Inl bounds else
     andThen (open_ends (map (servername (ggid gg)) [0..<kn cfg]) cfg) (\<lambda>(es, cfg).
       Inr (es, set_group gi ((groups cfg ! gi)\<lparr>ggends := (ggends gg)[i := es]\<rparr>) cfg)))"

definition start_ctrler_ends :: "nat \<Rightarrow> nat \<Rightarrow> sk_config \<Rightarrow> fatal + string list \<times> sk_config" where
  "start_ctrler_ends gi i cfg = (let gg = groups cfg ! gi in if i \<ge> length (ggmends gg) then Inl bounds else
     andThen (ctrler_ends cfg) (\<lambda>(es, cfg).
       Inr (es, set_group gi ((groups cfg ! gi)\<lparr>ggmends := (ggmends gg)[i := es]\<rparr>) cfg)))"

definition start_kv :: "nat \<Rightarrow> nat \<Rightarrow> string list \<Rightarrow> string list \<Rightarrow> sk_config \<Rightarrow> sk_config" where
  "start_kv gi i es mes cfg = (let gg = groups cfg ! gi; p = the (ggsaved gg ! i); rf = krnext cfg; obj = konext cfg; srv = knnext cfg in
     set_group gi (gg\<lparr>ggservers := (ggservers gg)[i := Some obj]\<rparr>)
       (cfg\<lparr>krheap := (krheap cfg)(rf := Make (map NStr es) i p (kpheap cfg p)), krnext := rf + 1,
         kobjs := (kobjs cfg)(obj := ShardKV_StartServer i rf (kmaxraftstate cfg) (ggid gg) (map NStr mes)), konext := obj + 1,
         knsrv := (knsrv cfg)(srv := (obj, rf)), knnext := srv + 1, knet := AddServer (NStr (servername (ggid gg) i)) srv (knet cfg)\<rparr>))"

definition sk_StartServer :: "nat \<Rightarrow> nat \<Rightarrow> sk_config \<Rightarrow> fatal + sk_config" where
  "sk_StartServer gi i cfg = (if gi \<ge> length (groups cfg) then Inl bounds else
     andThen (start_group_ends gi i cfg) (\<lambda>(es, cfg). andThen (start_ctrler_ends gi i cfg) (\<lambda>(mes, cfg).
     let cfg = k_new_persister gi i (case ggsaved (groups cfg ! gi) ! i of None \<Rightarrow> MakePersister | Some a \<Rightarrow> Copy (kpheap cfg a)) cfg in
     Inr (start_kv gi i es mes cfg))))"

definition StartGroup :: "nat \<Rightarrow> sk_config \<Rightarrow> fatal + sk_config" where
  "StartGroup gi cfg = for_each (sk_StartServer gi) [0..<kn cfg] cfg"

section \<open>Controllers\<close>

definition StartCtrlerserver :: "nat \<Rightarrow> sk_config \<Rightarrow> fatal + sk_config" where
  "StartCtrlerserver i cfg = andThen (ctrler_ends cfg) (\<lambda>(es, cfg).
     if i \<ge> length (kctrlers cfg) then Inl bounds else
     let p = kpnext cfg; rf = krnext cfg; obj = kconext cfg; srv = knnext cfg in
     Inr (cfg\<lparr>kpheap := (kpheap cfg)(p := MakePersister), kpnext := p + 1,
       krheap := (krheap cfg)(rf := Make (map NStr es) i p MakePersister), krnext := rf + 1,
       kcobjs := (kcobjs cfg)(obj := sc_StartServer i rf), kconext := obj + 1, kctrlers := (kctrlers cfg)[i := Some obj],
       knsrv := (knsrv cfg)(srv := (obj, rf)), knnext := srv + 1, knet := AddServer (NStr (ctrlername i)) srv (knet cfg)\<rparr>))"

definition k_kill_ctrler :: "nat \<Rightarrow> sk_config \<Rightarrow> fatal + sk_config" where
  "k_kill_ctrler i cfg = (if i \<ge> length (kctrlers cfg) then Inl bounds else case kctrlers cfg ! i of None \<Rightarrow> Inl (Panic ''nil pointer dereference'')
     | Some a \<Rightarrow> (let rf = ShardCtrler_Raft (kcobjs cfg a) in Inr (cfg\<lparr>krheap := (krheap cfg)(rf := Kill (krheap cfg rf))\<rparr>)))"

definition sk_cleanup :: "bool \<Rightarrow> int \<Rightarrow> sk_config \<Rightarrow> fatal + sk_config" where
  "sk_cleanup failed now cfg = andThen (for_each ShutdownGroup [0..<ngroups cfg] cfg) (\<lambda>cfg.
     andThen (for_each k_kill_ctrler [0..<nctrlers cfg] cfg) (\<lambda>cfg.
     andThen (Cleanup (knet cfg)) (\<lambda>rn. sk_checkTimeout failed now (cfg\<lparr>knet := rn\<rparr>))))"

text \<open>\<open>joinm\<close> and \<open>leavem\<close>: the arguments of the calls of the controller's clerk, which are an oracle from call \<open>k\<close> on.\<close>

definition joinm_servers :: "nat list \<Rightarrow> sk_config \<Rightarrow> fatal + (int \<times> string list) list" where
  "joinm_servers gis cfg = for_each (\<lambda>g m. if g \<ge> length (groups cfg) then Inl bounds
     else let gid = ggid (groups cfg ! g) in Inr (AList.update (int gid) (map (servername gid) [0..<kn cfg]) m)) gis []"

definition joinm :: "(nat \<Rightarrow> name \<Rightarrow> JoinArgs \<Rightarrow> CtrlerReply option) \<Rightarrow> nat list \<Rightarrow> sk_config \<Rightarrow> nat \<Rightarrow> fatal + nat option" where
  "joinm call gis cfg k = andThen (joinm_servers gis cfg) (\<lambda>m. Inr (Clerk_Join call (mck cfg) m k))"

definition join where
  "join call gi cfg k = joinm call [gi] cfg k"

definition leavem_gids :: "nat list \<Rightarrow> sk_config \<Rightarrow> fatal + int list" where
  "leavem_gids gis cfg = for_each (\<lambda>g gids. if g \<ge> length (groups cfg) then Inl bounds else Inr (gids @ [int (ggid (groups cfg ! g))])) gis []"

definition leavem :: "(nat \<Rightarrow> name \<Rightarrow> LeaveArgs \<Rightarrow> CtrlerReply option) \<Rightarrow> nat list \<Rightarrow> sk_config \<Rightarrow> nat \<Rightarrow> fatal + nat option" where
  "leavem call gis cfg k = andThen (leavem_gids gis cfg) (\<lambda>gids. Inr (Clerk_Leave call (mck cfg) gids k))"

definition leave where
  "leave call gi cfg k = leavem call [gi] cfg k"

section \<open>Creation\<close>

definition k_empty :: "int \<Rightarrow> (nat \<Rightarrow> string) \<Rightarrow> int \<Rightarrow> sk_config" where
  "k_empty maxraftstate rnd now = \<lparr>knet = MakeNetwork, kstart = now, nctrlers = 3, kctrlers = replicate 3 None,
     mck = MakeCtrlerClerk [], ngroups = 3, kn = 0, groups = [], kclerks = [], knextClientId = 0, kmaxraftstate = maxraftstate,
     kRand = rnd, kDrawn = 0, kpheap = (\<lambda>_. MakePersister), kpnext = 0, krheap = (\<lambda>_. \<lparr>peers = [], persister = 0, me = 0, dead = 0\<rparr>),
     krnext = 0, kobjs = (\<lambda>_. ShardKV_StartServer 0 0 0 0 []), konext = 0, kcobjs = (\<lambda>_. sc_StartServer 0 0), kconext = 0,
     kclerkObjs = (\<lambda>_. MakeCtrlerClerk []), kcnext = 0, knsrv = (\<lambda>_. (0, 0)), knnext = 0\<rparr>"

text \<open>The group \<open>gi\<close>, appended to those before it; \<open>mendnames\<close> has an element per controller, not per server.\<close>

definition make_group :: "nat \<Rightarrow> sk_config \<Rightarrow> fatal + sk_config" where
  "make_group gi cfg = (let n = kn cfg; gg = \<lparr>ggid = 100 + gi, ggservers = replicate n None, ggsaved = replicate n None,
       ggends = replicate n [], ggmends = replicate (nctrlers cfg) []\<rparr> in
     for_each (sk_StartServer gi) [0..<n] (cfg\<lparr>groups := groups cfg @ [gg]\<rparr>))"

definition sk_make_config :: "nat \<Rightarrow> bool \<Rightarrow> int \<Rightarrow> (nat \<Rightarrow> string) \<Rightarrow> int \<Rightarrow> fatal + sk_config" where
  "sk_make_config n unreliable maxraftstate rnd now =
     andThen (for_each StartCtrlerserver [0..<3] (k_empty maxraftstate rnd now)) (\<lambda>cfg.
     andThen (shardclerk cfg) (\<lambda>(ck, cfg).
     andThen (for_each make_group [0..<3] (cfg\<lparr>mck := ck, kn := n\<rparr>)) (\<lambda>cfg.
     Inr (cfg\<lparr>knextClientId := int n + 1000, knet := Reliable (\<not> unreliable) (knet cfg)\<rparr>))))"

section \<open>The sizes a configuration supports\<close>

text \<open>No end has a name that is still to be drawn, and the drawn strings differ.\<close>

definition fresh :: "sk_config \<Rightarrow> bool" where
  "fresh cfg \<longleftrightarrow> inj (kRand cfg) \<and> set (ends (knet cfg)) \<subseteq> (\<lambda>k. NStr (kRand cfg k)) ` {..<kDrawn cfg}"

definition gsize :: "group \<Rightarrow> nat \<times> nat" where
  "gsize g = (length (ggends g), length (ggmends g))"

definition sizes :: "sk_config \<Rightarrow> nat \<times> nat \<times> nat \<times> (nat \<times> nat) list" where
  "sizes cfg = (nctrlers cfg, kn cfg, length (kctrlers cfg), map gsize (groups cfg))"

lemma open_end_total:
  assumes "fresh cfg"
  shows "\<exists>e cfg'. open_end t cfg = Inr (e, cfg') \<and> fresh cfg' \<and> sizes cfg' = sizes cfg \<and> groups cfg' = groups cfg"
proof -
  have "NStr (kRand cfg (kDrawn cfg)) \<notin> set (ends (knet cfg))"
  proof
    assume "NStr (kRand cfg (kDrawn cfg)) \<in> set (ends (knet cfg))"
    then obtain k where "k < kDrawn cfg" "kRand cfg k = kRand cfg (kDrawn cfg)" using assms by (fastforce simp: fresh_def)
    moreover have "inj (kRand cfg)" using assms by (simp add: fresh_def)
    ultimately show False by (auto dest: injD)
  qed
  then show ?thesis using assms
    by (auto simp: open_end_def Let_def MakeEnd_def fresh_def Enable_def Connect_def sizes_def lessThan_Suc)
qed

lemma open_ends_total:
  "fresh cfg \<Longrightarrow> \<exists>es cfg'. open_ends ts cfg = Inr (es, cfg') \<and> fresh cfg' \<and> sizes cfg' = sizes cfg \<and> groups cfg' = groups cfg"
proof (induction ts arbitrary: cfg)
  case (Cons t ts)
  from open_end_total [OF Cons.prems] obtain e c where c: "open_end t cfg = Inr (e, c)" "fresh c" "sizes c = sizes cfg" "groups c = groups cfg"
    by blast
  from Cons.IH [OF c(2)] obtain es c' where "open_ends ts c = Inr (es, c')" "fresh c'" "sizes c' = sizes c" "groups c' = groups c" by blast
  with c show ?case by simp
qed auto

lemma fresh_set_group [simp]: "fresh (set_group gi g cfg) = fresh cfg"
  by (simp add: fresh_def set_group_def)

lemma sizes_set_group: "gi < length (groups cfg) \<Longrightarrow> gsize g = gsize (groups cfg ! gi) \<Longrightarrow> sizes (set_group gi g cfg) = sizes cfg"
  by (simp add: sizes_def set_group_def map_update list_update_same_conv)

lemma sizes_groups: "sizes c = sizes cfg \<Longrightarrow> length (groups c) = length (groups cfg) \<and> (gi < length (groups cfg) \<longrightarrow> gsize (groups c ! gi) = gsize (groups cfg ! gi))"
  unfolding sizes_def by (metis Pair_inject length_map nth_map)

lemma start_group_ends_total:
  assumes "fresh cfg" and "gi < length (groups cfg)" and "i < length (ggends (groups cfg ! gi))"
  shows "\<exists>es cfg'. start_group_ends gi i cfg = Inr (es, cfg') \<and> fresh cfg' \<and> sizes cfg' = sizes cfg"
proof -
  from open_ends_total [OF assms(1)] obtain es c where
    c: "open_ends (map (servername (ggid (groups cfg ! gi))) [0..<kn cfg]) cfg = Inr (es, c)" "fresh c" "sizes c = sizes cfg" "groups c = groups cfg" by blast
  then have "sizes (set_group gi ((groups cfg ! gi)\<lparr>ggends := (ggends (groups cfg ! gi))[i := es]\<rparr>) c) = sizes c"
    using assms(2) by (intro sizes_set_group) (simp_all add: gsize_def)
  with c show ?thesis using assms(3) by (simp add: start_group_ends_def Let_def)
qed

lemma start_ctrler_ends_total:
  assumes "fresh cfg" and "gi < length (groups cfg)" and "i < length (ggmends (groups cfg ! gi))"
  shows "\<exists>es cfg'. start_ctrler_ends gi i cfg = Inr (es, cfg') \<and> fresh cfg' \<and> sizes cfg' = sizes cfg"
proof -
  from open_ends_total [OF assms(1)] obtain es c where
    c: "ctrler_ends cfg = Inr (es, c)" "fresh c" "sizes c = sizes cfg" "groups c = groups cfg" unfolding ctrler_ends_def by blast
  then have "sizes (set_group gi ((groups cfg ! gi)\<lparr>ggmends := (ggmends (groups cfg ! gi))[i := es]\<rparr>) c) = sizes c"
    using assms(2) by (intro sizes_set_group) (simp_all add: gsize_def)
  with c show ?thesis using assms(3) by (simp add: start_ctrler_ends_def Let_def)
qed

lemma k_new_persister_frame:
  "gi < length (groups cfg) \<Longrightarrow> sizes (k_new_persister gi i p cfg) = sizes cfg \<and> fresh (k_new_persister gi i p cfg) = fresh cfg"
  by (simp add: k_new_persister_def Let_def sizes_def set_group_def fresh_def map_update list_update_same_conv gsize_def)

lemma start_kv_frame:
  "gi < length (groups cfg) \<Longrightarrow> sizes (start_kv gi i es mes cfg) = sizes cfg \<and> fresh (start_kv gi i es mes cfg) = fresh cfg"
  by (simp add: start_kv_def Let_def sizes_def set_group_def fresh_def map_update list_update_same_conv gsize_def AddServer_def)

text \<open>A server of group \<open>gi\<close> starts exactly when its index is in the range of both slices of names.\<close>

lemma sk_StartServer_total:
  assumes "fresh cfg" and "gi < length (groups cfg)" and "gsize (groups cfg ! gi) = (a, b)" and "i < a" "i < b"
  shows "\<exists>cfg'. sk_StartServer gi i cfg = Inr cfg' \<and> fresh cfg' \<and> sizes cfg' = sizes cfg"
proof -
  have "i < length (ggends (groups cfg ! gi))" using assms(3,4) by (simp add: gsize_def)
  from start_group_ends_total [OF assms(1,2) this] obtain es c where
    c: "start_group_ends gi i cfg = Inr (es, c)" "fresh c" "sizes c = sizes cfg" by blast
  with sizes_groups [OF c(3), of gi] assms(2,3) have g: "gi < length (groups c)" "length (ggmends (groups c ! gi)) = b" by (simp_all add: gsize_def)
  from g(2) assms(5) have "i < length (ggmends (groups c ! gi))" by simp
  from start_ctrler_ends_total [OF c(2) g(1) this] obtain mes d where
    d: "start_ctrler_ends gi i c = Inr (mes, d)" "fresh d" "sizes d = sizes c" by blast
  then have l: "gi < length (groups d)" using sizes_groups g(1) by metis
  let ?p = "k_new_persister gi i (case ggsaved (groups d ! gi) ! i of None \<Rightarrow> MakePersister | Some a \<Rightarrow> Copy (kpheap d a)) d"
  from k_new_persister_frame [OF l] have p: "sizes ?p = sizes d" "fresh ?p" using d(2) by simp_all
  then have "gi < length (groups ?p)" using sizes_groups l by metis
  from start_kv_frame [OF this] p c d show ?thesis using assms(2) by (simp add: sk_StartServer_def)
qed

lemma sk_StartServer_out:
  assumes "fresh cfg" and "gi < length (groups cfg)" and "gsize (groups cfg ! gi) = (a, b)" and "i < a" "b \<le> i"
  shows "sk_StartServer gi i cfg = Inl bounds"
proof -
  have "i < length (ggends (groups cfg ! gi))" using assms(3,4) by (simp add: gsize_def)
  from start_group_ends_total [OF assms(1,2) this] obtain es c where
    c: "start_group_ends gi i cfg = Inr (es, c)" "fresh c" "sizes c = sizes cfg" by blast
  with sizes_groups [OF c(3), of gi] assms(2,3) have "length (ggmends (groups c ! gi)) = b" by (simp add: gsize_def)
  with c show ?thesis using assms(2,5) by (simp add: sk_StartServer_def start_ctrler_ends_def Let_def)
qed

lemma start_servers_total:
  assumes "fresh cfg" and "gi < length (groups cfg)" and "gsize (groups cfg ! gi) = (a, b)" and "k \<le> a" "k \<le> b"
  shows "\<exists>cfg'. for_each (sk_StartServer gi) [0..<k] cfg = Inr cfg' \<and> fresh cfg' \<and> sizes cfg' = sizes cfg"
proof -
  have "\<exists>c'. sk_StartServer gi i c = Inr c' \<and> fresh c' \<and> sizes c' = sizes cfg"
    if "i \<in> set [0..<k]" "fresh c \<and> sizes c = sizes cfg" for i c
  proof -
    from that have "gi < length (groups c)" "gsize (groups c ! gi) = (a, b)" using sizes_groups [of c cfg gi] assms(2,3) by simp_all
    from sk_StartServer_total [OF _ this, of i] that assms(4,5) show ?thesis by simp
  qed
  then show ?thesis using assms(1) for_each_total [where P = "\<lambda>c. fresh c \<and> sizes c = sizes cfg"] by blast
qed

lemma make_group_total:
  assumes "fresh cfg" and "sizes cfg = (3, n, 3, ss)" and "length ss = gi"
  shows "n \<le> 3 \<Longrightarrow> \<exists>cfg'. make_group gi cfg = Inr cfg' \<and> fresh cfg' \<and> sizes cfg' = (3, n, 3, ss @ [(n, 3)])"
    and "3 < n \<Longrightarrow> make_group gi cfg = Inl bounds"
proof -
  let ?g = "\<lparr>ggid = 100 + gi, ggservers = replicate n None, ggsaved = replicate n None, ggends = replicate n [], ggmends = replicate 3 []\<rparr>"
  let ?c = "cfg\<lparr>groups := groups cfg @ [?g]\<rparr>"
  from assms have n: "kn cfg = n" "nctrlers cfg = 3" "length (groups cfg) = gi" by (auto simp: sizes_def)
  then have m: "make_group gi cfg = for_each (sk_StartServer gi) [0..<n] ?c" by (simp add: make_group_def Let_def)
  have f: "fresh ?c" using assms(1) by (simp add: fresh_def)
  have g: "gi < length (groups ?c)" "gsize (groups ?c ! gi) = (n, 3)" using n by (simp_all add: gsize_def nth_append)
  have s: "sizes ?c = (3, n, 3, ss @ [(n, 3)])" using assms(2) by (auto simp: sizes_def gsize_def)
  show "\<exists>cfg'. make_group gi cfg = Inr cfg' \<and> fresh cfg' \<and> sizes cfg' = (3, n, 3, ss @ [(n, 3)])" if "n \<le> 3"
    using start_servers_total [OF f g, of n] that unfolding m s by simp
  show "make_group gi cfg = Inl bounds" if "3 < n"
  proof -
    from start_servers_total [OF f g, of 3] that obtain d where d: "for_each (sk_StartServer gi) [0..<3] ?c = Inr d" "fresh d" "sizes d = sizes ?c"
      by auto
    from sizes_groups [OF d(3), of gi] g have "gi < length (groups d)" "gsize (groups d ! gi) = (n, 3)" by simp_all
    from sk_StartServer_out [OF d(2) this, of 3] that have "sk_StartServer gi 3 d = Inl bounds" by simp
    moreover have "[0..<n] = [0..<3] @ 3 # [4..<n]" using that upt_add_eq_append [of 0 3 "n - 3"] upt_conv_Cons [of 3 n] by simp
    ultimately show ?thesis unfolding m using d(1) by (simp add: for_each_append)
  qed
qed

lemma StartCtrlerserver_total:
  assumes "fresh cfg" and "i < length (kctrlers cfg)"
  shows "\<exists>cfg'. StartCtrlerserver i cfg = Inr cfg' \<and> fresh cfg' \<and> sizes cfg' = sizes cfg"
proof -
  from open_ends_total [OF assms(1)] obtain es c where c: "ctrler_ends cfg = Inr (es, c)" "fresh c" "sizes c = sizes cfg"
    unfolding ctrler_ends_def by blast
  then have "length (kctrlers c) = length (kctrlers cfg)" by (simp add: sizes_def)
  with c assms(2) show ?thesis by (simp add: StartCtrlerserver_def Let_def fresh_def sizes_def AddServer_def)
qed

lemma controllers_total:
  assumes "inj rnd"
  shows "\<exists>c ck cfg. for_each StartCtrlerserver [0..<3] (k_empty m rnd now) = Inr c \<and> shardclerk c = Inr (ck, cfg)
    \<and> fresh (cfg\<lparr>mck := ck, kn := n\<rparr>) \<and> sizes (cfg\<lparr>mck := ck, kn := n\<rparr>) = (3, n, 3, [])"
proof -
  let ?e = "k_empty m rnd now"
  have e: "fresh ?e" "sizes ?e = (3, 0, 3, [])" using assms by (simp_all add: fresh_def sizes_def k_empty_def MakeNetwork_def)
  have "\<exists>c'. StartCtrlerserver i c = Inr c' \<and> fresh c' \<and> sizes c' = sizes ?e" if "i \<in> set [0..<3]" "fresh c \<and> sizes c = sizes ?e" for i c
  proof -
    have "i < length (kctrlers c)" using that e(2) by (simp add: sizes_def)
    then show ?thesis using StartCtrlerserver_total [of c i] that by simp
  qed
  then obtain c where c: "for_each StartCtrlerserver [0..<3] ?e = Inr c" "fresh c" "sizes c = sizes ?e"
    using e(1) for_each_total [where P = "\<lambda>c. fresh c \<and> sizes c = sizes ?e" and f = StartCtrlerserver] by blast
  from open_ends_total [OF c(2)] obtain es d where "ctrler_ends c = Inr (es, d)" "fresh d" "sizes d = sizes c"
    unfolding ctrler_ends_def by blast
  then show ?thesis using c e(2) by (simp add: shardclerk_def fresh_def sizes_def)
qed

lemma make_groups_total:
  assumes "fresh cfg" and "sizes cfg = (3, n, 3, [])"
  shows "n \<le> 3 \<Longrightarrow> \<exists>cfg' ss. for_each make_group [0..<3] cfg = Inr cfg' \<and> fresh cfg' \<and> sizes cfg' = (3, n, 3, ss)"
    and "3 < n \<Longrightarrow> for_each make_group [0..<3] cfg = Inl bounds"
proof -
  have u: "[0..<3] = [0, 1, 2::nat]" by (simp add: upt_rec)
  show "3 < n \<Longrightarrow> for_each make_group [0..<3] cfg = Inl bounds" using make_group_total(2) [OF assms] by (simp add: u)
  assume n: "n \<le> 3"
  from make_group_total(1) [OF assms _ n] obtain c where c: "make_group 0 cfg = Inr c" "fresh c" "sizes c = (3, n, 3, [(n, 3)])" by auto
  from make_group_total(1) [OF c(2,3) _ n, of 1] obtain d where d: "make_group 1 c = Inr d" "fresh d" "sizes d = (3, n, 3, [(n, 3), (n, 3)])" by auto
  from make_group_total(1) [OF d(2,3) _ n, of 2] obtain e where "make_group 2 d = Inr e" "fresh e" "sizes e = (3, n, 3, [(n, 3), (n, 3), (n, 3)])" by auto
  with c d show "\<exists>cfg' ss. for_each make_group [0..<3] cfg = Inr cfg' \<and> fresh cfg' \<and> sizes cfg' = (3, n, 3, ss)" by (simp add: u)
qed

lemma client_ends:
  assumes "fresh cfg" and "k \<le> n"
  shows "\<exists>endnames es cfg'. for_each client_end [0..<k] (replicate n [], [], cfg) = Inr (endnames, es, cfg')
    \<and> length endnames = n \<and> fresh cfg'"
  using assms(2)
proof (induction k)
  case 0
  then show ?case using assms(1) by simp
next
  case (Suc k)
  then obtain endnames es c where c: "for_each client_end [0..<k] (replicate n [], [], cfg) = Inr (endnames, es, c)"
    "length endnames = n" "fresh c" by auto
  from open_end_total [OF c(3)] obtain e d where d: "open_end (ctrlername k) c = Inr (e, d)" "fresh d" by blast
  have "client_end k (endnames, es, c) = Inr (endnames[k := e], es @ [e], d)"
    using c(2) d(1) Suc.prems by (simp add: client_end_def)
  with c d(2) show ?case by (simp add: for_each_snoc)
qed

lemma sk_makeClient_bounds:
  assumes "fresh cfg"
  shows "sk_makeClient cfg = Inl bounds \<longleftrightarrow> kn cfg < nctrlers cfg" and "nctrlers cfg \<le> kn cfg \<Longrightarrow> \<exists>r. sk_makeClient cfg = Inr r"
proof -
  have out: "sk_makeClient cfg = Inl bounds" if "kn cfg < nctrlers cfg"
  proof -
    from client_ends [OF assms order.refl] obtain endnames es c where
      c: "for_each client_end [0..<kn cfg] (replicate (kn cfg) [], [], cfg) = Inr (endnames, es, c)" "length endnames = kn cfg" by blast
    have "[0..<nctrlers cfg] = [0..<kn cfg] @ kn cfg # [Suc (kn cfg)..<nctrlers cfg]"
      using that by (metis less_imp_add_positive upt_add_eq_append upt_conv_Cons zero_le less_imp_le le_add_diff_inverse)
    moreover have "client_end (kn cfg) (endnames, es, c) = Inl bounds" using c(2) by (simp add: client_end_def)
    ultimately show ?thesis using c by (simp add: sk_makeClient_def for_each_append)
  qed
  have ok: "\<exists>r. sk_makeClient cfg = Inr r" if "nctrlers cfg \<le> kn cfg"
    using client_ends [OF assms that] by (auto simp: sk_makeClient_def Let_def)
  show "\<exists>r. sk_makeClient cfg = Inr r" if "nctrlers cfg \<le> kn cfg" by (rule ok [OF that])
  show "sk_makeClient cfg = Inl bounds \<longleftrightarrow> kn cfg < nctrlers cfg" using out ok by (cases "kn cfg < nctrlers cfg") auto
qed

text \<open>
  (C40) The tester of the sharded service works for groups of three servers only: with random names that
  never repeat, \<open>make_config\<close> panics exactly when a group has more than three servers, because \<open>mendnames\<close>
  has an element per controller but is indexed by server; and on a configuration that it made
  \<open>makeClient\<close> panics exactly when a group has fewer than three, because \<open>endnames\<close> has an element per
  server but is indexed by controller.
\<close>

theorem shardkv_tester_sizes:
  assumes "inj rnd"
  shows "(sk_make_config n unreliable m rnd now = Inl bounds \<longleftrightarrow> 3 < n)
    \<and> (n \<le> 3 \<longrightarrow> (\<exists>cfg. sk_make_config n unreliable m rnd now = Inr cfg
        \<and> (sk_makeClient cfg = Inl bounds \<longleftrightarrow> n < 3) \<and> (3 \<le> n \<longrightarrow> (\<exists>r. sk_makeClient cfg = Inr r))))"
proof -
  from controllers_total [OF assms] obtain c ck d where c: "for_each StartCtrlerserver [0..<3] (k_empty m rnd now) = Inr c"
    "shardclerk c = Inr (ck, d)" "fresh (d\<lparr>mck := ck, kn := n\<rparr>)" "sizes (d\<lparr>mck := ck, kn := n\<rparr>) = (3, n, 3, [])" by blast
  have out: "3 < n \<Longrightarrow> sk_make_config n unreliable m rnd now = Inl bounds"
    using make_groups_total(2) [OF c(3,4)] c(1,2) by (simp add: sk_make_config_def)
  have "\<exists>cfg. sk_make_config n unreliable m rnd now = Inr cfg
        \<and> (sk_makeClient cfg = Inl bounds \<longleftrightarrow> n < 3) \<and> (3 \<le> n \<longrightarrow> (\<exists>r. sk_makeClient cfg = Inr r))" if n: "n \<le> 3"
  proof -
    from make_groups_total(1) [OF c(3,4) n] obtain e ss where
      e: "for_each make_group [0..<3] (d\<lparr>mck := ck, kn := n\<rparr>) = Inr e" "fresh e" "sizes e = (3, n, 3, ss)" by blast
    let ?cfg = "e\<lparr>knextClientId := int n + 1000, knet := Reliable (\<not> unreliable) (knet e)\<rparr>"
    have f: "fresh ?cfg" "nctrlers ?cfg = 3" "kn ?cfg = n" using e(2,3) by (auto simp: fresh_def sizes_def Reliable_def)
    from sk_makeClient_bounds [OF f(1)] have "sk_makeClient ?cfg = Inl bounds \<longleftrightarrow> n < 3" "3 \<le> n \<longrightarrow> (\<exists>r. sk_makeClient ?cfg = Inr r)"
      unfolding f(2,3) by simp_all
    moreover have "sk_make_config n unreliable m rnd now = Inr ?cfg" using c(1,2) e(1) by (simp add: sk_make_config_def)
    ultimately show ?thesis by blast
  qed
  then show ?thesis using out by (cases "n \<le> 3") auto
qed

theorem shardkv_tester_sizes_witness:
  "\<exists>cfg r. sk_make_config 3 False (- 1) (\<lambda>k. replicate k CHR ''x'') 0 = Inr cfg \<and> sk_makeClient cfg = Inr r"
proof -
  have "inj (\<lambda>k. replicate k CHR ''x'')" by (rule injI) (auto dest: arg_cong [where f = length])
  from shardkv_tester_sizes [OF this, of 3 False "- 1" 0] show ?thesis by auto
qed

end
