(* ===== verification/Visualization.thy ===== *)
theory Visualization
  imports CheckerProps GoResult
begin

text \<open>
  \<open>computeVisualizationData\<close> of \<open>porcupine/visualization.go\<close>: what the checker recorded about each
  partition becomes the data of the web page: the operations with their times and descriptions, the
  partial linearizations with the state after each step, and for each operation the largest partial
  linearization that contains it. The JSON rendering and the writing of the page are not modelled.
\<close>

section \<open>The code\<close>

record historyElement =
  heClientId :: int
  heStart :: int
  heEnd :: int
  heDescription :: string

record linearizationStep =
  lsIndex :: int
  lsStateDescription :: string

type_synonym partialLinearization = "linearizationStep list"

record partitionVisualizationData =
  pvHistory :: "historyElement list"
  pvPartialLinearizations :: "partialLinearization list"
  pvLargest :: "int \<rightharpoonup> nat"

text \<open>The three ways to panic: an index out of range, a function of the model, a refused step.\<close>

datatype vis_panic = IndexOutOfRange | ModelPanics | NonOkStep

text \<open>A missing key of a map reads as the zero value: \<open>nil\<close> for values, 0 for sizes.\<close>

definition value_of :: "(int \<rightharpoonup> 'v option) \<Rightarrow> int \<Rightarrow> 'v option" where
  "value_of m k = (case m k of None \<Rightarrow> None | Some v \<Rightarrow> v)"

definition size_of :: "(int \<rightharpoonup> nat) \<Rightarrow> int \<Rightarrow> nat" where
  "size_of m k = (case m k of None \<Rightarrow> 0 | Some n \<Rightarrow> n)"

definition describe_operation :: "('v, 's) Model \<Rightarrow> 'v option \<Rightarrow> 'v option \<Rightarrow> vis_panic + string" where
  "describe_operation model input output = (case DescribeOperation model of None \<Rightarrow> Inl ModelPanics
     | Some f \<Rightarrow> (case f input output of None \<Rightarrow> Inl ModelPanics | Some d \<Rightarrow> Inr d))"

text \<open>The body of the loop over the entries of a partition.\<close>

definition history_entry :: "('v, 's) Model \<Rightarrow> 'v entry
    \<Rightarrow> historyElement list \<times> (int \<rightharpoonup> 'v option) \<times> (int \<rightharpoonup> 'v option)
    \<Rightarrow> vis_panic + historyElement list \<times> (int \<rightharpoonup> 'v option) \<times> (int \<rightharpoonup> 'v option)" where
  "history_entry model elem r = (case r of (history, callValue, returnValue) \<Rightarrow>
     let k = eid elem in
     if k < 0 \<or> int (length history) \<le> k then Inl IndexOutOfRange
     else (case kind elem of
       callEntry \<Rightarrow> Inr (history[nat k := (history ! nat k)\<lparr>heClientId := eclientId elem, heStart := etime elem\<rparr>],
         callValue(k \<mapsto> evalue elem), returnValue)
     | returnEntry \<Rightarrow> andThen (describe_operation model (value_of callValue k) (evalue elem)) (\<lambda>d.
         Inr (history[nat k := (history ! nat k)\<lparr>heEnd := etime elem, heDescription := d\<rparr>],
           callValue, returnValue(k \<mapsto> evalue elem)))))"

text \<open>The update of \<open>largestSize\<close> and \<open>largestIndex\<close>.\<close>

definition mark_largest :: "nat \<Rightarrow> nat \<Rightarrow> int \<Rightarrow> (int \<rightharpoonup> nat) \<times> (int \<rightharpoonup> nat) \<Rightarrow> (int \<rightharpoonup> nat) \<times> (int \<rightharpoonup> nat)" where
  "mark_largest len i histId r = (case r of (largestSize, largestIndex) \<Rightarrow>
     if size_of largestSize histId < len then (largestSize(histId \<mapsto> len), largestIndex(histId \<mapsto> i))
     else (largestSize, largestIndex))"

text \<open>The body of the loop over the operations of the partial linearization number \<open>i\<close>.\<close>

definition partial_step :: "('v, 's) Model \<Rightarrow> (int \<rightharpoonup> 'v option) \<Rightarrow> (int \<rightharpoonup> 'v option) \<Rightarrow> nat \<Rightarrow> nat \<Rightarrow> int
    \<Rightarrow> 's \<times> partialLinearization \<times> (int \<rightharpoonup> nat) \<times> (int \<rightharpoonup> nat)
    \<Rightarrow> vis_panic + 's \<times> partialLinearization \<times> (int \<rightharpoonup> nat) \<times> (int \<rightharpoonup> nat)" where
  "partial_step model callValue returnValue len i histId r = (case r of (state, linearization, largest) \<Rightarrow>
     case Step model state (value_of callValue histId) (value_of returnValue histId) of
       None \<Rightarrow> Inl ModelPanics
     | Some (ok, state) \<Rightarrow> if \<not> ok then Inl NonOkStep else
         (case DescribeState model of None \<Rightarrow> Inl ModelPanics | Some describe \<Rightarrow>
            Inr (state, linearization @ [\<lparr>lsIndex = histId, lsStateDescription = describe state\<rparr>],
              mark_largest len i histId largest)))"

definition partial_body :: "('v, 's) Model \<Rightarrow> (int \<rightharpoonup> 'v option) \<Rightarrow> (int \<rightharpoonup> 'v option) \<Rightarrow> nat \<times> int list
    \<Rightarrow> partialLinearization list \<times> (int \<rightharpoonup> nat) \<times> (int \<rightharpoonup> nat)
    \<Rightarrow> vis_panic + partialLinearization list \<times> (int \<rightharpoonup> nat) \<times> (int \<rightharpoonup> nat)" where
  "partial_body model callValue returnValue ip r = (case ip of (i, partial) \<Rightarrow> case r of (linearizations, largest) \<Rightarrow>
     andThen (for_each (partial_step model callValue returnValue (length partial) i) partial (Init model, [], largest))
       (\<lambda>(state, linearization, largest). Inr (linearizations @ [linearization], largest)))"

text \<open>
  One partition. The slice of its partial linearizations is sorted in place, longest first, which the
  caller of \<open>computeVisualizationData\<close> sees in its \<open>info\<close>.
\<close>

definition visualize_partition ::
  "((int list \<Rightarrow> int list \<Rightarrow> bool) \<Rightarrow> int list list \<Rightarrow> int list list) \<Rightarrow> ('v, 's) Model \<Rightarrow> nat
    \<Rightarrow> partitionVisualizationData list \<times> 'v linearizationInfo
    \<Rightarrow> vis_panic + partitionVisualizationData list \<times> 'v linearizationInfo" where
  "visualize_partition sort_slice model part r = (case r of (data, info) \<Rightarrow>
     let entries = infoHistory info ! part;
         n = length entries div 2;
         history = replicate n \<lparr>heClientId = 0, heStart = 0, heEnd = 0, heDescription = []\<rparr>
     in andThen (for_each (history_entry model) entries (history, Map.empty, Map.empty)) (\<lambda>(history, callValue, returnValue).
        if length (partialLinearizations info) \<le> part then Inl IndexOutOfRange else
        let partials = sort_slice (\<lambda>p q. length q < length p) (partialLinearizations info ! part)
        in andThen (for_each (partial_body model callValue returnValue) (enumerate 0 partials) ([], Map.empty, Map.empty))
          (\<lambda>(linearizations, largestSize, largestIndex).
             Inr (data[part := \<lparr>pvHistory = history, pvPartialLinearizations = linearizations, pvLargest = largestIndex\<rparr>],
               info\<lparr>partialLinearizations := (partialLinearizations info)[part := partials]\<rparr>))))"

definition computeVisualizationData ::
  "((int list \<Rightarrow> int list \<Rightarrow> bool) \<Rightarrow> int list list \<Rightarrow> int list list)
    \<Rightarrow> ('v option \<Rightarrow> 'v option \<Rightarrow> string option) \<Rightarrow> ('s \<Rightarrow> string) \<Rightarrow> ('v, 's) Model \<Rightarrow> 'v linearizationInfo
    \<Rightarrow> vis_panic + partitionVisualizationData list \<times> 'v linearizationInfo" where
  "computeVisualizationData sort_slice descOp descState model info =
     (let model = fillDefault descOp descState model;
          data = replicate (length (infoHistory info))
            \<lparr>pvHistory = [], pvPartialLinearizations = [], pvLargest = Map.empty\<rparr>
      in for_each (visualize_partition sort_slice model) [0..<length (infoHistory info)] (data, info))"

section \<open>The operations\<close>

definition shows_operation :: "('v, 's) Model \<Rightarrow> 'v entry list \<Rightarrow> nat \<Rightarrow> historyElement \<Rightarrow> bool" where
  "shows_operation m H k e \<longleftrightarrow> heClientId e = eclientId (H ! call_pos H k)
     \<and> heStart e = etime (H ! call_pos H k) \<and> heEnd e = etime (H ! return_pos H k)
     \<and> (\<exists>f. DescribeOperation m = Some f \<and> f (op_in H k) (op_out H k) = Some (heDescription e))"

definition describable :: "('v, 's) Model \<Rightarrow> 'v entry list \<Rightarrow> bool" where
  "describable m H \<longleftrightarrow> (\<exists>f. DescribeOperation m = Some f \<and> (\<forall>k<num_ops H. f (op_in H k) (op_out H k) \<noteq> None))"

text \<open>After the first \<open>t\<close> entries.\<close>

definition entries_read :: "('v, 's) Model \<Rightarrow> 'v entry list \<Rightarrow> nat
    \<Rightarrow> historyElement list \<times> (int \<rightharpoonup> 'v option) \<times> (int \<rightharpoonup> 'v option) \<Rightarrow> bool" where
  "entries_read m H t r \<longleftrightarrow> (case r of (hs, cv, rv) \<Rightarrow> length hs = num_ops H
     \<and> (\<forall>k<num_ops H. (call_pos H k < t \<longrightarrow> cv (int k) = Some (op_in H k)
            \<and> heClientId (hs ! k) = eclientId (H ! call_pos H k) \<and> heStart (hs ! k) = etime (H ! call_pos H k))
          \<and> (return_pos H k < t \<longrightarrow> rv (int k) = Some (op_out H k) \<and> heEnd (hs ! k) = etime (H ! return_pos H k)
            \<and> (\<exists>f. DescribeOperation m = Some f \<and> f (op_in H k) (op_out H k) = Some (heDescription (hs ! k))))))"

lemma history_entry_step:
  assumes wf: "wf_history H" and d: "describable m H" and t: "t < length H" and r: "entries_read m H t r"
  shows "\<exists>r'. history_entry m (H ! t) r = Inr r' \<and> entries_read m H (Suc t) r'"
proof -
  have len: "length H = 2 * num_ops H" using wf by (simp add: wf_history_def)
  obtain hs cv rv where eq: "r = (hs, cv, rv)" by (cases r)
  let ?k = "op_at H t"
  have k: "?k < num_ops H" "eid (H ! t) = int ?k" using op_at_less [OF wf] eid_op_at [OF wf] t len by simp_all
  have hs: "length hs = num_ops H" using r eq by (simp add: entries_read_def)
  note pos = wf_history_pos [OF wf]
  have calls: "call_pos H j < Suc t \<longleftrightarrow> call_pos H j < t \<or> call_pos H j = t"
    and returns: "return_pos H j < Suc t \<longleftrightarrow> return_pos H j < t \<or> return_pos H j = t" for j by auto
  show ?thesis
  proof (cases "kind (H ! t)")
    case callEntry
    then have c: "call_pos H ?k = t" using call_pos_op_at [OF wf] t len by simp
    have other: "call_pos H j = t \<longleftrightarrow> j = ?k" "return_pos H j \<noteq> t" if "j < num_ops H" for j
      using op_at_call [OF wf that] c pos(4) [OF that] callEntry by (auto simp: is_return_def)
    have "op_in H ?k = evalue (H ! t)" "H ! call_pos H ?k = H ! t" using c by (simp_all add: op_in_def)
    with r k hs c callEntry show ?thesis unfolding eq
      by (auto simp: history_entry_def Let_def entries_read_def calls returns other nth_list_update)
  next
    case returnEntry
    then have c: "return_pos H ?k = t" using return_pos_op_at [OF wf] t len by simp
    have other: "return_pos H j = t \<longleftrightarrow> j = ?k" "call_pos H j \<noteq> t" if "j < num_ops H" for j
      using op_at_return [OF wf that] c pos(3) [OF that] returnEntry by (auto simp: is_call_def)
    have out: "op_out H ?k = evalue (H ! t)" and at: "H ! return_pos H ?k = H ! t" using c by (simp_all add: op_out_def)
    have "call_pos H ?k < t" using pos(1) [OF k(1)] c by simp
    then have cv: "value_of cv (int ?k) = op_in H ?k" using r k(1) eq by (simp add: entries_read_def value_of_def)
    from d k(1) obtain f s where f: "DescribeOperation m = Some f" "f (op_in H ?k) (op_out H ?k) = Some s"
      by (auto simp: describable_def)
    then have "describe_operation m (value_of cv (int ?k)) (evalue (H ! t)) = Inr s"
      by (simp add: describe_operation_def cv out [symmetric])
    with r k hs c returnEntry f out at show ?thesis unfolding eq
      by (auto simp: history_entry_def Let_def entries_read_def calls returns other nth_list_update)
  qed
qed

lemma history_entries:
  assumes "wf_history H" and "describable m H"
  shows "\<exists>r. for_each (history_entry m) H (replicate (num_ops H) e, Map.empty, Map.empty) = Inr r \<and> entries_read m H (length H) r"
proof -
  have "\<exists>r. for_each (history_entry m) (take t H) (replicate (num_ops H) e, Map.empty, Map.empty) = Inr r \<and> entries_read m H t r"
    if "t \<le> length H" for t
    using that
  proof (induction t)
    case 0
    then show ?case by (simp add: entries_read_def)
  next
    case (Suc t)
    then obtain r where r: "for_each (history_entry m) (take t H) (replicate (num_ops H) e, Map.empty, Map.empty) = Inr r"
      "entries_read m H t r" by auto
    from history_entry_step [OF assms _ r(2)] Suc.prems obtain r' where "history_entry m (H ! t) r = Inr r'" "entries_read m H (Suc t) r'"
      by auto
    with r(1) Suc.prems show ?case by (simp add: take_Suc_conv_app_nth for_each_snoc)
  qed
  from this [of "length H"] show ?thesis by simp
qed

section \<open>The partial linearizations\<close>

text \<open>The steps of a linearization from a state, with the description of the state after each.\<close>

definition shows_linearization :: "('v, 's) Model \<Rightarrow> 'v entry list \<Rightarrow> nat list \<Rightarrow> partialLinearization \<Rightarrow> bool" where
  "shows_linearization m H ks lin \<longleftrightarrow> map lsIndex lin = map int ks
     \<and> (\<forall>j<length ks. \<exists>s f. exec m H (Init m) (take (Suc j) ks) = Some s \<and> DescribeState m = Some f
          \<and> lsStateDescription (lin ! j) = f s)"

definition values_read :: "'v entry list \<Rightarrow> (int \<rightharpoonup> 'v option) \<Rightarrow> (int \<rightharpoonup> 'v option) \<Rightarrow> bool" where
  "values_read H cv rv \<longleftrightarrow> (\<forall>k<num_ops H. cv (int k) = Some (op_in H k) \<and> rv (int k) = Some (op_out H k))"

lemma exec_append: "exec m H s (ks @ ks') = Option.bind (exec m H s ks) (\<lambda>t. exec m H t ks')"
  by (induction ks arbitrary: s) (auto split: option.splits bool.splits)

lemma partial_steps:
  assumes "values_read H cv rv" and "DescribeState m = Some f"
    and "set ks \<subseteq> {..<num_ops H}" and "legal m H (Init m) ks"
  shows "\<exists>s lin. for_each (partial_step m cv rv len i) (map int ks) (Init m, [], L)
      = Inr (s, lin, fold (mark_largest len i) (map int ks) L)
    \<and> exec m H (Init m) ks = Some s \<and> shows_linearization m H ks lin"
  using assms(3,4)
proof (induction ks rule: rev_induct)
  case Nil
  then show ?case by (simp add: shows_linearization_def)
next
  case (snoc k ks)
  from snoc.prems(2) obtain s where "exec m H (Init m) ks = Some s" "legal m H s [k]"
    by (auto simp: legal_def exec_append bind_eq_Some_conv)
  then obtain s' where s: "exec m H (Init m) ks = Some s" "Step m s (op_in H k) (op_out H k) = Some (True, s')"
    by auto
  with snoc.prems(1) snoc.IH obtain lin where lin: "for_each (partial_step m cv rv len i) (map int ks) (Init m, [], L)
      = Inr (s, lin, fold (mark_largest len i) (map int ks) L)" "shows_linearization m H ks lin"
    by (auto simp: legal_def)
  have "partial_step m cv rv len i (int k) (s, lin, fold (mark_largest len i) (map int ks) L)
      = Inr (s', lin @ [\<lparr>lsIndex = int k, lsStateDescription = f s'\<rparr>], fold (mark_largest len i) (map int (ks @ [k])) L)"
    using assms(1,2) snoc.prems(1) s(2) by (simp add: partial_step_def values_read_def value_of_def)
  moreover have e: "exec m H (Init m) (ks @ [k]) = Some s'" using exec_snoc [OF s] .
  moreover have "shows_linearization m H (ks @ [k]) (lin @ [\<lparr>lsIndex = int k, lsStateDescription = f s'\<rparr>])"
  proof -
    have "length lin = length ks" using lin(2) by (metis shows_linearization_def length_map)
    with lin(2) e assms(2) show ?thesis by (auto simp: shows_linearization_def less_Suc_eq nth_append)
  qed
  ultimately show ?case using lin(1) by (simp add: for_each_snoc)
qed

section \<open>The largest partial linearization of an operation\<close>

lemma fold_mark_largest:
  "fold (mark_largest len i) ks (ls, li) =
    (\<lambda>k. if k \<in> set ks \<and> size_of ls k < len then Some len else ls k,
     \<lambda>k. if k \<in> set ks \<and> size_of ls k < len then Some i else li k)"
proof (induction ks arbitrary: ls li)
  case (Cons k ks)
  then show ?case by (auto simp: mark_largest_def size_of_def fun_eq_iff)
qed simp

lemma find_index_snoc: "find_index P (xs @ [x]) = (case find_index P xs of Some i \<Rightarrow> Some i
    | None \<Rightarrow> if P x then Some (length xs) else None)"
  by (induction xs) (auto split: option.splits)

definition largest_of :: "int list list \<Rightarrow> int \<rightharpoonup> nat" where
  "largest_of P k = find_index (\<lambda>p. k \<in> set p) P"

definition size_at :: "int list list \<Rightarrow> int \<rightharpoonup> nat" where
  "size_at P k = map_option (\<lambda>i. length (P ! i)) (largest_of P k)"

lemma mark_next:
  assumes "sorted_wrt (\<lambda>p q. \<not> length p < length q) (P @ [p])"
  shows "fold (mark_largest (length p) (length P)) p (size_at P, largest_of P) = (size_at (P @ [p]), largest_of (P @ [p]))"
proof -
  have "size_of (size_at P) k < length p \<longleftrightarrow> largest_of P k = None" if "k \<in> set p" for k
  proof (cases "largest_of P k")
    case None
    with that show ?thesis by (auto simp: size_of_def size_at_def)
  next
    case (Some i)
    then have "P ! i \<in> set P" by (simp add: largest_of_def find_index_Some_iff)
    with assms Some show ?thesis by (auto simp: size_of_def size_at_def sorted_wrt_append)
  qed
  moreover have "largest_of (P @ [p]) k = (case largest_of P k of Some i \<Rightarrow> Some i
      | None \<Rightarrow> if k \<in> set p then Some (length P) else None)" for k
    by (simp add: largest_of_def find_index_snoc)
  moreover have "i < length P" if "largest_of P k = Some i" for k i
    using that by (simp add: largest_of_def find_index_Some_iff)
  ultimately show ?thesis unfolding fold_mark_largest
    by (auto simp: fun_eq_iff size_at_def nth_append split: option.splits)
qed

lemma partial_bodies:
  assumes "values_read H cv rv" and "DescribeState m = Some f"
    and "\<And>ks. ks \<in> set kss \<Longrightarrow> linear_prefix m H ks"
    and "sorted_wrt (\<lambda>p q. \<not> length p < length q) (map (map int) kss)"
  shows "\<exists>lins. for_each (partial_body m cv rv) (enumerate 0 (map (map int) kss)) ([], Map.empty, Map.empty)
      = Inr (lins, size_at (map (map int) kss), largest_of (map (map int) kss))
    \<and> list_all2 (shows_linearization m H) kss lins"
  using assms(3,4)
proof (induction kss rule: rev_induct)
  case Nil
  then show ?case by (simp add: size_at_def largest_of_def fun_eq_iff)
next
  case (snoc ks kss)
  let ?P = "map (map int) kss"
  from snoc obtain lins where lins: "for_each (partial_body m cv rv) (enumerate 0 ?P) ([], Map.empty, Map.empty)
      = Inr (lins, size_at ?P, largest_of ?P)" "list_all2 (shows_linearization m H) kss lins"
    by (auto simp: sorted_wrt_append)
  have "linear_prefix m H ks" using snoc.prems(1) by simp
  then have "set ks \<subseteq> {..<num_ops H}" "legal m H (Init m) ks" by (simp_all add: linear_prefix_def)
  from partial_steps [OF assms(1,2) this] obtain s lin where
    lin: "for_each (partial_step m cv rv (length ks) (length kss)) (map int ks) (Init m, [], size_at ?P, largest_of ?P)
      = Inr (s, lin, fold (mark_largest (length ks) (length kss)) (map int ks) (size_at ?P, largest_of ?P))"
    "shows_linearization m H ks lin" by blast
  have "fold (mark_largest (length ks) (length kss)) (map int ks) (size_at ?P, largest_of ?P)
      = (size_at (?P @ [map int ks]), largest_of (?P @ [map int ks]))"
    using mark_next [of ?P "map int ks"] snoc.prems(2) by simp
  then have "partial_body m cv rv (length kss, map int ks) (lins, size_at ?P, largest_of ?P)
      = Inr (lins @ [lin], size_at (?P @ [map int ks]), largest_of (?P @ [map int ks]))"
    using lin(1) by (simp add: partial_body_def)
  then show ?case using lins lin(2)
    by (simp add: enumerate_append_eq for_each_snoc list_all2_appendI)
qed

section \<open>The whole picture\<close>

definition contains :: "partialLinearization \<Rightarrow> int \<Rightarrow> bool" where
  "contains lin k \<longleftrightarrow> k \<in> lsIndex ` set lin"

definition largest_ok :: "partialLinearization list \<Rightarrow> (int \<rightharpoonup> nat) \<Rightarrow> bool" where
  "largest_ok lins L \<longleftrightarrow> (\<forall>k. case L k of
     None \<Rightarrow> \<forall>lin\<in>set lins. \<not> contains lin k
   | Some i \<Rightarrow> i < length lins \<and> contains (lins ! i) k
       \<and> (\<forall>lin\<in>set lins. contains lin k \<longrightarrow> length lin \<le> length (lins ! i)))"

definition shows_partition :: "('v, 's) Model \<Rightarrow> 'v entry list \<Rightarrow> int list list \<Rightarrow> partitionVisualizationData \<Rightarrow> bool" where
  "shows_partition m H partials d \<longleftrightarrow>
     length (pvHistory d) = num_ops H \<and> (\<forall>k<num_ops H. shows_operation m H k (pvHistory d ! k))
     \<and> mset (map (map lsIndex) (pvPartialLinearizations d)) = mset partials
     \<and> (\<forall>lin\<in>set (pvPartialLinearizations d). \<exists>ks. linear_prefix m H ks \<and> shows_linearization m H ks lin)
     \<and> largest_ok (pvPartialLinearizations d) (pvLargest d)"

lemma longer_strict_weak: "strict_weak (\<lambda>p q. length q < length p)"
  by (auto simp: strict_weak_def)

lemma linear_partials:
  assumes "\<And>p. p \<in> set P \<Longrightarrow> \<exists>ks. p = map int ks \<and> linear_prefix m H ks"
  obtains kss where "P = map (map int) kss" and "\<And>ks. ks \<in> set kss \<Longrightarrow> linear_prefix m H ks"
proof
  have "map int (map nat p) = p \<and> linear_prefix m H (map nat p)" if "p \<in> set P" for p
    using assms [OF that] by (auto simp: comp_def)
  then show "P = map (map int) (map (map nat) P)" "\<And>ks. ks \<in> set (map (map nat) P) \<Longrightarrow> linear_prefix m H ks"
    by (simp_all add: map_idI [symmetric] comp_def) auto
qed

lemma largest_of_ok:
  assumes "map (map lsIndex) lins = P" and "sorted_wrt (\<lambda>p q. \<not> length p < length q) P"
  shows "largest_ok lins (largest_of P)"
  unfolding largest_ok_def
proof (intro allI)
  fix k
  have set: "lsIndex ` set (lins ! i) = set (P ! i)" "length (lins ! i) = length (P ! i)" if "i < length lins" for i
    using assms(1) that by auto
  have len: "length P = length lins" using assms(1) by auto
  show "case largest_of P k of None \<Rightarrow> \<forall>lin\<in>set lins. \<not> contains lin k
    | Some i \<Rightarrow> i < length lins \<and> contains (lins ! i) k
       \<and> (\<forall>lin\<in>set lins. contains lin k \<longrightarrow> length lin \<le> length (lins ! i))"
  proof (cases "largest_of P k")
    case None
    then have "\<forall>p\<in>set P. k \<notin> set p" by (simp add: largest_of_def find_index_None_iff)
    with None show ?thesis unfolding assms(1) [symmetric] by (simp add: contains_def)
  next
    case (Some i)
    then have i: "i < length lins" "k \<in> set (P ! i)" "\<forall>j<i. k \<notin> set (P ! j)"
      by (simp_all add: largest_of_def find_index_Some_iff len)
    have "length (lins ! j) \<le> length (lins ! i)" if "j < length lins" "contains (lins ! j) k" for j
    proof (cases "i = j")
      case False
      with that i set have "i < j" by (metis contains_def linorder_neqE_nat)
      with assms(2) that(1) len have "\<not> length (P ! i) < length (P ! j)" by (metis sorted_wrt_nth_less)
      with that(1) i(1) set show ?thesis by simp
    qed simp
    then have "\<forall>lin\<in>set lins. contains lin k \<longrightarrow> length lin \<le> length (lins ! i)" by (metis in_set_conv_nth)
    moreover have "contains (lins ! i) k" using i(1,2) set(1) by (simp add: contains_def)
    ultimately show ?thesis using Some i(1) by simp
  qed
qed

lemma visualize_partition_shows:
  assumes s: "sorter sort_slice" and wf: "wf_history H" and d: "describable m H" and f: "DescribeState m = Some f"
    and part: "part < length (partialLinearizations info)" "infoHistory info ! part = H"
    and lp: "\<And>p. p \<in> set (partialLinearizations info ! part) \<Longrightarrow> \<exists>ks. p = map int ks \<and> linear_prefix m H ks"
  shows "\<exists>d partials. visualize_partition sort_slice m part (data, info)
      = Inr (data[part := d], info\<lparr>partialLinearizations := (partialLinearizations info)[part := partials]\<rparr>)
    \<and> shows_partition m H (partialLinearizations info ! part) d"
proof -
  let ?P = "sort_slice (\<lambda>p q. length q < length p) (partialLinearizations info ! part)"
  have ms: "mset ?P = mset (partialLinearizations info ! part)" by (rule sorter.sort_mset [OF s])
  have ord: "sorted_wrt (\<lambda>p q. \<not> length p < length q) ?P"
    using sorter.sort_ordered [OF s longer_strict_weak, of "partialLinearizations info ! part"] by (simp add: ordered_by_def)
  have "\<exists>ks. p = map int ks \<and> linear_prefix m H ks" if "p \<in> set ?P" for p
    using lp that by (metis ms set_mset_mset)
  then obtain kss where kss: "?P = map (map int) kss" "\<And>ks. ks \<in> set kss \<Longrightarrow> linear_prefix m H ks"
    using linear_partials by blast
  obtain hs cv rv where h: "for_each (history_entry m) H (replicate (num_ops H) \<lparr>heClientId = 0, heStart = 0, heEnd = 0, heDescription = []\<rparr>,
      Map.empty, Map.empty) = Inr (hs, cv, rv)" "entries_read m H (length H) (hs, cv, rv)"
    using history_entries [OF wf d] by (metis prod_cases3)
  have pos: "call_pos H k < length H" "return_pos H k < length H" if "k < num_ops H" for k
    using wf_history_pos(1,2) [OF wf that] wf by (simp_all add: wf_history_def)
  from h(2) pos have hs: "length hs = num_ops H" "\<forall>k<num_ops H. shows_operation m H k (hs ! k)" and vr: "values_read H cv rv"
    by (simp_all add: entries_read_def shows_operation_def values_read_def)
  from partial_bodies [OF vr f kss(2)] ord obtain lins where
    lins: "for_each (partial_body m cv rv) (enumerate 0 ?P) ([], Map.empty, Map.empty) = Inr (lins, size_at ?P, largest_of ?P)"
    "list_all2 (shows_linearization m H) kss lins" unfolding kss(1) by blast
  have idx: "map (map lsIndex) lins = ?P" unfolding kss(1)
    using lins(2) by (auto simp: list_all2_conv_all_nth shows_linearization_def intro: nth_equalityI)
  have "\<forall>lin\<in>set lins. \<exists>ks. linear_prefix m H ks \<and> shows_linearization m H ks lin"
    using lins(2) kss(2) by (auto simp: list_all2_conv_all_nth in_set_conv_nth) metis
  with hs idx ms largest_of_ok [OF idx ord] have "shows_partition m H (partialLinearizations info ! part)
      \<lparr>pvHistory = hs, pvPartialLinearizations = lins, pvLargest = largest_of ?P\<rparr>"
    by (simp add: shows_partition_def)
  then show ?thesis using h(1) lins(1) part
    by (fastforce simp: visualize_partition_def Let_def num_ops_def [symmetric])
qed

lemma all_partitions_shown:
  assumes s: "sorter sort_slice" and c: "checkable_histories m history" and d: "\<forall>H\<in>set history. describable m H"
    and f: "DescribeState m = Some f" and h: "infoHistory info = history" "length (partialLinearizations info) = length history"
    and lp: "\<And>i p. i < length history \<Longrightarrow> p \<in> set (partialLinearizations info ! i)
      \<Longrightarrow> \<exists>ks. p = map int ks \<and> linear_prefix m (history ! i) ks"
    and n: "n \<le> length history" and data: "length data = length history"
  shows "\<exists>data' info'. for_each (visualize_partition sort_slice m) [0..<n] (data, info) = Inr (data', info')
    \<and> length data' = length history \<and> infoHistory info' = history
    \<and> length (partialLinearizations info') = length history
    \<and> (\<forall>i. n \<le> i \<longrightarrow> partialLinearizations info' ! i = partialLinearizations info ! i)
    \<and> (\<forall>i<n. shows_partition m (history ! i) (partialLinearizations info ! i) (data' ! i))"
  using n
proof (induction n)
  case 0
  then show ?case using h data by simp
next
  case (Suc n)
  then obtain data1 info1 where r: "for_each (visualize_partition sort_slice m) [0..<n] (data, info) = Inr (data1, info1)"
    "length data1 = length history" "infoHistory info1 = history" "length (partialLinearizations info1) = length history"
    "\<forall>i. n \<le> i \<longrightarrow> partialLinearizations info1 ! i = partialLinearizations info ! i"
    "\<forall>i<n. shows_partition m (history ! i) (partialLinearizations info ! i) (data1 ! i)" by auto
  have n: "n < length history" using Suc.prems by simp
  then have "wf_history (history ! n)" "describable m (history ! n)" using c d by (simp_all add: checkable_histories_def)
  from visualize_partition_shows [OF s this f, of n info1 data1] r n lp [OF n] obtain e P where
    e: "visualize_partition sort_slice m n (data1, info1)
      = Inr (data1[n := e], info1\<lparr>partialLinearizations := (partialLinearizations info1)[n := P]\<rparr>)"
    "shows_partition m (history ! n) (partialLinearizations info ! n) e" by auto
  show ?case using r e n by (auto simp: for_each_snoc less_Suc_eq nth_list_update)
qed

lemma fillDefault_describes: "\<exists>f. DescribeState (fillDefault descOp descState model) = Some f"
  unfolding fillDefault_def Let_def by (cases "DescribeState model") simp_all

text \<open>
  (C16) The picture of a run of the checker is faithful. For the information that \<open>checkParallel\<close>
  collects, whatever its goroutines did and whatever the verdict, with a model that does not panic on
  the histories and can describe their operations, \<open>computeVisualizationData\<close> does not panic. For each
  partition it lists every operation with its client, its two times and its description; it shows
  exactly the recorded partial linearizations, each a linearizable prefix with the description of the
  state that the model reaches after each step; and for each operation \<open>Largest\<close> is the index of a
  longest shown linearization that contains it, and undefined if none does.
\<close>

theorem visualization_faithful:
  assumes "checkable_model (fillDefault descOp descState model) eq"
    and "checkable_histories (fillDefault descOp descState model) history"
    and "checkParallel (fillDefault descOp descState model) history True timeout (res, info)"
    and "sorter sort_slice" and "\<forall>H\<in>set history. describable (fillDefault descOp descState model) H"
  shows "\<exists>data info'. computeVisualizationData sort_slice descOp descState model info = Inr (data, info')
    \<and> length data = length history
    \<and> (\<forall>i<length history. shows_partition (fillDefault descOp descState model) (history ! i)
         (partialLinearizations info ! i) (data ! i))"
proof -
  let ?m = "fillDefault descOp descState model"
  obtain p where p: "reach (\<lambda>p. p = par_start history) (par_step ?m history True timeout) p" "pphase p = Finished"
    "info = par_info history True p" using assms(3) by (auto simp: checkParallel_def)
  note inv = checkable_model.par_reach_inv [OF assms(1,2) p(1)]
  obtain f where f: "DescribeState ?m = Some f" using fillDefault_describes by blast
  have h: "infoHistory info = history" "length (partialLinearizations info) = length history"
    unfolding p(3) by (simp_all add: par_info_def)
  have lp: "\<exists>ks. seq = map int ks \<and> linear_prefix ?m (history ! i) ks"
    if "i < length history" "seq \<in> set (partialLinearizations info ! i)" for i seq
    using checkable_model.par_info_ok [OF assms(1) inv p(2) that(1)] that(2) unfolding p(3) .
  have "length (replicate (length history) \<lparr>pvHistory = [], pvPartialLinearizations = [], pvLargest = Map.empty\<rparr>) = length history"
    by simp
  from all_partitions_shown [OF assms(4,2,5) f h _ order.refl this] lp show ?thesis
    unfolding computeVisualizationData_def Let_def h(1) by blast
qed

theorem visualization_faithful_witness:
  "\<exists>res info data info'. checkParallel sample_model [sample_history] True 0 (res, info)
    \<and> computeVisualizationData insertionSort (\<lambda>_ _. Some []) (\<lambda>_. []) KvModel info = Inr (data, info')
    \<and> shows_partition sample_model sample_history (partialLinearizations info ! 0) (data ! 0)"
proof -
  have c: "checkable_histories sample_model [sample_history]" using sample_wf by (simp add: checkable_histories_def)
  obtain res info where r: "checkParallel sample_model [sample_history] True 0 (res, info)"
    using checkable_model.checkParallel_returns [OF sample_checkable c] by blast
  have "DescribeOperation sample_model = Some kvDescribeOperation" by (simp add: sample_model_def fillDefault_def KvModel_def)
  moreover have "list_all (\<lambda>k. kvDescribeOperation (op_in sample_history k) (op_out sample_history k) \<noteq> None) [0..<num_ops sample_history]"
    by code_simp
  ultimately have d: "\<forall>H\<in>set [sample_history]. describable sample_model H" by (auto simp: describable_def list_all_iff)
  from visualization_faithful [of "\<lambda>_ _. Some []" "\<lambda>_. []" KvModel ShallowEqual, folded sample_model_def,
      OF sample_checkable c r ins.sorter_axioms d] r show ?thesis by fastforce
qed

end
