(* ===== verification/Spec2Isabelle.thy ===== *)
theory Spec2Isabelle
  imports CoordinatorLive CheckerProps MrProps LabGob LabRpcProps RaftApply RaftDisk ShardKvConfig Visualization
begin

text \<open>
  A model of the Go code under \<open>src/src/\<close> and the theorems that say what it does. The repository holds
  a MapReduce system with its applications, the linearizability checker \<open>porcupine\<close> with the model of a
  key/value store, the simulated network \<open>labrpc\<close> with the encoder checks \<open>labgob\<close>, and the interfaces
  and testers of a Raft peer, of a key/value service, of a shard controller and of a sharded service.

  \<^bold>\<open>How Go is modelled.\<close> A struct is a record, a set of string or boolean constants a datatype, a handler
  a function from state and arguments to state and reply, an exit or a panic a value of \<open>fatal\<close> in a sum
  (\<open>GoResult\<close>) or \<open>None\<close>. A slice is a list, with the index checks written out; a map is a partial function
  or, where its order or its printing matters, an association list. Pointers that the code compares or
  mutates (nodes of the checker, persisters, servers of the network) are addresses in explicit heaps.
  Chunks of bitsets, hashes and \<open>uint8\<close> fields are words; \<open>int\<close> is unbounded, since no quantity here comes
  near its limits. Random numbers, the clock, the process id, the iteration order of maps, the sorting
  routine and the answers of code outside the repository are arguments. A loop that need not end is a
  partial function into \<open>option\<close>, with \<open>None\<close> for a loop that runs forever, and whether it returns is
  proved. A loop with a bound in the code (10 rounds of \<open>checkOneLeader\<close>, 30 of \<open>wait\<close>) counts that bound
  down. There is no other fuel. What the development takes from Go's library is defined from its
  documented behaviour: UTF-8, JSON of a struct of two strings, \<open>Fields\<close>, \<open>Glob\<close>, \<open>Sprintf\<close> of the verbs in
  use, \<open>unicode.IsUpper\<close> up to its tables, and the access rules of \<open>reflect\<close>.

  \<^bold>\<open>Shared theories.\<close> \<open>Prelude\<close>: first index, permutations, and the locale \<open>invariant_system\<close> (reachable
  states of a step relation satisfy an inductive invariant). \<open>GoResult\<close>: sequencing and \<open>range\<close> loops of
  code that may stop. \<open>GoSort\<close>: the contract of \<open>sort.Sort\<close> as the locale \<open>sorter\<close>, and the insertion
  sort of Go's library, which meets it.

  \<^bold>\<open>MapReduce\<close> (\<open>mr/\<close>, \<open>main/mr*.go\<close>, \<open>mrapps/\<close>).
  \<^item> \<open>Coordinator\<close>: \<open>types.go\<close>, \<open>rpc.go\<close>, \<open>coordinator.go\<close>, \<open>mrcoordinator.go\<close>, one function per handler.
    \<open>RegisterWorker\<close> appends without the mutex, so its append is also given as a read and a later
    write, with the aliasing of the two slices as a flag.
  \<^item> \<open>CoordinatorInv\<close>, \<open>CoordinatorProps\<close>, \<open>CoordinatorLive\<close>: the invariant that ties the phase to the task
    tables; the phase barrier, exclusive assignment, ownership, every branch of the two
    task handlers; the number of rounds that a worker needs; the health check that
    disconnects every worker and the main program that never returns.
  \<^item> \<open>Utf8\<close>, \<open>KvCodec\<close>, \<open>Worker\<close>, \<open>WorkerFiles\<close>, \<open>Grouping\<close>, \<open>MrApps\<close>: the worker with its files, the sequential
    program and the applications. \<open>MrSystem\<close> and \<open>MrInvariant\<close>: coordinator, workers and files as one step
    relation. \<open>MrProps\<close>: the distributed run writes what the sequential program writes, the
    output of word count, what idle workers do and the file they may leave empty,
    the round trip of intermediate files, the ranges of hash and partition.
  \<^item> The writes of one reduce task are one step: every other task writes other files, except the idle
    workers, whose truncation is a step of its own. \<open>WorkerTaskUpdateArgs\<close> is without the field
    \<open>IntermediatePartition\<close>, which nothing sets or reads. A failing TCP listener is an argument of \<open>Worker\<close>;
    the accept loops of \<open>net/rpc\<close> are not modelled.

  \<^bold>\<open>The checker\<close> (\<open>porcupine/\<close>, \<open>models/kv.go\<close>).
  \<^item> \<open>Bitset\<close> (with the locale \<open>id_set\<close> that the search relies on), \<open>History\<close>, \<open>LinkedNodes\<close> (the
    doubly linked list on a heap), \<open>CheckSingle\<close>, \<open>CheckParallel\<close>, \<open>CheckOperations\<close>, \<open>CheckEvents\<close>,
    \<open>KeyValue\<close>: the code, in the order of its files.
  \<^item> \<open>Linearizability\<close>: the specification, and the locale \<open>checkable_model\<close> for what the search needs of a
    model, interpreted by the key/value model. \<open>WingGong\<close>: the search on abstract states, which
    \<open>CheckSingle\<close> refines. \<open>KvLocality\<close>: a store is linearizable if each key is.
  \<^item> \<open>CheckerProps\<close>: the answer of \<open>CheckOperations\<close> is the truth about the store, the search decides and reports linearizable prefixes, the goroutines of \<open>checkParallel\<close> agree with it and
    end, partitioning is sound and complete, when a check returns, real time order and
    renumbering of entries.
  \<^item> \<open>Visualization\<close>: the data of the picture of a run is right. Its JSON, the web page around it and
    the file are left out.

  \<^bold>\<open>The network\<close> (\<open>labrpc/\<close>, \<open>labgob/\<close>).
  \<^item> \<open>LabRpc\<close>: calls, the goroutine of the network, \<open>processReq\<close> as a machine with a state per request
    whose steps interleave with every operation on the network, dispatch by reflection.
    \<open>LabRpcProps\<close>: at most once, no acknowledgement from a dead server, success on a reliable
    network, dispatch.
  \<^item> \<open>LabGob\<close>: the checks for lower-case fields and for decoding into used variables, on type
    tables and memories that may be cyclic. \<open>encoding/gob\<close> itself is an argument.

  \<^bold>\<open>Raft and the services\<close> (\<open>raft/\<close>, \<open>kvraft/\<close>, \<open>shardctrler/\<close>, \<open>shardkv/\<close>).
  \<^item> The repository has the peers and servers as interfaces with empty handlers; they are modelled as they
    are. \<open>Raft\<close>: peer and persister. \<open>RaftConfig\<close>: the tester. \<open>RaftTester\<close>: its wiring. \<open>RaftDisk\<close>: its
    persisters refine one disk per server. \<open>RaftApply\<close>: what its checks decide.
  \<^item> \<open>KvConfig\<close> and \<open>KvPartition\<close>: the testers of \<open>kvraft\<close> and \<open>shardctrler\<close>, whose code is the same up to the
    type of the server, and the partitions they make. \<open>ShardCtrler\<close>: the clerk of the controller. \<open>ShardKv\<close>: shards and the clerk of the sharded service; its \<open>make_end\<close> is a function of the
    server's name. \<open>ShardKvConfig\<close>: its tester and the sizes it works for.
  \<^item> Answers of peers to the testers are arguments, since the empty handlers would give none; pauses are
    left out, and so are the tests themselves.

  \<^bold>\<open>Not modelled.\<close> The programs \<open>diskvd\<close>, \<open>lockc\<close>, \<open>lockd\<close>, \<open>pbc\<close>, \<open>pbd\<close> and \<open>viewd\<close> of \<open>main/\<close> only call packages
  that the repository does not contain.
\<close>

end
